(* ===== verification/Prelude.thy ===== *)
theory Prelude
  imports Main "HOL-Library.Word" "HOL-Library.Monad_Syntax"
begin

section \<open>Prelude: machine integers, slices and unaligned loads\<close>

text \<open>
  What the components share: names for Rust's integer types, the panicking operations of
  Rust as \<open>option\<close> values (\<^theory_text>\<open>None\<close> is a panic, or a read outside the slice), the
  byte-order primitives, and the bijectivity lemmas on which the mixing functions rest.
  The development models a little-endian target (\<open>cfg(target_endian = "little")\<close>).
\<close>

unbundle bit_operations_syntax

type_synonym u8 = "8 word"
type_synonym u16 = "16 word"
type_synonym u32 = "32 word"
type_synonym u64 = "64 word"
type_synonym u128 = "128 word"
type_synonym bytes = "u8 list"

named_theorems load_simps \<open>evaluation of slice reads whose bounds are known\<close>
named_theorems safe_intros \<open>a computation neither panics nor reads outside its slice\<close>
named_theorems inj_mix \<open>injectivity of the mixing steps\<close>

subsection \<open>Checked arithmetic and slices\<close>

text \<open>\<open>usize\<close> subtraction: an underflow panics.\<close>

definition usub :: "nat \<Rightarrow> nat \<Rightarrow> nat option" where
  "usub a b = (if b \<le> a then Some (a - b) else None)"

text \<open>\<open>&data[i..]\<close>: panics when \<open>i\<close> is past the end.\<close>

definition slice_from :: "'a list \<Rightarrow> nat \<Rightarrow> 'a list option" where
  "slice_from xs i = (if i \<le> length xs then Some (drop i xs) else None)"

text \<open>\<open>&data[data.len() - k..]\<close>.\<close>

definition slice_last :: "'a list \<Rightarrow> nat \<Rightarrow> 'a list option" where
  "slice_last xs k = do { i \<leftarrow> usub (length xs) k; slice_from xs i }"

text \<open>\<open>data[i]\<close>: panics out of range.\<close>

definition index :: "'a list \<Rightarrow> nat \<Rightarrow> 'a option" where
  "index xs i = (if i < length xs then Some (xs ! i) else None)"

lemma usub_le [load_simps]: "b \<le> a \<Longrightarrow> usub a b = Some (a - b)"
  by (simp add: usub_def)

lemma usub_Some_iff: "usub a b = Some c \<longleftrightarrow> b \<le> a \<and> c = a - b"
  by (auto simp: usub_def)

lemma slice_from_le [load_simps]: "i \<le> length xs \<Longrightarrow> slice_from xs i = Some (drop i xs)"
  by (simp add: slice_from_def)

lemma slice_last_le [load_simps]:
  "k \<le> length xs \<Longrightarrow> slice_last xs k = Some (drop (length xs - k) xs)"
  by (simp add: slice_last_def usub_def slice_from_def)

lemma index_less [load_simps]: "i < length xs \<Longrightarrow> index xs i = Some (xs ! i)"
  by (simp add: index_def)

text \<open>
  A computation is safe when it is not \<^const>\<open>None\<close>. A sequence of safe steps is safe; the
  rules keep the intermediate values abstract, so the terms do not grow.
\<close>

lemma bind_safe [safe_intros]:
  "m \<noteq> None \<Longrightarrow> (\<And>x. m = Some x \<Longrightarrow> k x \<noteq> None) \<Longrightarrow> Option.bind m k \<noteq> None"
  by (cases m) auto

lemma let_safe [safe_intros]: "(\<And>y. y = v \<Longrightarrow> k y \<noteq> None) \<Longrightarrow> (let y = v in k y) \<noteq> None"
  by simp

lemma Some_safe [safe_intros]: "Some x \<noteq> None"
  by simp

lemma if_safe [safe_intros]:
  "(c \<Longrightarrow> a \<noteq> None) \<Longrightarrow> (\<not> c \<Longrightarrow> b \<noteq> None) \<Longrightarrow> (if c then a else b) \<noteq> None"
  by simp

lemma prod_safe [safe_intros]:
  "(\<And>a b. k a b \<noteq> None) \<Longrightarrow> (case p of (a, b) \<Rightarrow> k a b) \<noteq> None"
  by (cases p) simp

lemma index_safe [safe_intros]: "i < length xs \<Longrightarrow> index xs i \<noteq> None"
  by (simp add: index_def)

lemma usub_safe [safe_intros]: "b \<le> a \<Longrightarrow> usub a b \<noteq> None"
  by (simp add: usub_def)

subsection \<open>Little-endian words\<close>

text \<open>The word whose bytes, from the least significant one, are the given list.\<close>

fun le_word :: "bytes \<Rightarrow> 'a::len word" where
  "le_word [] = 0"
| "le_word (b # bs) = ucast b OR push_bit 8 (le_word bs)"

definition le_bytes :: "nat \<Rightarrow> 'a::len word \<Rightarrow> bytes" where
  "le_bytes n w = map (\<lambda>i. ucast (drop_bit (8 * i) w)) [0..<n]"

lemma length_le_bytes [simp]: "length (le_bytes n w) = n"
  by (simp add: le_bytes_def)

lemma bit_le_word:
  "bit (le_word bs :: 'a::len word) n \<longleftrightarrow>
     n < LENGTH('a) \<and> n div 8 < length bs \<and> bit (bs ! (n div 8)) (n mod 8)"
proof (induction bs arbitrary: n)
  case Nil
  then show ?case by simp
next
  case (Cons b bs)
  show ?case
  proof (cases "n < 8")
    case True
    then show ?thesis by (auto simp: bit_simps)
  next
    case False
    then obtain k where n: "n = k + 8" by (metis le_add_diff_inverse2 not_less)
    have "(k + 8) div 8 = Suc (k div 8)" by simp
    then show ?thesis
      by (auto simp: n bit_simps Cons.IH dest: bit_imp_le_length)
  qed
qed

lemma nth_le_bytes: "i < n \<Longrightarrow> le_bytes n w ! i = ucast (drop_bit (8 * i) w)"
  by (simp add: le_bytes_def)

text \<open>Reading back the bytes of a word gives the word.\<close>

lemma le_word_le_bytes:
  fixes w :: "'a::len word"
  assumes "LENGTH('a) \<le> 8 * n"
  shows "(le_word (le_bytes n w) :: 'a word) = w"
proof (rule bit_word_eqI)
  fix m assume m: "m < LENGTH('a)"
  with assms have "m div 8 < n" by simp
  moreover have "8 * (m div 8) + m mod 8 = m" by simp
  ultimately show "bit (le_word (le_bytes n w) :: 'a word) m = bit w m"
    using m by (simp add: bit_le_word nth_le_bytes bit_simps)
qed

text \<open>\<open>u32::swap_bytes\<close> and \<open>u64::swap_bytes\<close>.\<close>

definition swap_bytes32 :: "u32 \<Rightarrow> u32" where
  "swap_bytes32 w = le_word (rev (le_bytes 4 w))"

definition swap_bytes64 :: "u64 \<Rightarrow> u64" where
  "swap_bytes64 w = le_word (rev (le_bytes 8 w))"

lemma le_bytes_le_word:
  assumes len: "length bs * 8 = LENGTH('a::len)"
  shows "le_bytes (length bs) (le_word bs :: 'a word) = bs"
proof (rule nth_equalityI)
  show "length (le_bytes (length bs) (le_word bs :: 'a word)) = length bs" by simp
next
  fix i assume "i < length (le_bytes (length bs) (le_word bs :: 'a word))"
  then have i: "i < length bs" by simp
  show "le_bytes (length bs) (le_word bs :: 'a word) ! i = bs ! i"
  proof (rule bit_word_eqI)
    fix m assume "m < LENGTH(8)"
    then have m: "m < 8" by simp
    with i len have "8 * i + m < LENGTH('a)" by linarith
    with i m show "bit (le_bytes (length bs) (le_word bs :: 'a word) ! i) m = bit (bs ! i) m"
      by (simp add: nth_le_bytes bit_simps bit_le_word)
  qed
qed

lemma swap_bytes32_swap_bytes32 [simp]: "swap_bytes32 (swap_bytes32 w) = w"
proof -
  have "le_bytes 4 (le_word (rev (le_bytes 4 w)) :: u32) = rev (le_bytes 4 w)"
    using le_bytes_le_word [of "rev (le_bytes 4 w)", where 'a = 32] by simp
  then show ?thesis by (simp add: swap_bytes32_def le_word_le_bytes)
qed

lemma swap_bytes64_swap_bytes64 [simp]: "swap_bytes64 (swap_bytes64 w) = w"
proof -
  have "le_bytes 8 (le_word (rev (le_bytes 8 w)) :: u64) = rev (le_bytes 8 w)"
    using le_bytes_le_word [of "rev (le_bytes 8 w)", where 'a = 64] by simp
  then show ?thesis by (simp add: swap_bytes64_def le_word_le_bytes)
qed

subsection \<open>Bijective mixing steps\<close>

text \<open>Multiplication by an odd constant, rotation and a right xor-shift lose no information.\<close>

lemma odd_mult_inj [inj_mix]:
  fixes a b k :: "'a::len word"
  assumes "odd k"
  shows "a * k = b * k \<longleftrightarrow> a = b"
proof
  assume eq: "a * k = b * k"
  from eq have "(a - b) * k = 0" by (simp add: algebra_simps)
  then have "word_of_int (uint (a - b) * uint k) = (0 :: 'a word)" by simp
  then have "2 ^ LENGTH('a) dvd uint (a - b) * uint k"
    by (simp only: word_of_int_eq_0_iff)
  moreover have "odd (uint k)" using assms bit_uint_iff [of k 0] by (simp add: bit_0)
  then have "coprime (2 ^ LENGTH('a)) (uint k)" by simp
  ultimately have "2 ^ LENGTH('a) dvd uint (a - b)"
    by (simp add: coprime_dvd_mult_left_iff)
  then have "uint (a - b) = 0"
    using zdvd_imp_le [of "2 ^ LENGTH('a)" "uint (a - b)"] uint_lt2p [of "a - b"] uint_ge_0 [of "a - b"]
    by linarith
  then have "a - b = 0" by (simp only: uint_0_iff)
  then show "a = b" by (simp only: right_minus_eq)
qed simp

lemma rotr_inj [inj_mix]: "word_rotr n a = word_rotr n b \<longleftrightarrow> a = b"
  for a b :: "'a::len word"
  by (metis word_rot_rl)

lemma xor_inj_left [inj_mix]: "a XOR c = b XOR c \<longleftrightarrow> a = b"
  for a b c :: "'a::len word"
  by (metis xor.assoc xor.right_neutral xor_self_eq)

lemma xor_drop_bit_inj [inj_mix]:
  fixes a b :: "'a::len word"
  assumes "0 < n"
  shows "a XOR drop_bit n a = b XOR drop_bit n b \<longleftrightarrow> a = b"
proof
  assume eq: "a XOR drop_bit n a = b XOR drop_bit n b"
  define d where "d = a XOR b"
  from eq have "d = drop_bit n d"
    unfolding d_def drop_bit_xor by (metis xor.assoc xor.left_commute xor.right_neutral xor_self_eq)
  then have "unat d = unat d div 2 ^ n"
    by (metis unat_drop_bit_eq drop_bit_eq_div)
  with assms have "unat d = 0"
    by (metis div_less_dividend less_irrefl neq0_conv one_less_power one_less_numeral_iff
        semiring_norm(76))
  then show "a = b" unfolding d_def
    by (metis unat_eq_zero xor.left_neutral xor.assoc xor.right_neutral xor_self_eq)
qed simp

lemma xor_push_bit_inj [inj_mix]:
  fixes a b :: "'a::len word"
  assumes "0 < n"
  shows "a XOR push_bit n a = b XOR push_bit n b \<longleftrightarrow> a = b"
proof
  assume eq: "a XOR push_bit n a = b XOR push_bit n b"
  have "bit a m = bit b m" for m
  proof (induction m rule: less_induct)
    case (less m)
    have "bit (a XOR push_bit n a) m = bit (b XOR push_bit n b) m" by (simp only: eq)
    with less [of "m - n"] assms show ?case
      by (cases "n \<le> m"; cases "m < LENGTH('a)") (auto simp: bit_simps dest: bit_imp_le_length)
  qed
  then show "a = b" by (simp add: bit_eq_iff)
qed simp

lemma xor_inj_right [inj_mix]: "c XOR a = c XOR b \<longleftrightarrow> a = b"
  for a b c :: "'a::len word"
  by (metis xor_inj_left xor.commute)

text \<open>An injective endofunction of a word type is a bijection: word types are finite.\<close>

lemma word_inj_bij:
  fixes f :: "'a::len word \<Rightarrow> 'a word"
  assumes "\<And>a b. f a = f b \<longleftrightarrow> a = b"
  shows "bij f"
  using finite_UNIV_inj_surj [of f] assms by (simp add: bij_def inj_def)

end
