(* ===== verification/Unaligned_Access.thy ===== *)
theory Unaligned_Access
  imports Prelude
begin

section \<open>Unaligned loads (mekong9-hash/src/internal/unaligned\_access.rs)\<close>

text \<open>
  \<open>ptr::read_unaligned\<close> reads the first bytes of the slice it points at. Rust does not check
  the length; a read past the end of the slice is undefined behaviour and is the value
  \<^const>\<open>None\<close> here, so that a proof that a function is not \<^const>\<open>None\<close> is a proof that its
  reads stay inside the data.
\<close>

definition read_unaligned :: "nat \<Rightarrow> bytes \<Rightarrow> 'a::len word option" where
  "read_unaligned n p = (if n \<le> length p then Some (le_word (take n p)) else None)"

definition unaligned_load16 :: "bytes \<Rightarrow> u16 option" where
  "unaligned_load16 p = read_unaligned 2 p"

definition unaligned_load32 :: "bytes \<Rightarrow> u32 option" where
  "unaligned_load32 p = read_unaligned 4 p"

definition unaligned_load64 :: "bytes \<Rightarrow> u64 option" where
  "unaligned_load64 p = read_unaligned 8 p"

lemma unaligned_load16_le [load_simps]:
  "2 \<le> length p \<Longrightarrow> unaligned_load16 p = Some (le_word (take 2 p))"
  by (simp add: unaligned_load16_def read_unaligned_def)

lemma unaligned_load32_le [load_simps]:
  "4 \<le> length p \<Longrightarrow> unaligned_load32 p = Some (le_word (take 4 p))"
  by (simp add: unaligned_load32_def read_unaligned_def)

lemma unaligned_load64_le [load_simps]:
  "8 \<le> length p \<Longrightarrow> unaligned_load64 p = Some (le_word (take 8 p))"
  by (simp add: unaligned_load64_def read_unaligned_def)

text \<open>Loading the bytes of an integer that lives in memory gives the integer.\<close>

lemma load16_le_bytes: "unaligned_load16 (le_bytes 2 (w :: u16)) = Some w"
  by (simp add: load_simps le_word_le_bytes)

lemma load32_le_bytes: "unaligned_load32 (le_bytes 4 (w :: u32)) = Some w"
  by (simp add: load_simps le_word_le_bytes)

lemma load64_le_bytes: "unaligned_load64 (le_bytes 8 (w :: u64)) = Some w"
  by (simp add: load_simps le_word_le_bytes)

end
