(* ===== verification/City.thy ===== *)
theory City
  imports Unaligned_Access
begin

section \<open>CityHash (mekong9-hash/src/internal/city.rs)\<close>

text \<open>
  The 32-bit and 64-bit CityHash functions over a byte slice, with the source's function names.
  Each function returns an \<open>option\<close>: \<^const>\<open>None\<close> is a slice index panic or a load that
  reaches past the end of the slice. All arithmetic of the source is \<open>wrapping_*\<close>, that is,
  the arithmetic of \<^typ>\<open>u32\<close> and \<^typ>\<open>u64\<close>.
\<close>

subsection \<open>Constants and loads\<close>

definition K0 :: u64 where "K0 = 0xc3a5c85c97cb3127"
definition K1 :: u64 where "K1 = 0xb492b66fbe98f273"
definition K2 :: u64 where "K2 = 0x9ae16a3b2f90404f"
definition C1 :: u32 where "C1 = 0xcc9e2d51"
definition C2 :: u32 where "C2 = 0x1b873593"
definition MUL :: u64 where "MUL = 0x9ddfea08eb382d69"

lemmas city_consts = K0_def K1_def K2_def C1_def C2_def MUL_def

definition u32_in_expected_order :: "u32 \<Rightarrow> u32" where
  "u32_in_expected_order v = v"

definition u64_in_expected_order :: "u64 \<Rightarrow> u64" where
  "u64_in_expected_order v = v"

definition fetch64 :: "bytes \<Rightarrow> u64 option" where
  "fetch64 p = do { v \<leftarrow> unaligned_load64 p; Some (u64_in_expected_order v) }"

definition fetch32 :: "bytes \<Rightarrow> u32 option" where
  "fetch32 p = do { v \<leftarrow> unaligned_load32 p; Some (u32_in_expected_order v) }"

text \<open>The two shapes in which the source loads: \<open>fetch(&data[i..])\<close> and
  \<open>fetch(&data[len - k..])\<close>.\<close>

definition fetch64_at :: "bytes \<Rightarrow> nat \<Rightarrow> u64 option" where
  "fetch64_at data i = do { p \<leftarrow> slice_from data i; fetch64 p }"

definition fetch32_at :: "bytes \<Rightarrow> nat \<Rightarrow> u32 option" where
  "fetch32_at data i = do { p \<leftarrow> slice_from data i; fetch32 p }"

definition fetch64_end :: "bytes \<Rightarrow> nat \<Rightarrow> u64 option" where
  "fetch64_end data k = do { p \<leftarrow> slice_last data k; fetch64 p }"

definition fetch32_end :: "bytes \<Rightarrow> nat \<Rightarrow> u32 option" where
  "fetch32_end data k = do { p \<leftarrow> slice_last data k; fetch32 p }"

lemma fetch64_safe [safe_intros]: "8 \<le> length p \<Longrightarrow> fetch64 p \<noteq> None"
  by (simp add: fetch64_def load_simps)

lemma fetch32_safe [safe_intros]: "4 \<le> length p \<Longrightarrow> fetch32 p \<noteq> None"
  by (simp add: fetch32_def load_simps)

lemma fetch64_at_safe [safe_intros]: "i + 8 \<le> length data \<Longrightarrow> fetch64_at data i \<noteq> None"
  by (simp add: fetch64_at_def fetch64_def load_simps)

lemma fetch32_at_safe [safe_intros]: "i + 4 \<le> length data \<Longrightarrow> fetch32_at data i \<noteq> None"
  by (simp add: fetch32_at_def fetch32_def load_simps)

lemma fetch64_end_safe [safe_intros]:
  "8 \<le> k \<Longrightarrow> k \<le> length data \<Longrightarrow> fetch64_end data k \<noteq> None"
  by (simp add: fetch64_end_def fetch64_def load_simps)

lemma fetch32_end_safe [safe_intros]:
  "4 \<le> k \<Longrightarrow> k \<le> length data \<Longrightarrow> fetch32_end data k \<noteq> None"
  by (simp add: fetch32_end_def fetch32_def load_simps)

subsection \<open>Mixing steps\<close>

definition rotate64 :: "u64 \<Rightarrow> nat \<Rightarrow> u64" where
  "rotate64 val shift = (if shift = 0 then val else word_rotr shift val)"

definition rotate32 :: "u32 \<Rightarrow> nat \<Rightarrow> u32" where
  "rotate32 val shift = (if shift = 0 then val else word_rotr shift val)"

definition mur :: "u32 \<Rightarrow> u32 \<Rightarrow> u32" where
  "mur a h =
    (let a = a * C1;
         a = rotate32 a 17;
         a = a * C2;
         h = h XOR a;
         h = rotate32 h 19
     in h * 5 + 0xe6546b64)"

definition fmix :: "u32 \<Rightarrow> u32" where
  "fmix h =
    (let h = h XOR drop_bit 16 h;
         h = h * 0x85ebca6b;
         h = h XOR drop_bit 13 h;
         h = h * 0xc2b2ae35
     in h XOR drop_bit 16 h)"

definition shift_mix :: "u64 \<Rightarrow> u64" where
  "shift_mix val = val XOR drop_bit 47 val"

definition hash64_len16 :: "u64 \<Rightarrow> u64 \<Rightarrow> u64 \<Rightarrow> u64" where
  "hash64_len16 u v mul =
    (let a = (u XOR v) * mul;
         a = a XOR drop_bit 47 a;
         b = (v XOR a) * mul;
         b = b XOR drop_bit 47 b
     in b * mul)"

subsection \<open>Short inputs\<close>

text \<open>The \<open>for\<close> loop of \<open>hash32_len0_to4\<close>: each byte is read as \<open>i8\<close> and sign-extended.\<close>

fun hash32_len0_to4_loop :: "bytes \<Rightarrow> u32 \<Rightarrow> u32 \<Rightarrow> u32 \<times> u32" where
  "hash32_len0_to4_loop [] b c = (b, c)"
| "hash32_len0_to4_loop (v # vs) b c =
    (let b = b * C1 + scast v; c = c XOR b in hash32_len0_to4_loop vs b c)"

definition hash32_len0_to4 :: "bytes \<Rightarrow> u32" where
  "hash32_len0_to4 data =
    (let (b, c) = hash32_len0_to4_loop data 0 9
     in fmix (mur b (mur (of_nat (length data)) c)))"

definition hash64_len0_to16 :: "bytes \<Rightarrow> u64 option" where
  "hash64_len0_to16 data =
    (let len = length data in
     if len \<ge> 8 then
       let mul = K2 + of_nat len * 2 in do {
         a \<leftarrow> fetch64 data;
         let a = a + K2;
         b \<leftarrow> fetch64_end data 8;
         let c = rotate64 b 37 * mul + a;
         let d = (rotate64 a 25 + b) * mul;
         Some (hash64_len16 c d mul)
       }
     else if len \<ge> 4 then
       let mul = K2 + of_nat len * 2 in do {
         a \<leftarrow> fetch32 data;
         let a = (ucast a :: u64);
         b \<leftarrow> fetch32_end data 4;
         Some (hash64_len16 (of_nat len + push_bit 3 a) (ucast b) mul)
       }
     else if len > 0 then do {
         a \<leftarrow> index data 0;
         b \<leftarrow> index data (len div 2);
         c \<leftarrow> index data (len - 1);
         let y = (ucast a :: u32) + push_bit 8 (ucast b);
         let z = (of_nat len :: u32) + push_bit 2 (ucast c);
         let k = (ucast y * K2) XOR (ucast z * K0);
         Some (shift_mix k * K2)
       }
     else Some K2)"

definition hash32_len5_to12 :: "bytes \<Rightarrow> u32 option" where
  "hash32_len5_to12 data =
    (let len = length data; a = of_nat len; b = a * 5; c = 9; d = b in do {
       x \<leftarrow> fetch32 data;
       let a = a + x;
       x \<leftarrow> fetch32_end data 4;
       let b = b + x;
       x \<leftarrow> fetch32_at data ((len div 2) AND 4);
       let c = c + x;
       Some (fmix (mur c (mur b (mur a d))))
     })"

definition hash64_len17_to32 :: "bytes \<Rightarrow> u64 option" where
  "hash64_len17_to32 data =
    (let len = length data; mul = K2 + of_nat len * 2 in do {
       a \<leftarrow> fetch64 data;
       let a = a * K1;
       b \<leftarrow> fetch64_at data 8;
       c \<leftarrow> fetch64_end data 8;
       let c = c * mul;
       d \<leftarrow> fetch64_end data 16;
       let d = d * K2;
       Some (hash64_len16
         (rotate64 (a + b) 43 + rotate64 c 30 + d)
         (a + rotate64 (b + K2) 18 + c)
         mul)
     })"

definition hash32_len13_to24 :: "bytes \<Rightarrow> u32 option" where
  "hash32_len13_to24 data =
    (let len = length data in do {
       i \<leftarrow> usub (len div 2) 4;
       a \<leftarrow> fetch32_at data i;
       b \<leftarrow> fetch32_at data 4;
       c \<leftarrow> fetch32_end data 8;
       d \<leftarrow> fetch32_at data (len div 2);
       e \<leftarrow> fetch32 data;
       f \<leftarrow> fetch32_end data 4;
       let h = of_nat len;
       Some (fmix (mur f (mur e (mur d (mur c (mur b (mur a h)))))))
     })"

subsection \<open>Longer inputs\<close>

definition hash64_len33_to64 :: "bytes \<Rightarrow> u64 option" where
  "hash64_len33_to64 data =
    (let len = length data; mul = K2 + of_nat len * 2 in do {
       a \<leftarrow> fetch64 data;
       let a = a * K2;
       b \<leftarrow> fetch64_at data 8;
       c \<leftarrow> fetch64_end data 24;
       d \<leftarrow> fetch64_end data 32;
       e \<leftarrow> fetch64_at data 16;
       let e = e * K2;
       f \<leftarrow> fetch64_at data 24;
       let f = f * 9;
       g \<leftarrow> fetch64_end data 8;
       h \<leftarrow> fetch64_end data 16;
       let h = h * mul;
       let q = (rotate64 b 30 + c) * 9;
       let u = rotate64 (a + g) 43 + q;
       let v = ((a + g) XOR d) + f + 1;
       let w = swap_bytes64 ((u + v) * mul) + h;
       let x = rotate64 (e + f) 42 + c;
       let y = (swap_bytes64 ((v + w) * mul) + g) * mul;
       let z = e + f + c;
       let a = swap_bytes64 ((x + z) * mul + y) + b;
       let q = (z + a) * mul + d + h;
       Some (shift_mix q * mul + x)
     })"

definition weak_hash64_len32_with_seeds :: "bytes \<Rightarrow> u64 \<Rightarrow> u64 \<Rightarrow> (u64 \<times> u64) option" where
  "weak_hash64_len32_with_seeds data a b = do {
     w \<leftarrow> fetch64 data;
     x \<leftarrow> fetch64_at data 8;
     y \<leftarrow> fetch64_at data 16;
     z \<leftarrow> fetch64_at data 24;
     let aa = a + w;
     let bb = rotate64 (b + aa + z) 21;
     let c = aa;
     let aa = aa + x;
     let aa = aa + y;
     let bb = bb + rotate64 aa 44;
     Some (aa + z, bb + c)
   }"

text \<open>\<open>weak_hash64_len32_with_seeds(&data[i..], a, b)\<close> and the same from the end.\<close>

definition weak_hash_at :: "bytes \<Rightarrow> nat \<Rightarrow> u64 \<Rightarrow> u64 \<Rightarrow> (u64 \<times> u64) option" where
  "weak_hash_at data i a b = do { p \<leftarrow> slice_from data i; weak_hash64_len32_with_seeds p a b }"

definition weak_hash_end :: "bytes \<Rightarrow> nat \<Rightarrow> u64 \<Rightarrow> u64 \<Rightarrow> (u64 \<times> u64) option" where
  "weak_hash_end data k a b = do { p \<leftarrow> slice_last data k; weak_hash64_len32_with_seeds p a b }"

subsection \<open>hash32: the 20-byte chunk loop\<close>

text \<open>The recurring Murmur step \<open>h = rotate32(h, r).wrapping_mul(5).wrapping_add(0xe6546b64)\<close>.\<close>

definition mix5 :: "u32 \<Rightarrow> nat \<Rightarrow> u32" where
  "mix5 h r = rotate32 h r * 5 + 0xe6546b64"

definition scramble32 :: "u32 \<Rightarrow> u32" where
  "scramble32 x = rotate32 (x * C1) 17 * C2"

definition hash32_body :: "bytes \<Rightarrow> nat \<Rightarrow> u32 \<times> u32 \<times> u32 \<Rightarrow> (u32 \<times> u32 \<times> u32) option" where
  "hash32_body data seek st = (case st of (h, g, f) \<Rightarrow> do {
     x \<leftarrow> fetch32_at data seek;
     let b0 = scramble32 x;
     b1 \<leftarrow> fetch32_at data (seek + 4);
     x \<leftarrow> fetch32_at data (seek + 8);
     let b2 = scramble32 x;
     x \<leftarrow> fetch32_at data (seek + 12);
     let b3 = scramble32 x;
     b4 \<leftarrow> fetch32_at data (seek + 16);
     let h = h XOR b0;
     let h = mix5 h 18;
     let f = f + b1;
     let f = rotate32 f 19;
     let f = f * C1;
     let g = g + b2;
     let g = mix5 g 18;
     let h = h XOR (b3 + b1);
     let h = mix5 h 19;
     let g = g XOR b4;
     let g = swap_bytes32 g * 5;
     let h = h + b4 * 5;
     let h = swap_bytes32 h;
     let f = f + b0;
     \<comment> \<open>\<open>permute3!(f, h, g)\<close> swaps \<open>f\<close> with \<open>h\<close>, then \<open>f\<close> with \<open>g\<close>\<close>
     let (f, h) = (h, f);
     let (f, g) = (g, f);
     Some (h, g, f)
   })"

fun hash32_loop :: "bytes \<Rightarrow> nat \<Rightarrow> nat \<Rightarrow> u32 \<times> u32 \<times> u32 \<Rightarrow> (u32 \<times> u32 \<times> u32) option" where
  "hash32_loop data seek 0 st = None" \<comment> \<open>\<open>iters -= 1\<close> underflows\<close>
| "hash32_loop data seek (Suc iters) st = do {
     st \<leftarrow> hash32_body data seek st;
     if iters = 0 then Some st else hash32_loop data (seek + 20) iters st
   }"

definition hash32_finish :: "u32 \<times> u32 \<times> u32 \<Rightarrow> u32" where
  "hash32_finish st = (case st of (h, g, f) \<Rightarrow>
     let g = rotate32 g 11 * C1;
         g = rotate32 g 17 * C1;
         f = rotate32 f 11 * C1;
         f = rotate32 f 17 * C1;
         h = rotate32 (h + g) 19;
         h = h * 5 + 0xe6546b64;
         h = rotate32 h 17 * C1;
         h = rotate32 (h + f) 19;
         h = h * 5 + 0xe6546b64;
         h = rotate32 h 17 * C1
     in h)"

definition hash32 :: "bytes \<Rightarrow> u32 option" where
  "hash32 data =
    (let len = length data in
     if len \<le> 24 then
       (if len \<le> 12 then
          (if len \<le> 4 then Some (hash32_len0_to4 data) else hash32_len5_to12 data)
        else hash32_len13_to24 data)
     else
       let h = of_nat len; g = C1 * h; f = g in do {
         x \<leftarrow> fetch32_end data 4;
         let a0 = scramble32 x;
         x \<leftarrow> fetch32_end data 8;
         let a1 = scramble32 x;
         x \<leftarrow> fetch32_end data 16;
         let a2 = scramble32 x;
         x \<leftarrow> fetch32_end data 12;
         let a3 = scramble32 x;
         x \<leftarrow> fetch32_end data 20;
         let a4 = scramble32 x;
         let h = mix5 (h XOR a0) 19;
         let h = mix5 (h XOR a2) 19;
         let g = mix5 (g XOR a1) 19;
         let g = mix5 (g XOR a3) 19;
         let f = mix5 (f + a4) 19;
         st \<leftarrow> hash32_loop data 0 ((len - 1) div 20) (h, g, f);
         Some (hash32_finish st)
       })"

subsection \<open>hash64: the 64-byte chunk loop\<close>

type_synonym city_state = "u64 \<times> u64 \<times> u64 \<times> (u64 \<times> u64) \<times> (u64 \<times> u64)"

definition hash64_body :: "bytes \<Rightarrow> nat \<Rightarrow> city_state \<Rightarrow> city_state option" where
  "hash64_body data seek st = (case st of (x, y, z, v, w) \<Rightarrow> do {
     p \<leftarrow> fetch64_at data (seek + 8);
     let t = x + y + fst v + p;
     let x = rotate64 t 37 * K1;
     let x = x XOR snd w;
     p \<leftarrow> fetch64_at data (seek + 48);
     let t = y + snd v + p;
     let y = rotate64 t 42 * K1;
     p \<leftarrow> fetch64_at data (seek + 40);
     let t = fst v + p;
     let y = y + t;
     let z = rotate64 (z + fst w) 33 * K1;
     v \<leftarrow> weak_hash_at data seek (snd v * K1) (x + fst w);
     p \<leftarrow> fetch64_at data (seek + 16);
     w \<leftarrow> weak_hash_at data (seek + 32) (z + snd w) (y + p);
     let (z, x) = (x, z);
     Some (x, y, z, v, w)
   })"

text \<open>The loop runs until \<open>len\<close>, a multiple of 64, reaches 0; \<open>len -= 64\<close> panics below 64.\<close>

function hash64_loop :: "bytes \<Rightarrow> nat \<Rightarrow> nat \<Rightarrow> city_state \<Rightarrow> city_state option" where
  "hash64_loop data seek len st = do {
     st \<leftarrow> hash64_body data seek st;
     if 64 \<le> len
     then (if len - 64 = 0 then Some st else hash64_loop data (seek + 64) (len - 64) st)
     else None
   }"
  by pat_completeness auto
termination
  by (relation "measure (\<lambda>(data, seek, len, st). len)") auto

declare hash64_loop.simps [simp del]

definition hash64 :: "bytes \<Rightarrow> u64 option" where
  "hash64 data =
    (let len = length data in
     if len \<le> 32 then
       (if len \<le> 16 then hash64_len0_to16 data else hash64_len17_to32 data)
     else if len \<le> 64 then hash64_len33_to64 data
     else do {
       x \<leftarrow> fetch64_end data 40;
       p \<leftarrow> fetch64_end data 16;
       q \<leftarrow> fetch64_end data 56;
       let y = p + q;
       p \<leftarrow> fetch64_end data 48;
       q \<leftarrow> fetch64_end data 24;
       let z = hash64_len16 (p + of_nat len) q MUL;
       v \<leftarrow> weak_hash_end data 64 (of_nat len) z;
       w \<leftarrow> weak_hash_end data 32 (y + K1) x;
       p \<leftarrow> fetch64 data;
       let x = x * K1 + p;
       \<comment> \<open>\<open>(len - 1) & !63\<close>, see \<open>and_not_63\<close>\<close>
       (x, y, z, v, w) \<leftarrow> hash64_loop data 0 (64 * ((len - 1) div 64)) (x, y, z, v, w);
       Some (hash64_len16
         (hash64_len16 (fst v) (fst w) MUL + (shift_mix y * K1 + z))
         (hash64_len16 (snd v) (snd w) MUL + x)
         MUL)
     })"

definition hash64_with_seeds :: "bytes \<Rightarrow> u64 \<Rightarrow> u64 \<Rightarrow> u64 option" where
  "hash64_with_seeds data seed0 seed1 = do {
     h \<leftarrow> hash64 data;
     Some (hash64_len16 (h - seed0) seed1 MUL)
   }"

definition hash64_with_seed :: "bytes \<Rightarrow> u64 \<Rightarrow> u64 option" where
  "hash64_with_seed data seed = hash64_with_seeds data K2 seed"

lemma and_not_63:
  assumes "n < 2 ^ 64"
  shows "unat ((of_nat n :: u64) AND NOT 63) = 64 * (n div 64)"
proof -
  have "(of_nat n :: u64) AND NOT (mask 6) = push_bit 6 (drop_bit 6 (of_nat n))"
    by (rule bit_word_eqI) (auto simp: bit_simps)
  also have "\<dots> = of_nat n div 64 * 64"
    by (simp add: drop_bit_eq_div push_bit_eq_mult)
  also have "unat (of_nat n div 64 * 64 :: u64) = 64 * (n div 64)"
  proof -
    have n: "unat (of_nat n :: u64) = n"
      using assms by (simp add: unat_of_nat)
    have "n div 64 * 64 < 2 ^ 64"
      using assms div_times_less_eq_dividend [of n 64] by linarith
    then show ?thesis
      by (simp add: unat_word_ariths unat_div n)
  qed
  finally show ?thesis by (simp add: mask_eq_exp_minus_1)
qed

end
