(* ===== verification/City_Props.thy ===== *)
theory City_Props
  imports City
begin

section \<open>Properties of CityHash\<close>

text \<open>
  Memory safety and totality of both hash functions on every slice, the bijectivity of the
  mixing steps, and that neither the 20-byte chunk loop nor the seeding loses information.
\<close>

subsection \<open>Every read is in bounds\<close>

lemma hash64_len0_to16_safe: "hash64_len0_to16 data \<noteq> None"
  unfolding hash64_len0_to16_def by (intro safe_intros) auto

lemma hash32_len5_to12_safe:
  assumes "5 \<le> length data" and "length data \<le> 12"
  shows "hash32_len5_to12 data \<noteq> None"
proof -
  have "(length data div 2 AND 4) + 4 \<le> length data"
  proof -
    have "length data \<in> {5, 6, 7, 8, 9, 10, 11, 12}" using assms by auto
    then show ?thesis by auto
  qed
  then show ?thesis
    unfolding hash32_len5_to12_def using assms by (intro safe_intros) auto
qed

lemma hash64_len17_to32_safe: "17 \<le> length data \<Longrightarrow> hash64_len17_to32 data \<noteq> None"
  unfolding hash64_len17_to32_def by (intro safe_intros) auto

lemma hash32_len13_to24_safe: "13 \<le> length data \<Longrightarrow> hash32_len13_to24 data \<noteq> None"
  unfolding hash32_len13_to24_def by (intro safe_intros) (auto simp: usub_Some_iff)

lemma hash64_len33_to64_safe: "33 \<le> length data \<Longrightarrow> hash64_len33_to64 data \<noteq> None"
  unfolding hash64_len33_to64_def by (intro safe_intros) auto

lemma weak_hash64_safe [safe_intros]:
  "32 \<le> length data \<Longrightarrow> weak_hash64_len32_with_seeds data a b \<noteq> None"
  unfolding weak_hash64_len32_with_seeds_def by (intro safe_intros) auto

lemma weak_hash_at_safe [safe_intros]:
  "i + 32 \<le> length data \<Longrightarrow> weak_hash_at data i a b \<noteq> None"
  by (simp add: weak_hash_at_def slice_from_le weak_hash64_safe del: not_None_eq)

lemma weak_hash_end_safe [safe_intros]:
  "32 \<le> k \<Longrightarrow> k \<le> length data \<Longrightarrow> weak_hash_end data k a b \<noteq> None"
  by (simp add: weak_hash_end_def slice_last_le weak_hash64_safe del: not_None_eq)

lemma hash32_body_safe [safe_intros]:
  "seek + 20 \<le> length data \<Longrightarrow> hash32_body data seek st \<noteq> None"
  unfolding hash32_body_def by (intro safe_intros) auto

lemma hash64_body_safe [safe_intros]:
  "seek + 64 \<le> length data \<Longrightarrow> hash64_body data seek st \<noteq> None"
  unfolding hash64_body_def by (intro safe_intros) auto

text \<open>The chunk loops stay inside the slice as long as the chunks they are told to read do.\<close>

lemma hash32_loop_safe:
  assumes "0 < iters" and "seek + 20 * iters \<le> length data"
  shows "hash32_loop data seek iters st \<noteq> None"
  using assms
proof (induction iters arbitrary: seek st)
  case 0
  then show ?case by simp
next
  case (Suc n)
  have "hash32_loop data (seek + 20) n st' \<noteq> None" if "n \<noteq> 0" for st'
    using that Suc.prems by (intro Suc.IH) auto
  with Suc.prems show ?case
    by (simp only: hash32_loop.simps) (intro safe_intros; simp)
qed

lemma hash64_loop_safe:
  assumes "0 < n" and "seek + 64 * n \<le> length data"
  shows "hash64_loop data seek (64 * n) st \<noteq> None"
  using assms
proof (induction n arbitrary: seek st)
  case 0
  then show ?case by simp
next
  case (Suc n)
  have "hash64_loop data (seek + 64) (64 * n) st' \<noteq> None" if "n \<noteq> 0" for st'
    using that Suc.prems by (intro Suc.IH) auto
  with Suc.prems show ?case
    by (subst hash64_loop.simps) (intro safe_intros; simp)
qed

lemma hash32_safe [safe_intros]: "hash32 data \<noteq> None"
proof -
  have loop: "hash32_loop data 0 ((length data - 1) div 20) st \<noteq> None"
    if "24 < length data" for st
  proof (rule hash32_loop_safe)
    show "0 < (length data - 1) div 20" using that by simp
    show "0 + 20 * ((length data - 1) div 20) \<le> length data"
      using div_times_less_eq_dividend [of "length data - 1" 20] by linarith
  qed
  show ?thesis
    unfolding hash32_def Let_def
    by (intro safe_intros hash32_len5_to12_safe hash32_len13_to24_safe loop) auto
qed

lemma hash64_safe [safe_intros]: "hash64 data \<noteq> None"
proof -
  have loop: "hash64_loop data 0 (64 * ((length data - 1) div 64)) st \<noteq> None"
    if "64 < length data" for st
  proof (rule hash64_loop_safe)
    show "0 < (length data - 1) div 64" using that by simp
    show "0 + 64 * ((length data - 1) div 64) \<le> length data"
      using div_times_less_eq_dividend [of "length data - 1" 64] by linarith
  qed
  show ?thesis
    unfolding hash64_def Let_def
    by (intro safe_intros hash64_len0_to16_safe hash64_len17_to32_safe hash64_len33_to64_safe loop)
       auto
qed

text \<open>
  C34: \<open>hash32\<close> and \<open>hash64\<close> return a value for every byte slice: no slice index panics,
  no subtraction underflows, no load reaches past the end of the slice, and both chunk loops stop.
\<close>

theorem city_total: "(\<exists>h. hash32 data = Some h) \<and> (\<exists>h. hash64 data = Some h)"
  using hash32_safe [of data] hash64_safe [of data] by auto

subsection \<open>The mixing steps lose no information\<close>

lemma rotate64_inj [inj_mix]: "rotate64 a n = rotate64 b n \<longleftrightarrow> a = b"
  by (simp add: rotate64_def inj_mix)

lemma rotate32_inj [inj_mix]: "rotate32 a n = rotate32 b n \<longleftrightarrow> a = b"
  by (simp add: rotate32_def inj_mix)

lemma mult_C1_inj [inj_mix]: "a * C1 = b * C1 \<longleftrightarrow> a = b"
  by (rule odd_mult_inj) (simp add: C1_def)

lemma mult_C2_inj [inj_mix]: "a * C2 = b * C2 \<longleftrightarrow> a = b"
  by (rule odd_mult_inj) (simp add: C2_def)

lemma mult_MUL_inj [inj_mix]: "a * MUL = b * MUL \<longleftrightarrow> a = b"
  by (rule odd_mult_inj) (simp add: MUL_def)

lemma swap_bytes32_inj [inj_mix]: "swap_bytes32 a = swap_bytes32 b \<longleftrightarrow> a = b"
  by (metis swap_bytes32_swap_bytes32)

lemma mult_5_inj [inj_mix]: "a * 5 = b * 5 \<longleftrightarrow> a = b" for a b :: u32
  by (rule odd_mult_inj) simp

lemma mix5_inj [inj_mix]: "mix5 a r = mix5 b r \<longleftrightarrow> a = b"
  by (simp add: mix5_def inj_mix)

lemma mur_inj_h [inj_mix]: "mur a h = mur a h' \<longleftrightarrow> h = h'"
  by (simp add: mur_def Let_def inj_mix)

lemma mur_inj_a [inj_mix]: "mur a h = mur a' h \<longleftrightarrow> a = a'"
  by (simp add: mur_def Let_def inj_mix)

lemma fmix_inj [inj_mix]: "fmix a = fmix b \<longleftrightarrow> a = b"
  by (simp add: fmix_def Let_def inj_mix)

lemma shift_mix_involution: "shift_mix (shift_mix v) = v"
proof (rule bit_word_eqI)
  fix n assume "n < LENGTH(64)"
  then show "bit (shift_mix (shift_mix v)) n = bit v n"
    by (auto simp: shift_mix_def bit_simps dest: bit_imp_le_length)
qed

lemma hash64_len16_inj_u [inj_mix]:
  assumes "odd mul"
  shows "hash64_len16 u v mul = hash64_len16 u' v mul \<longleftrightarrow> u = u'"
  by (simp add: hash64_len16_def Let_def inj_mix assms)

text \<open>
  The finalisers are bijections: \<open>fmix\<close> maps distinct words to distinct words, \<open>mur\<close> is
  injective in the accumulator and in the mixed-in word, and \<open>shift_mix\<close> undoes itself.
\<close>

lemma finalisers_bijective:
  "bij fmix \<and> bij (mur a) \<and> bij (\<lambda>b. mur b h) \<and> shift_mix (shift_mix v) = v"
  by (auto intro!: word_inj_bij simp: inj_mix shift_mix_involution)

text \<open>
  One round of the chunk loop is a permutation of the state for fixed data, so two different
  states never merge.
\<close>

lemma hash32_body_inj:
  assumes "hash32_body data seek st = Some r" and "hash32_body data seek st' = Some r"
  shows "st = st'"
proof -
  obtain h g f h' g' f' where st: "st = (h, g, f)" "st' = (h', g', f')"
    by (metis prod_cases3)
  show ?thesis
    using assms unfolding st hash32_body_def
    by (auto simp: Let_def bind_eq_Some_conv inj_mix)
qed

lemma hash32_loop_inj:
  assumes "hash32_loop data seek iters st = Some r"
    and "hash32_loop data seek iters st' = Some r"
  shows "st = st'"
  using assms
proof (induction iters arbitrary: seek st st')
  case 0
  then show ?case by simp
next
  case (Suc n)
  then obtain s1 s2
    where "hash32_body data seek st = Some s1" and "hash32_body data seek st' = Some s2"
      and "s1 = s2"
    by (auto simp: bind_eq_Some_conv split: if_splits)
  then show ?case using hash32_body_inj by blast
qed

lemma hash32_finish_h_inj [inj_mix]:
  "hash32_finish (h, g, f) = hash32_finish (h', g, f) \<longleftrightarrow> h = h'"
  by (simp add: hash32_finish_def Let_def inj_mix)

text \<open>
  On a fixed input, the 20-byte chunk loop of \<open>hash32\<close> maps distinct starting
  states \<open>(h, g, f)\<close> to distinct results; no round forgets part of the state.
\<close>

lemma hash32_loop_lossless:
  assumes "hash32_loop data seek iters st = Some r"
    and "hash32_loop data seek iters st' = Some r"
  shows "st = st'"
  using assms by (rule hash32_loop_inj)

text \<open>
  Seeding adds no collisions: two inputs collide under \<open>hash64_with_seeds\<close> with the
  same seeds exactly when they already collide under \<open>hash64\<close>, and one input gets different
  hashes from different first seeds.
\<close>

lemma seeding_injective:
  "(hash64_with_seeds d s0 s1 = hash64_with_seeds d' s0 s1 \<longleftrightarrow> hash64 d = hash64 d') \<and>
   (hash64_with_seeds d s0 s1 = hash64_with_seeds d s0' s1 \<longleftrightarrow> s0 = s0')"
proof -
  obtain h where h: "hash64 d = Some h" using hash64_safe [of d] by auto
  obtain h' where h': "hash64 d' = Some h'" using hash64_safe [of d'] by auto
  have "odd MUL" by (simp add: MUL_def)
  then show ?thesis
    by (auto simp: hash64_with_seeds_def h h' hash64_len16_inj_u)
qed

end
