(* ===== verification/Low_Level.thy ===== *)
theory Low_Level
  imports City_Props
begin

section \<open>Low-level hashing, portable path (mekong9-hash/src/internal/low\_level.rs)\<close>

text \<open>
  The functions that fold a byte slice into a 64-bit state, on a target without the x86-64
  intrinsics, and the 32-bit variants. A \<open>debug_assert!\<close> that fails, a slice index out of
  range and a load past the end of the data are \<^const>\<open>None\<close>. Prefetching
  (\<open>prefetch.rs\<close>) has no effect on any value; only its slice index is modelled.
\<close>

subsection \<open>Constants\<close>

definition K_MUL :: u64 where "K_MUL = 0x79d5f9e0de1e8cf5"
definition CACHELINE_SIZE :: nat where "CACHELINE_SIZE = 64"
definition PIECEWISE_CHUNK_SIZE :: nat where "PIECEWISE_CHUNK_SIZE = 1024"

definition K_STATIC_RANDOM_DATA :: "u64 list" where
  "K_STATIC_RANDOM_DATA =
    [0x243f6a8885a308d3, 0x13198a2e03707344, 0xa4093822299f31d0,
     0x082efa98ec4e6c89, 0x452821e638d01377]"

definition debug_assert :: "bool \<Rightarrow> unit option" where
  "debug_assert b = (if b then Some () else None)"

lemma debug_assert_safe [safe_intros]: "b \<Longrightarrow> debug_assert b \<noteq> None"
  by (simp add: debug_assert_def)

lemma debug_assert_True [load_simps]: "b \<Longrightarrow> debug_assert b = Some ()"
  by (simp add: debug_assert_def)

text \<open>\<open>K_STATIC_RANDOM_DATA.0.as_ptr() as *const u8\<close>: the table as the bytes in memory.\<close>

definition static_random_bytes :: bytes where
  "static_random_bytes = concat (map (le_bytes 8) K_STATIC_RANDOM_DATA)"

lemma length_static_random_bytes [simp]: "length static_random_bytes = 40"
  by (simp add: static_random_bytes_def K_STATIC_RANDOM_DATA_def)

abbreviation salt :: "nat \<Rightarrow> u64" where
  "salt i \<equiv> K_STATIC_RANDOM_DATA ! i"

subsection \<open>The folded multiply and the small reads\<close>

definition mix :: "u64 \<Rightarrow> u64 \<Rightarrow> u64" where
  "mix lhs rhs =
    (let m = (ucast lhs :: u128);
         m = m * ucast rhs
     in (ucast (m AND 0xFFFFFFFFFFFFFFFF) :: u64) XOR ucast (drop_bit 64 m))"

definition combine_raw :: "u64 \<Rightarrow> u64 \<Rightarrow> u64" where
  "combine_raw state value = mix (state XOR value) K_MUL"

definition prefetch_future_data_to_local_cache :: "bytes \<Rightarrow> unit option" where
  "prefetch_future_data_to_local_cache ptr =
    (let dist = 5 * CACHELINE_SIZE in
     if length ptr < dist then Some ()
     else do { _ \<leftarrow> slice_from ptr (5 * CACHELINE_SIZE); Some () })"

definition read8 :: "bytes \<Rightarrow> u64 option" where
  "read8 p = unaligned_load64 p"

definition read8_at :: "bytes \<Rightarrow> nat \<Rightarrow> u64 option" where
  "read8_at p i = do { q \<leftarrow> slice_from p i; read8 q }"

definition read8_end :: "bytes \<Rightarrow> nat \<Rightarrow> u64 option" where
  "read8_end p k = do { q \<leftarrow> slice_last p k; read8 q }"

definition read9to16 :: "bytes \<Rightarrow> (u64 \<times> u64) option" where
  "read9to16 p = do { a \<leftarrow> read8 p; b \<leftarrow> read8_end p 8; Some (a, b) }"

definition read4to8 :: "bytes \<Rightarrow> u64 option" where
  "read4to8 p = do {
     hi \<leftarrow> unaligned_load32 p;
     let most_significant = push_bit 32 (ucast hi :: u64);
     q \<leftarrow> slice_last p 4;
     lo \<leftarrow> unaligned_load32 q;
     let least_significant = (ucast lo :: u64);
     Some (most_significant OR least_significant)
   }"

definition read1to3 :: "bytes \<Rightarrow> u32 option" where
  "read1to3 p = do {
     a \<leftarrow> index p 0;
     i \<leftarrow> usub (length p) 1;
     c \<leftarrow> index p i;
     let mem0 = push_bit 16 (ucast a :: u32) OR ucast c;
     b \<leftarrow> index p (length p div 2);
     let mem1 = push_bit 8 (ucast b :: u32);
     Some (mem0 OR mem1)
   }"

definition precombine_length_mix :: "u64 \<Rightarrow> nat \<Rightarrow> u64 option" where
  "precombine_length_mix state len = do {
     debug_assert (len + 8 \<le> length static_random_bytes);
     p \<leftarrow> slice_from static_random_bytes len;
     data \<leftarrow> unaligned_load64 p;
     Some (state XOR data)
   }"

lemma prefetch_safe [safe_intros]: "prefetch_future_data_to_local_cache p \<noteq> None"
  by (simp add: prefetch_future_data_to_local_cache_def Let_def load_simps)

lemma read8_safe [safe_intros]: "8 \<le> length p \<Longrightarrow> read8 p \<noteq> None"
  by (simp add: read8_def load_simps)

lemma read8_at_safe [safe_intros]: "i + 8 \<le> length p \<Longrightarrow> read8_at p i \<noteq> None"
  by (simp add: read8_at_def read8_def load_simps)

lemma read8_end_safe [safe_intros]: "8 \<le> k \<Longrightarrow> k \<le> length p \<Longrightarrow> read8_end p k \<noteq> None"
  by (simp add: read8_end_def read8_def load_simps)

lemma read9to16_safe [safe_intros]: "8 \<le> length p \<Longrightarrow> read9to16 p \<noteq> None"
  unfolding read9to16_def by (intro safe_intros) auto

lemma read4to8_safe [safe_intros]: "4 \<le> length p \<Longrightarrow> read4to8 p \<noteq> None"
  by (simp add: read4to8_def load_simps)

lemma read1to3_safe [safe_intros]: "p \<noteq> [] \<Longrightarrow> read1to3 p \<noteq> None"
  by (cases p) (simp_all add: read1to3_def load_simps)

lemma precombine_length_mix_safe [safe_intros]:
  "len \<le> 32 \<Longrightarrow> precombine_length_mix state len \<noteq> None"
  by (simp add: precombine_length_mix_def load_simps)

subsection \<open>Up to 32 bytes\<close>

definition combine_small_contiguous :: "u64 \<Rightarrow> bytes \<Rightarrow> u64 option" where
  "combine_small_contiguous state first =
    (let len = length first in do {
       debug_assert (len \<le> 8);
       v \<leftarrow> (if len \<ge> 4 then read4to8 first
             else if len > 0 then do { x \<leftarrow> read1to3 first; Some (ucast x) }
             else Some 0x57);
       Some (combine_raw state v)
     })"

definition combine_contiguous_9to16 :: "u64 \<Rightarrow> bytes \<Rightarrow> u64 option" where
  "combine_contiguous_9to16 state first =
    (let len = length first in do {
       debug_assert (len \<ge> 9);
       debug_assert (len \<le> 16);
       (first, second) \<leftarrow> read9to16 first;
       Some (mix (state XOR first) (K_MUL XOR second))
     })"

definition combine_contiguous_17to32 :: "u64 \<Rightarrow> bytes \<Rightarrow> u64 option" where
  "combine_contiguous_17to32 state first =
    (let len = length first in do {
       debug_assert (len \<ge> 17);
       debug_assert (len \<le> 32);
       a \<leftarrow> read8 first;
       b \<leftarrow> read8_at first 8;
       let m0 = mix (a XOR salt 1) (b XOR state);
       tail_16b \<leftarrow> slice_last first 16;
       a \<leftarrow> read8 tail_16b;
       b \<leftarrow> read8_at tail_16b 8;
       let m1 = mix (a XOR salt 3) (b XOR state);
       Some (m0 XOR m1)
     })"

lemma combine_small_contiguous_safe [safe_intros]:
  "length first \<le> 8 \<Longrightarrow> combine_small_contiguous state first \<noteq> None"
  unfolding combine_small_contiguous_def by (intro safe_intros) auto

lemma combine_contiguous_9to16_safe [safe_intros]:
  "9 \<le> length first \<Longrightarrow> length first \<le> 16 \<Longrightarrow> combine_contiguous_9to16 state first \<noteq> None"
  unfolding combine_contiguous_9to16_def by (intro safe_intros) auto

lemma combine_contiguous_17to32_safe [safe_intros]:
  assumes "17 \<le> length first" and "length first \<le> 32"
  shows "combine_contiguous_17to32 state first \<noteq> None"
proof -
  have tail: "slice_last first 16 = Some (drop (length first - 16) first)"
    using assms by (simp add: load_simps)
  show ?thesis
    unfolding combine_contiguous_17to32_def tail using assms by (intro safe_intros) auto
qed

subsection \<open>More than 32 bytes, portable version\<close>

definition mix_32_bytes :: "bytes \<Rightarrow> u64 \<Rightarrow> u64 option" where
  "mix_32_bytes ptr current_state = do {
     a \<leftarrow> unaligned_load64 ptr;
     b \<leftarrow> read8_at ptr 8;
     c \<leftarrow> read8_at ptr 16;
     d \<leftarrow> read8_at ptr 24;
     let cs_0 = mix (a XOR salt 1) (b XOR current_state);
     let cs_1 = mix (c XOR salt 2) (d XOR current_state);
     Some (cs_0 XOR cs_1)
   }"

definition low_level_hash33to64 :: "u64 \<Rightarrow> bytes \<Rightarrow> u64 option" where
  "low_level_hash33to64 seed ptr =
    (let len = length ptr in do {
       debug_assert (len > 32);
       debug_assert (len \<le> 64);
       let current_state = seed XOR salt 0 XOR of_nat len;
       last_32_ptr \<leftarrow> slice_last ptr 32;
       m \<leftarrow> mix_32_bytes ptr current_state;
       mix_32_bytes last_32_ptr m
     })"

type_synonym lanes = "u64 \<times> u64 \<times> u64 \<times> u64"

text \<open>One iteration of the 64-byte loop on the four lanes.\<close>

definition gt64_body :: "bytes \<Rightarrow> lanes \<Rightarrow> lanes option" where
  "gt64_body ptr st = (case st of (current_state, dup0, dup1, dup2) \<Rightarrow> do {
     prefetch_future_data_to_local_cache ptr;
     a \<leftarrow> unaligned_load64 ptr;
     b \<leftarrow> read8_at ptr 8;
     c \<leftarrow> read8_at ptr 16;
     d \<leftarrow> read8_at ptr 24;
     e \<leftarrow> read8_at ptr 32;
     f \<leftarrow> read8_at ptr 40;
     g \<leftarrow> read8_at ptr 48;
     h \<leftarrow> read8_at ptr 56;
     let current_state = mix (a XOR salt 1) (b XOR current_state);
     let dup0 = mix (c XOR salt 2) (d XOR dup0);
     let dup1 = mix (e XOR salt 3) (f XOR dup1);
     let dup2 = mix (g XOR salt 4) (h XOR dup2);
     Some (current_state, dup0, dup1, dup2)
   })"

text \<open>The loop hands back the rest of the slice, its length and the lanes.\<close>

function gt64_loop :: "bytes \<Rightarrow> nat \<Rightarrow> lanes \<Rightarrow> (bytes \<times> nat \<times> lanes) option" where
  "gt64_loop ptr len st = do {
     st \<leftarrow> gt64_body ptr st;
     ptr \<leftarrow> slice_from ptr 64;
     if 64 \<le> len
     then (if len - 64 \<le> 64 then Some (ptr, len - 64, st) else gt64_loop ptr (len - 64) st)
     else None
   }"
  by pat_completeness auto
termination
  by (relation "measure (\<lambda>(ptr, len, st). len)") auto

declare gt64_loop.simps [simp del]

definition low_level_hash_len_gt64 :: "u64 \<Rightarrow> bytes \<Rightarrow> u64 option" where
  "low_level_hash_len_gt64 seed data =
    (let len = length data in do {
       debug_assert (len > 64);
       last_32 \<leftarrow> slice_last data 32;
       let current_state = seed XOR salt 0 XOR of_nat len;
       (ptr, len, current_state, dup0, dup1, dup2) \<leftarrow>
         gt64_loop data len (current_state, current_state, current_state, current_state);
       let current_state = (current_state XOR dup0) XOR (dup1 + dup2);
       current_state \<leftarrow>
         (if len > 32 then mix_32_bytes ptr current_state else Some current_state);
       mix_32_bytes last_32 current_state
     })"

definition low_level_hash_len_gt32 :: "u64 \<Rightarrow> bytes \<Rightarrow> u64 option" where
  "low_level_hash_len_gt32 seed data =
    (let len = length data in do {
       debug_assert (len > 32);
       if len > 64 then low_level_hash_len_gt64 seed data
       else low_level_hash33to64 seed data
     })"

definition hash_block_on64bit :: "u64 \<Rightarrow> bytes \<Rightarrow> u64 option" where
  "hash_block_on64bit state data = low_level_hash_len_gt32 state data"

text \<open>
  \<open>combine_contiguous_on64bit\<close>, \<open>combine_large_contiguous_on64bit_length_gt32\<close> and
  \<open>split_and_combine_on64bit\<close> call each other in a circle. The \<open>while\<close> loop of the third one
  is its own recursion on the rest of the slice: the loop's \<open>len\<close> starts as \<open>first.len()\<close>
  and shrinks together with \<open>ptr\<close>, so it is the length of \<open>ptr\<close> throughout. The rank below
  orders the calls; the slice is shorter by a chunk each time round the circle.
\<close>

definition call_rank :: "nat \<Rightarrow> nat \<Rightarrow> nat" where
  "call_rank k n = (if n \<le> PIECEWISE_CHUNK_SIZE \<and> k \<noteq> 0 then k - 2 else 4 * n + k)"

function (sequential) combine_contiguous_on64bit :: "u64 \<Rightarrow> bytes \<Rightarrow> u64 option"
  and combine_large_contiguous_on64bit_length_gt32 :: "u64 \<Rightarrow> bytes \<Rightarrow> u64 option"
  and split_and_combine_on64bit :: "u64 \<Rightarrow> bytes \<Rightarrow> u64 option"
where
  "combine_contiguous_on64bit state first =
    (let len = length first in
     if len \<le> 8 then do {
       s \<leftarrow> precombine_length_mix state len; combine_small_contiguous s first }
     else if len \<le> 16 then do {
       s \<leftarrow> precombine_length_mix state len; combine_contiguous_9to16 s first }
     else if len \<le> 32 then do {
       s \<leftarrow> precombine_length_mix state len; combine_contiguous_17to32 s first }
     else combine_large_contiguous_on64bit_length_gt32 state first)"
| "combine_large_contiguous_on64bit_length_gt32 state first =
    (let len = length first in
     if len > 32 \<comment> \<open>\<open>debug_assert!(len > 32)\<close>\<close>
     then (if len \<le> PIECEWISE_CHUNK_SIZE then hash_block_on64bit state first
           else split_and_combine_on64bit state first)
     else None)"
| "split_and_combine_on64bit state ptr =
    (let len = length ptr in
     if len \<ge> PIECEWISE_CHUNK_SIZE then do {
       state \<leftarrow> hash_block_on64bit state (take PIECEWISE_CHUNK_SIZE ptr);
       split_and_combine_on64bit state (drop PIECEWISE_CHUNK_SIZE ptr)
     }
     else if len = 0 then Some state
     else combine_contiguous_on64bit state ptr)"
  by pat_completeness auto
termination
  by (relation "measure (\<lambda>x. case x of
        Inl (s, xs) \<Rightarrow> call_rank 3 (length xs)
      | Inr (Inl (s, xs)) \<Rightarrow> call_rank 2 (length xs)
      | Inr (Inr (s, xs)) \<Rightarrow> call_rank 0 (length xs))")
     (auto simp: call_rank_def PIECEWISE_CHUNK_SIZE_def neq_Nil_conv)

declare combine_contiguous_on64bit.simps [simp del]
  combine_large_contiguous_on64bit_length_gt32.simps [simp del]
  split_and_combine_on64bit.simps [simp del]

subsection \<open>The 32-bit target\<close>

text \<open>
  \<open>state + len as u64\<close> is a plain addition: with overflow checks on, as in a debug build, it
  panics when the sum leaves \<^typ>\<open>u64\<close>.
\<close>

definition checked_add_u64 :: "u64 \<Rightarrow> u64 \<Rightarrow> u64 option" where
  "checked_add_u64 a b = (if uint a + uint b < 2 ^ 64 then Some (a + b) else None)"

definition hash_block_on32bit :: "u64 \<Rightarrow> bytes \<Rightarrow> u64 option" where
  "hash_block_on32bit state data = do {
     s \<leftarrow> checked_add_u64 state (of_nat (length data));
     h \<leftarrow> hash32 data;
     Some (combine_raw s (ucast h))
   }"

function (sequential) combine_contiguous_on32bit :: "u64 \<Rightarrow> bytes \<Rightarrow> u64 option"
  and combine_large_contiguous_on32bit_length_gt8 :: "u64 \<Rightarrow> bytes \<Rightarrow> u64 option"
  and split_and_combine_on32bit :: "u64 \<Rightarrow> bytes \<Rightarrow> u64 option"
where
  "combine_contiguous_on32bit state first =
    (let len = length first in
     if len \<le> 8 then do {
       s \<leftarrow> precombine_length_mix state len; combine_small_contiguous s first }
     else combine_large_contiguous_on32bit_length_gt8 state first)"
| "combine_large_contiguous_on32bit_length_gt8 state first =
    (let len = length first in
     if len > 8 \<comment> \<open>\<open>debug_assert!(len > 8)\<close>\<close>
     then (if len \<le> PIECEWISE_CHUNK_SIZE then hash_block_on32bit state first
           else split_and_combine_on32bit state first)
     else None)"
| "split_and_combine_on32bit state ptr =
    (let len = length ptr in
     if len \<ge> PIECEWISE_CHUNK_SIZE then do {
       state \<leftarrow> hash_block_on32bit state (take PIECEWISE_CHUNK_SIZE ptr);
       split_and_combine_on32bit state (drop PIECEWISE_CHUNK_SIZE ptr)
     }
     else if len = 0 then Some state
     else combine_contiguous_on32bit state ptr)"
  by pat_completeness auto
termination
  by (relation "measure (\<lambda>x. case x of
        Inl (s, xs) \<Rightarrow> call_rank 3 (length xs)
      | Inr (Inl (s, xs)) \<Rightarrow> call_rank 2 (length xs)
      | Inr (Inr (s, xs)) \<Rightarrow> call_rank 0 (length xs))")
     (auto simp: call_rank_def PIECEWISE_CHUNK_SIZE_def neq_Nil_conv)

declare combine_contiguous_on32bit.simps [simp del]
  combine_large_contiguous_on32bit_length_gt8.simps [simp del]
  split_and_combine_on32bit.simps [simp del]

end
