(* ===== verification/Piecewise.thy ===== *)
theory Piecewise
  imports Low_Level
begin

section \<open>Hashing in pieces\<close>

text \<open>
  A comment of \<open>low_level.rs\<close> demands that hashing two chunks of \<open>PIECEWISE_CHUNK_SIZE\<close> bytes
  in two calls gives the state that one call on both gives. The locale states what a combiner
  must do for that (one full chunk is one block; a longer input hashes its first block and
  continues with the rest) and proves the law for any number of chunks; the 32-bit and 64-bit
  combiners interpret it. \<open>state_after\<close> is the state after the first \<open>k\<close> chunks.
\<close>

definition state_after :: "(u64 \<Rightarrow> bytes \<Rightarrow> u64 option) \<Rightarrow> u64 \<Rightarrow> bytes \<Rightarrow> nat \<Rightarrow> u64 option" where
  "state_after combine s xs k =
    (if k = 0 then Some s else combine s (take (k * PIECEWISE_CHUNK_SIZE) xs))"

locale piecewise =
  fixes combine :: "u64 \<Rightarrow> bytes \<Rightarrow> u64 option"
    and block :: "u64 \<Rightarrow> bytes \<Rightarrow> u64 option"
  assumes combine_one_chunk:
      "length xs = PIECEWISE_CHUNK_SIZE \<Longrightarrow> combine s xs = block s xs"
    and combine_long:
      "PIECEWISE_CHUNK_SIZE < length xs \<Longrightarrow>
       combine s xs = do {
         s' \<leftarrow> block s (take PIECEWISE_CHUNK_SIZE xs);
         combine s' (drop PIECEWISE_CHUNK_SIZE xs) }"
begin

lemma combine_chunk_append:
  assumes "length xs = PIECEWISE_CHUNK_SIZE" and "ys \<noteq> []"
  shows "combine s (xs @ ys) = do { s' \<leftarrow> combine s xs; combine s' ys }"
  using assms by (simp add: combine_long combine_one_chunk)

lemma combine_append:
  assumes "length xs = n * PIECEWISE_CHUNK_SIZE" and "0 < n" and "ys \<noteq> []"
  shows "combine s (xs @ ys) = do { s' \<leftarrow> combine s xs; combine s' ys }"
  using assms(1,2)
proof (induction n arbitrary: s xs)
  case 0
  then show ?case by simp
next
  case (Suc n)
  let ?C = PIECEWISE_CHUNK_SIZE
  show ?case
  proof (cases "n = 0")
    case True
    with Suc.prems assms(3) show ?thesis by (simp add: combine_chunk_append)
  next
    case False
    with Suc.prems have len: "length (drop ?C xs) = n * ?C" "length (take ?C xs) = ?C"
      by simp_all
    then have ne: "drop ?C xs \<noteq> []"
      using False by (auto simp: PIECEWISE_CHUNK_SIZE_def)
    have "combine s (xs @ ys) = combine s (take ?C xs @ (drop ?C xs @ ys))"
      by (metis append_assoc append_take_drop_id)
    also have "\<dots> = do { s' \<leftarrow> combine s (take ?C xs); combine s' (drop ?C xs @ ys) }"
      using len ne by (intro combine_chunk_append) auto
    also have "\<dots> = do { s' \<leftarrow> combine s (take ?C xs); s'' \<leftarrow> combine s' (drop ?C xs); combine s'' ys }"
      using Suc.IH [OF len(1)] False by simp
    also have "\<dots> = do { s'' \<leftarrow> combine s (take ?C xs @ drop ?C xs); combine s'' ys }"
      using len ne by (subst combine_chunk_append) simp_all
    finally show ?thesis by simp
  qed
qed

lemma state_after_Suc:
  assumes "Suc k * PIECEWISE_CHUNK_SIZE < length xs"
  shows "state_after combine s xs (Suc k) =
    Option.bind (combine s (take PIECEWISE_CHUNK_SIZE xs))
      (\<lambda>s'. state_after combine s' (drop PIECEWISE_CHUNK_SIZE xs) k)"
proof (cases "k = 0")
  case True
  then show ?thesis by (cases "combine s (take PIECEWISE_CHUNK_SIZE xs)") (simp_all add: state_after_def)
next
  case False
  let ?C = PIECEWISE_CHUNK_SIZE
  have "take (Suc k * ?C) xs = take ?C xs @ take (k * ?C) (drop ?C xs)"
    by (simp add: take_add)
  moreover have "length (take ?C xs) = ?C" "take (k * ?C) (drop ?C xs) \<noteq> []"
    using assms False by (auto simp: PIECEWISE_CHUNK_SIZE_def)
  ultimately show ?thesis using False combine_chunk_append by (simp add: state_after_def)
qed

text \<open>A combiner fails exactly when one of its chunks, or the rest after them, fails.\<close>

lemma combine_fails_iff:
  "combine s xs = None \<longleftrightarrow>
    (if xs = [] then combine s [] = None
     else \<exists>k s'. k * PIECEWISE_CHUNK_SIZE < length xs \<and> state_after combine s xs k = Some s' \<and>
       combine s' (take PIECEWISE_CHUNK_SIZE (drop (k * PIECEWISE_CHUNK_SIZE) xs)) = None)"
proof (induction "length xs" arbitrary: xs s rule: less_induct)
  case less
  let ?C = PIECEWISE_CHUNK_SIZE
  let ?P = "\<lambda>s xs k s'. k * ?C < length xs \<and> state_after combine s xs k = Some s' \<and>
    combine s' (take ?C (drop (k * ?C) xs)) = None"
  have C: "0 < ?C" by (simp add: PIECEWISE_CHUNK_SIZE_def)
  show ?case
  proof (cases "length xs \<le> ?C")
    case True
    then have "k * ?C < length xs \<longleftrightarrow> k = 0 \<and> xs \<noteq> []" for k by (cases k) auto
    then show ?thesis using True by (simp add: state_after_def)
  next
    case False
    then have ne: "xs \<noteq> []" "drop ?C xs \<noteq> []" by auto
    have step: "combine s xs = Option.bind (combine s (take ?C xs)) (\<lambda>s'. combine s' (drop ?C xs))"
      using False by (simp add: combine_long combine_one_chunk)
    have IH: "combine s1 (drop ?C xs) = None \<longleftrightarrow> (\<exists>k s'. ?P s1 (drop ?C xs) k s')" for s1
      using less [of "drop ?C xs" s1] False C ne by (simp only: if_False) simp
    have Suc: "?P s xs (Suc k) s' \<longleftrightarrow>
        (\<exists>s1. combine s (take ?C xs) = Some s1 \<and> ?P s1 (drop ?C xs) k s')" for k s'
    proof (cases "Suc k * ?C < length xs")
      case True
      then show ?thesis
        using state_after_Suc [OF True] by (auto simp: add.commute bind_eq_Some_conv less_diff_conv)
    next
      case False
      then show ?thesis by auto
    qed
    have zero: "?P s xs 0 s' \<longleftrightarrow> s' = s \<and> combine s (take ?C xs) = None" for s'
      using ne by (auto simp: state_after_def)
    have "(\<exists>k s'. ?P s xs k s') \<longleftrightarrow> (\<exists>s'. ?P s xs 0 s') \<or> (\<exists>k s'. ?P s xs (Suc k) s')"
      by (metis not0_implies_Suc)
    also have "\<dots> \<longleftrightarrow> combine s xs = None"
      unfolding Suc zero step using IH by (cases "combine s (take ?C xs)") auto
    finally show ?thesis using ne by simp
  qed
qed

end

text \<open>A combiner whose blocks never fail never fails.\<close>

locale total_piecewise = piecewise +
  assumes short_total: "length xs \<le> PIECEWISE_CHUNK_SIZE \<Longrightarrow> combine s xs \<noteq> None"
begin

lemma combine_total: "combine s xs \<noteq> None"
proof (induction xs arbitrary: s rule: length_induct)
  case (1 xs)
  let ?C = PIECEWISE_CHUNK_SIZE
  show ?case
  proof (cases "length xs \<le> ?C")
    case True
    then show ?thesis by (rule short_total)
  next
    case False
    then have "combine s (take ?C xs) \<noteq> None" by (intro short_total) simp
    moreover have "combine s' (drop ?C xs) \<noteq> None" for s'
      using False 1 by (auto simp: PIECEWISE_CHUNK_SIZE_def)
    ultimately show ?thesis
      using False combine_one_chunk [of "take ?C xs" s] combine_long [of xs s]
      by (auto simp: bind_eq_None_conv)
  qed
qed

end

subsection \<open>The 64-bit combiner\<close>

lemma mix_32_bytes_safe [safe_intros]: "32 \<le> length ptr \<Longrightarrow> mix_32_bytes ptr s \<noteq> None"
  unfolding mix_32_bytes_def unaligned_load64_def [symmetric] read8_def [symmetric]
  by (intro safe_intros) auto

lemma unaligned_load64_safe [safe_intros]: "8 \<le> length p \<Longrightarrow> unaligned_load64 p \<noteq> None"
  by (simp add: load_simps)

lemma low_level_hash33to64_safe [safe_intros]:
  assumes "32 < length ptr" and "length ptr \<le> 64"
  shows "low_level_hash33to64 seed ptr \<noteq> None"
proof -
  have "slice_last ptr 32 = Some (drop (length ptr - 32) ptr)"
    using assms by (simp add: load_simps)
  with assms show ?thesis
    unfolding low_level_hash33to64_def by (simp only:) (intro safe_intros; auto)
qed

lemma gt64_body_safe [safe_intros]: "64 \<le> length ptr \<Longrightarrow> gt64_body ptr st \<noteq> None"
  unfolding gt64_body_def by (intro safe_intros) auto

text \<open>
  The 64-byte loop stops with between 1 and 64 bytes left, and those are the end of the data.
\<close>

lemma gt64_loop_result:
  assumes "64 < length ptr"
  shows "\<exists>k st'. gt64_loop ptr (length ptr) st = Some (drop k ptr, length ptr - k, st') \<and>
    k < length ptr \<and> length ptr - k \<le> 64"
  using assms
proof (induction "length ptr" arbitrary: ptr st rule: less_induct)
  case less
  obtain st1 where body: "gt64_body ptr st = Some st1"
    using gt64_body_safe [of ptr st] less.prems by auto
  have slice: "slice_from ptr 64 = Some (drop 64 ptr)"
    using less.prems by (simp add: load_simps)
  show ?case
  proof (cases "length ptr - 64 \<le> 64")
    case True
    with body slice less.prems have
      "gt64_loop ptr (length ptr) st = Some (drop 64 ptr, length ptr - 64, st1)"
      by (subst gt64_loop.simps) simp
    with True less.prems show ?thesis by blast
  next
    case False
    let ?p = "drop 64 ptr"
    have "length ?p < length ptr" and "64 < length ?p" using False less.prems by auto
    then obtain k st2 where
      "gt64_loop ?p (length ?p) st1 = Some (drop k ?p, length ?p - k, st2)"
      "k < length ?p" "length ?p - k \<le> 64"
      using less.hyps [of ?p st1] by blast
    moreover from False body slice less.prems have
      "gt64_loop ptr (length ptr) st = gt64_loop ?p (length ?p) st1"
      by (subst gt64_loop.simps) simp
    ultimately show ?thesis
      by (intro exI [of _ "k + 64"] exI [of _ st2]) (auto simp: add.commute)
  qed
qed

lemma low_level_hash_len_gt64_safe [safe_intros]:
  assumes "64 < length data"
  shows "low_level_hash_len_gt64 seed data \<noteq> None"
proof -
  let ?cs = "seed XOR salt 0 XOR of_nat (length data)"
  obtain k st' where loop:
    "gt64_loop data (length data) (?cs, ?cs, ?cs, ?cs) = Some (drop k data, length data - k, st')"
    "k < length data" "length data - k \<le> 64"
    using gt64_loop_result [OF assms] by blast
  have last: "slice_last data 32 = Some (drop (length data - 32) data)"
    using assms by (simp add: load_simps)
  show ?thesis
    unfolding low_level_hash_len_gt64_def Let_def last loop(1) using assms loop(2,3)
    by (cases st') (simp add: load_simps loop(1) mix_32_bytes_safe bind_eq_None_conv
        del: not_None_eq)
qed

lemma hash_block_on64bit_safe [safe_intros]:
  "32 < length data \<Longrightarrow> hash_block_on64bit s data \<noteq> None"
  unfolding hash_block_on64bit_def low_level_hash_len_gt32_def
  by (intro safe_intros) auto

lemma split_64_eq_combine:
  assumes "xs \<noteq> []"
  shows "split_and_combine_on64bit s xs = combine_contiguous_on64bit s xs"
proof -
  consider "length xs < 1024" | "length xs = 1024" | "1024 < length xs" by linarith
  then show ?thesis
  proof cases
    case 1
    with assms show ?thesis
      by (subst split_and_combine_on64bit.simps) (simp add: PIECEWISE_CHUNK_SIZE_def)
  next
    case 2
    then show ?thesis
      by (simp add: PIECEWISE_CHUNK_SIZE_def split_and_combine_on64bit.simps
          combine_contiguous_on64bit.simps combine_large_contiguous_on64bit_length_gt32.simps)
  next
    case 3
    then show ?thesis
      by (simp add: PIECEWISE_CHUNK_SIZE_def combine_contiguous_on64bit.simps
          combine_large_contiguous_on64bit_length_gt32.simps)
  qed
qed

lemma combine_64_short:
  "length xs \<le> PIECEWISE_CHUNK_SIZE \<Longrightarrow> combine_contiguous_on64bit s xs \<noteq> None"
  unfolding combine_contiguous_on64bit.simps [of s xs]
    combine_large_contiguous_on64bit_length_gt32.simps [of s xs] Let_def
  by (intro safe_intros) auto

lemma combine_64_long:
  assumes "PIECEWISE_CHUNK_SIZE < length xs"
  shows "combine_contiguous_on64bit s xs = do {
    s' \<leftarrow> hash_block_on64bit s (take PIECEWISE_CHUNK_SIZE xs);
    combine_contiguous_on64bit s' (drop PIECEWISE_CHUNK_SIZE xs) }"
proof -
  have "combine_contiguous_on64bit s xs = split_and_combine_on64bit s xs"
    by (rule split_64_eq_combine [symmetric]) (use assms in auto)
  also have "\<dots> = do {
      s' \<leftarrow> hash_block_on64bit s (take PIECEWISE_CHUNK_SIZE xs);
      split_and_combine_on64bit s' (drop PIECEWISE_CHUNK_SIZE xs) }"
    using assms by (subst split_and_combine_on64bit.simps) simp
  also have "\<dots> = do {
      s' \<leftarrow> hash_block_on64bit s (take PIECEWISE_CHUNK_SIZE xs);
      combine_contiguous_on64bit s' (drop PIECEWISE_CHUNK_SIZE xs) }"
    using assms by (simp add: split_64_eq_combine)
  finally show ?thesis .
qed

interpretation on64: total_piecewise combine_contiguous_on64bit hash_block_on64bit
proof unfold_locales
  fix xs :: bytes and s :: u64
  assume "length xs = PIECEWISE_CHUNK_SIZE"
  then show "combine_contiguous_on64bit s xs = hash_block_on64bit s xs"
    by (simp add: PIECEWISE_CHUNK_SIZE_def combine_contiguous_on64bit.simps
        combine_large_contiguous_on64bit_length_gt32.simps)
qed (fact combine_64_long combine_64_short)+

subsection \<open>The 32-bit combiner\<close>

lemma hash_block_on32bit_eq:
  "hash_block_on32bit s data =
    (if uint s + uint (of_nat (length data) :: u64) < 2 ^ 64
     then Some (combine_raw (s + of_nat (length data)) (ucast (the (hash32 data)))) else None)"
  using hash32_safe [of data] by (auto simp: hash_block_on32bit_def checked_add_u64_def)

lemma split_32_eq_combine:
  assumes "xs \<noteq> []"
  shows "split_and_combine_on32bit s xs = combine_contiguous_on32bit s xs"
proof -
  consider "length xs < 1024" | "length xs = 1024" | "1024 < length xs" by linarith
  then show ?thesis
  proof cases
    case 1
    with assms show ?thesis
      by (subst split_and_combine_on32bit.simps) (simp add: PIECEWISE_CHUNK_SIZE_def)
  next
    case 2
    then show ?thesis
      by (simp add: PIECEWISE_CHUNK_SIZE_def split_and_combine_on32bit.simps
          combine_contiguous_on32bit.simps combine_large_contiguous_on32bit_length_gt8.simps)
  next
    case 3
    then show ?thesis
      by (simp add: PIECEWISE_CHUNK_SIZE_def combine_contiguous_on32bit.simps
          combine_large_contiguous_on32bit_length_gt8.simps)
  qed
qed

lemma combine_32_long:
  assumes "PIECEWISE_CHUNK_SIZE < length xs"
  shows "combine_contiguous_on32bit s xs = do {
    s' \<leftarrow> hash_block_on32bit s (take PIECEWISE_CHUNK_SIZE xs);
    combine_contiguous_on32bit s' (drop PIECEWISE_CHUNK_SIZE xs) }"
proof -
  have "combine_contiguous_on32bit s xs = split_and_combine_on32bit s xs"
    by (rule split_32_eq_combine [symmetric]) (use assms in auto)
  also have "\<dots> = do {
      s' \<leftarrow> hash_block_on32bit s (take PIECEWISE_CHUNK_SIZE xs);
      split_and_combine_on32bit s' (drop PIECEWISE_CHUNK_SIZE xs) }"
    using assms by (subst split_and_combine_on32bit.simps) simp
  also have "\<dots> = do {
      s' \<leftarrow> hash_block_on32bit s (take PIECEWISE_CHUNK_SIZE xs);
      combine_contiguous_on32bit s' (drop PIECEWISE_CHUNK_SIZE xs) }"
    using assms by (simp add: split_32_eq_combine)
  finally show ?thesis .
qed

interpretation on32: piecewise combine_contiguous_on32bit hash_block_on32bit
proof unfold_locales
  fix xs :: bytes and s :: u64
  assume "length xs = PIECEWISE_CHUNK_SIZE"
  then show "combine_contiguous_on32bit s xs = hash_block_on32bit s xs"
    by (simp add: PIECEWISE_CHUNK_SIZE_def combine_contiguous_on32bit.simps
        combine_large_contiguous_on32bit_length_gt8.simps)
qed (fact combine_32_long)

subsection \<open>Properties\<close>

text \<open>
  C33: hashing a whole number of chunks and then a non-empty rest in two calls of the
  64-bit combiner gives the state that one call on the concatenation gives, as the
  comment in \<open>combine_contiguous_on64bit\<close> requires.
\<close>

theorem combine_64_piecewise:
  assumes "length xs = n * PIECEWISE_CHUNK_SIZE" and "0 < n" and "ys \<noteq> []"
  shows "combine_contiguous_on64bit s (xs @ ys) =
    do { s' \<leftarrow> combine_contiguous_on64bit s xs; combine_contiguous_on64bit s' ys }"
  using assms by (rule on64.combine_append)

theorem combine_64_piecewise_witness:
  "combine_contiguous_on64bit 5 (replicate 2048 1 @ replicate 2048 2) =
    do { s' \<leftarrow> combine_contiguous_on64bit 5 (replicate 2048 1);
         combine_contiguous_on64bit s' (replicate 2048 2) }"
  by (rule combine_64_piecewise [of _ 2])
     (simp_all add: PIECEWISE_CHUNK_SIZE_def del: replicate.simps)

text \<open>
  The 64-bit combiner returns a state for every slice and every starting state: no
  assertion fails, no index panics, every load is in bounds and the recursion ends.
\<close>

lemma combine_64_total: "\<exists>s'. combine_contiguous_on64bit s xs = Some s'"
  using on64.combine_total [of s xs] by auto

lemma combine_32_short:
  "length xs \<le> 8 \<Longrightarrow> combine_contiguous_on32bit s xs \<noteq> None"
  unfolding combine_contiguous_on32bit.simps [of s xs] Let_def
  by (simp only: if_True) (intro safe_intros; auto)

lemma combine_32_piece:
  assumes "length xs \<le> PIECEWISE_CHUNK_SIZE"
  shows "combine_contiguous_on32bit s xs = None \<longleftrightarrow> 8 < length xs \<and> 2 ^ 64 \<le> uint s + int (length xs)"
proof (cases "length xs \<le> 8")
  case True
  then show ?thesis using combine_32_short [OF True] by simp
next
  case False
  have "uint (of_nat (length xs) :: u64) = int (length xs)"
    using assms by (simp add: uint_nat unat_of_nat PIECEWISE_CHUNK_SIZE_def)
  moreover have "combine_contiguous_on32bit s xs = hash_block_on32bit s xs"
    using False assms by (simp add: combine_contiguous_on32bit.simps
        combine_large_contiguous_on32bit_length_gt8.simps)
  ultimately show ?thesis using False by (simp add: hash_block_on32bit_eq not_less)
qed

text \<open>
  C36: when the 32-bit combiner panics, with overflow checks on, for an input of any length: exactly
  when for some chunk of more than 8 bytes, a full one or the rest at the end, the plain addition
  of its length to the state that the chunks before it have left is out of the range of \<open>u64\<close>. So
  inputs of at most 8 bytes never panic.
\<close>

theorem combine_32_overflow:
  "combine_contiguous_on32bit s xs = None \<longleftrightarrow>
    (\<exists>k s' n. state_after combine_contiguous_on32bit s xs k = Some s' \<and>
      n = min PIECEWISE_CHUNK_SIZE (length xs - k * PIECEWISE_CHUNK_SIZE) \<and>
      8 < n \<and> 2 ^ 64 \<le> uint s' + int n)"
proof (cases "xs = []")
  case True
  then show ?thesis using combine_32_short [of xs s] by simp
next
  case False
  show ?thesis
    unfolding on32.combine_fails_iff [of s xs] using False
    by (auto simp: combine_32_piece min.commute)
       (rule exI, rule conjI [rotated], rule exI, intro conjI, assumption+, simp)
qed

end
