(* ===== verification/Hasher.thy ===== *)
theory Hasher
  imports Piecewise
begin

section \<open>MixingHasher (mekong9-hash/src/hash.rs)\<close>

text \<open>
  The \<open>Hasher\<close> implementation on a 64-bit target without the x86-64 intrinsics. The integer
  writers read the value back from its own bytes in memory, which \<^const>\<open>unaligned_load16\<close>
  and its kin model; signed integers are the words of their two's complement bits.
\<close>

subsection \<open>When the folded multiply is zero\<close>

lemma uint_mult_bound: "0 \<le> uint (a :: u64) * uint (b :: u64) \<and> uint a * uint b < 2 ^ 64 * 2 ^ 64"
  using uint_lt2p [of a] uint_lt2p [of b] mult_strict_mono' [of "uint a" "2 ^ 64" "uint b" "2 ^ 64"]
  by simp

lemma uint_mix:
  "mix a b = word_of_int (uint a * uint b mod 2 ^ 64) XOR word_of_int (uint a * uint b div 2 ^ 64)"
proof -
  let ?m = "(ucast a :: u128) * ucast b"
  have "uint a mod 2 ^ 128 = uint a" and "uint b mod 2 ^ 128 = uint b"
    using uint_lt2p [of a] uint_lt2p [of b] by simp_all
  then have m: "uint ?m = uint a * uint b"
    using uint_mult_bound [of a b]
    by (simp add: uint_word_ariths unsigned_ucast_eq take_bit_eq_mod)
  have low: "(ucast (M AND mask 64) :: u64) = word_of_int (take_bit 64 (uint M))" for M :: u128
    by (rule bit_word_eqI) (simp add: bit_simps)
  have high: "(ucast (drop_bit 64 M) :: u64) = word_of_int (drop_bit 64 (uint M))" for M :: u128
    by (rule bit_word_eqI) (simp add: bit_simps)
  have mask: "(0xFFFFFFFFFFFFFFFF :: u128) = mask 64" by (simp add: mask_eq_exp_minus_1)
  show ?thesis
    unfolding mix_def Let_def mask low high m by (simp only: take_bit_eq_mod drop_bit_eq_div)
qed

lemma mix_K_MUL_eq_0_iff: "mix a K_MUL = 0 \<longleftrightarrow> a = 0"
proof
  assume "mix a K_MUL = 0"
  define p where "p = uint a * uint K_MUL"
  have bound: "0 \<le> p" "p < 2 ^ 64 * 2 ^ 64"
    using uint_mult_bound [of a K_MUL] unfolding p_def by simp_all
  have hi: "0 \<le> p div 2 ^ 64" "p div 2 ^ 64 < 2 ^ 64"
    using bound by (auto simp: div_less_iff_less_mult pos_imp_zdiv_nonneg_iff)
  from \<open>mix a K_MUL = 0\<close> have "(word_of_int (p mod 2 ^ 64) :: u64) = word_of_int (p div 2 ^ 64)"
    unfolding uint_mix p_def [symmetric] by (metis xor_inj_left xor_self_eq)
  then have "uint (word_of_int (p mod 2 ^ 64) :: u64) = uint (word_of_int (p div 2 ^ 64) :: u64)"
    by simp
  then have eq: "p mod 2 ^ 64 = p div 2 ^ 64"
    using hi by (simp add: uint_word_of_int)
  define h where "h = p div 2 ^ 64"
  have "p = h * 2 ^ 64 + h" using eq unfolding h_def by (metis div_mult_mod_eq)
  then have "p = (2 ^ 64 + 1) * h" by simp
  then have "2 ^ 64 + 1 dvd uint a * uint K_MUL" unfolding p_def by (rule dvdI)
  moreover have "coprime (2 ^ 64 + 1 :: int) (uint K_MUL)"
    by (simp add: K_MUL_def coprime_iff_gcd_eq_1) code_simp
  ultimately have "2 ^ 64 + 1 dvd uint a" by (simp add: coprime_dvd_mult_left_iff)
  then have "uint a = 0"
    using zdvd_imp_le [of "2 ^ 64 + 1" "uint a"] uint_lt2p [of a] uint_ge_0 [of a] by fastforce
  then show "a = 0" by (simp only: uint_0_iff)
qed (simp add: uint_mix)

lemma combine_raw_eq_0_iff: "combine_raw s v = 0 \<longleftrightarrow> s = v"
  unfolding combine_raw_def mix_K_MUL_eq_0_iff by (metis xor_inj_left xor_self_eq)

subsection \<open>The hasher\<close>

record mixing_hasher =
  hstate :: u64

definition K_SEED :: u8 where "K_SEED = 0"

definition with_state :: "u64 \<Rightarrow> mixing_hasher" where
  "with_state s = \<lparr>hstate = s\<rparr>"

definition hasher_default :: mixing_hasher where
  "hasher_default = with_state (ucast K_SEED)"

definition finish :: "mixing_hasher \<Rightarrow> u64" where
  "finish h = hstate h"

definition write_bytes :: "mixing_hasher \<Rightarrow> bytes \<Rightarrow> mixing_hasher option" where
  "write_bytes h bs = do {
     s \<leftarrow> combine_contiguous_on64bit (hstate h) bs;
     Some (h\<lparr>hstate := s\<rparr>)
   }"

definition write_bytes_on32bit :: "mixing_hasher \<Rightarrow> bytes \<Rightarrow> mixing_hasher option" where
  "write_bytes_on32bit h bs = do {
     s \<leftarrow> combine_contiguous_on32bit (hstate h) bs;
     Some (h\<lparr>hstate := s\<rparr>)
   }"

definition write_u8 :: "mixing_hasher \<Rightarrow> u8 \<Rightarrow> mixing_hasher option" where
  "write_u8 h i =
    (if i = 1 then Some (h\<lparr>hstate := combine_raw (hstate h) (- 1)\<rparr>) \<comment> \<open>\<open>usize::MAX as u64\<close>\<close>
     else Some (h\<lparr>hstate := combine_raw (hstate h) (ucast i)\<rparr>))"

definition write_u16 :: "mixing_hasher \<Rightarrow> u16 \<Rightarrow> mixing_hasher option" where
  "write_u16 h i = do {
     v \<leftarrow> unaligned_load16 (le_bytes 2 i);
     Some (h\<lparr>hstate := combine_raw (hstate h) (ucast v)\<rparr>)
   }"

definition write_u32 :: "mixing_hasher \<Rightarrow> u32 \<Rightarrow> mixing_hasher option" where
  "write_u32 h i = do {
     v \<leftarrow> unaligned_load32 (le_bytes 4 i);
     Some (h\<lparr>hstate := combine_raw (hstate h) (ucast v)\<rparr>)
   }"

definition write_u64 :: "mixing_hasher \<Rightarrow> u64 \<Rightarrow> mixing_hasher option" where
  "write_u64 h i = do {
     v \<leftarrow> unaligned_load64 (le_bytes 8 i);
     Some (h\<lparr>hstate := combine_raw (hstate h) v\<rparr>)
   }"

definition write_u128 :: "mixing_hasher \<Rightarrow> u128 \<Rightarrow> mixing_hasher option" where
  "write_u128 h i = do {
     h \<leftarrow> write_u64 h (ucast i);
     write_u64 h (ucast (drop_bit 64 i))
   }"

definition write_usize :: "mixing_hasher \<Rightarrow> u64 \<Rightarrow> mixing_hasher option" where
  "write_usize h i = write_u64 h (hstate h + 0x57 + i)"

definition write_i8 :: "mixing_hasher \<Rightarrow> u8 \<Rightarrow> mixing_hasher option" where
  "write_i8 h i = Some (h\<lparr>hstate := combine_raw (hstate h) (scast i)\<rparr>)"

definition write_i16 :: "mixing_hasher \<Rightarrow> u16 \<Rightarrow> mixing_hasher option" where
  "write_i16 h i = do {
     v \<leftarrow> unaligned_load16 (le_bytes 2 i);
     Some (h\<lparr>hstate := combine_raw (hstate h) (ucast v)\<rparr>)
   }"

definition write_i32 :: "mixing_hasher \<Rightarrow> u32 \<Rightarrow> mixing_hasher option" where
  "write_i32 h i = do {
     v \<leftarrow> unaligned_load32 (le_bytes 4 i);
     Some (h\<lparr>hstate := combine_raw (hstate h) (ucast v)\<rparr>)
   }"

definition write_i64 :: "mixing_hasher \<Rightarrow> u64 \<Rightarrow> mixing_hasher option" where
  "write_i64 h i = do {
     v \<leftarrow> unaligned_load64 (le_bytes 8 i);
     Some (h\<lparr>hstate := combine_raw (hstate h) v\<rparr>)
   }"

text \<open>\<open>(i >> 64)\<close> on an \<open>i128\<close> is arithmetic; the cast keeps its low 64 bits.\<close>

definition write_i128 :: "mixing_hasher \<Rightarrow> u128 \<Rightarrow> mixing_hasher option" where
  "write_i128 h i = do {
     h \<leftarrow> write_u64 h (ucast i);
     write_u64 h (ucast (signed_drop_bit 64 i))
   }"

text \<open>\<open>size_of::<isize>() == 4\<close> is false on the 64-bit target.\<close>

definition write_isize :: "mixing_hasher \<Rightarrow> u64 \<Rightarrow> mixing_hasher option" where
  "write_isize h i = write_i64 h i"

lemmas write_defs = write_u8_def write_u16_def write_u32_def write_u64_def write_u128_def
  write_usize_def write_i8_def write_i16_def write_i32_def write_i64_def write_i128_def
  write_isize_def load16_le_bytes load32_le_bytes load64_le_bytes

subsection \<open>Properties\<close>

lemma ucast_signed_drop_bit_64: "(ucast (signed_drop_bit 64 i) :: u64) = ucast (drop_bit 64 i)"
  for i :: u128
  by (rule bit_word_eqI) (auto simp: bit_simps)

lemma ucast_16_32_64: "(ucast (ucast a :: u32) :: u64) = ucast a" for a :: u16
  by (rule bit_word_eqI) (auto simp: bit_simps dest: bit_imp_le_length)

text \<open>
  The unsigned and the signed writers of one width feed the same bits, for every value and
  every state: \<open>u16\<close>/\<open>i16\<close>, \<open>u32\<close>/\<open>i32\<close>, \<open>u64\<close>/\<open>i64\<close>/\<open>isize\<close> and \<open>u128\<close>/\<open>i128\<close> give the
  same hasher, and no integer writer fails.
\<close>

lemma signed_writers_agree:
  "write_i16 h a = write_u16 h a \<and> write_i32 h b = write_u32 h b \<and>
   write_i64 h c = write_u64 h c \<and> write_isize h c = write_u64 h c \<and>
   write_i128 h d = write_u128 h d \<and>
   write_u16 h a \<noteq> None \<and> write_u32 h b \<noteq> None \<and> write_u64 h c \<noteq> None \<and> write_u128 h d \<noteq> None"
  by (simp add: write_defs ucast_signed_drop_bit_64)

text \<open>
  A value that fits a narrower unsigned type hashes the same through the wider writers
  (what the test \<open>test_hash_consistent_across_int_types\<close> samples at 1).
\<close>

lemma writers_agree_across_widths:
  "write_u32 h (ucast (a :: u16)) = write_u16 h a \<and>
   write_u64 h (ucast (b :: u32)) = write_u32 h b \<and>
   write_u64 h (ucast (a :: u16)) = write_u16 h a"
  by (simp add: write_defs ucast_16_32_64)

text \<open>
  Negative values do not agree: \<open>write_i8\<close> extends the sign, the wider writers fill with zeros. And
  \<open>true\<close>, which is written as the byte 1, hashes like the \<open>i8\<close> value -1 and unlike any other 1.
\<close>

lemma narrow_writers_disagree:
  "write_i8 h (- 1) = write_u8 h 1 \<and> write_i8 h (- 1) = write_u64 h (- 1) \<and>
   write_i16 h (- 1) = write_u64 h 0xFFFF \<and> write_i32 h (- 1) = write_u64 h 0xFFFFFFFF"
proof -
  have "(ucast (- 1 :: u16) :: u64) = 0xFFFF" "(ucast (- 1 :: u32) :: u64) = 0xFFFFFFFF" by code_simp+
  then show ?thesis by (simp add: write_defs)
qed

lemma narrow_hashes_differ:
  "write_i8 hasher_default (- 1) \<noteq> write_i16 hasher_default (- 1) \<and>
   write_u8 hasher_default 1 \<noteq> write_u16 hasher_default 1"
  by code_simp

text \<open>Whatever the state was, the top bit of a sum with \<open>2 ^ 63\<close> is the only one to change.\<close>

lemma add_only_top:
  fixes s T :: u64
  assumes top: "\<And>n. bit T n \<longleftrightarrow> n = 63" and "T + T = 0"
  shows "s + T = s XOR T"
proof -
  have low: "r + T = r XOR T" if "\<not> bit r 63" for r
  proof -
    have "r + T = r OR T" using that top by (intro disjunctive_add) auto
    also have "\<dots> = r XOR T" by (rule bit_word_eqI) (use that top in \<open>auto simp: bit_or_iff bit_xor_iff\<close>)
    finally show ?thesis .
  qed
  show ?thesis
  proof (cases "bit s 63")
    case True
    have "\<not> bit (s XOR T) 63" using True top by (simp add: bit_xor_iff)
    from low [OF this] have "(s XOR T) + T = s" by (simp add: xor.assoc)
    then have "s + T = (s XOR T) + (T + T)" by (simp only: add.assoc [symmetric])
    then show ?thesis using assms(2) by simp
  qed (rule low)
qed

lemma add_top_bit: "s + 0x8000000000000000 = s XOR 0x8000000000000000" for s :: u64
proof -
  have top: "(0x8000000000000000 :: u64) = push_bit 63 1" by (simp add: push_bit_eq_mult)
  have "bit (push_bit 63 1 :: u64) n \<longleftrightarrow> n = 63" for n
    unfolding bit_push_bit_iff bit_1_iff by (auto simp del: push_bit_of_1)
  moreover have "push_bit 63 1 + push_bit 63 1 = (0 :: u64)" by (simp add: push_bit_eq_mult)
  ultimately show ?thesis unfolding top by (rule add_only_top)
qed

lemma write_usize_state:
  "write_usize h i = Some (h\<lparr>hstate := mix (hstate h XOR (hstate h + (0x57 + i))) K_MUL\<rparr>)"
  by (simp add: write_defs combine_raw_def add.assoc)

text \<open>
  C35: \<open>write_usize\<close> can forget everything that was hashed before it, because it adds the state to
  the value before it mixes the value with the state: \<open>usize::MAX - 0x56\<close> takes every state to 0,
  and is the only value that takes a state to 0; a second value takes all states to one other.
  \<open>write_u64\<close> has no such value: it gives 0 exactly when the value is the old state.
\<close>

theorem write_usize_forgets:
  "(\<exists>h'. write_usize h i = Some h' \<and> (finish h' = 0 \<longleftrightarrow> i = 0xFFFFFFFFFFFFFFA9)) \<and>
   write_usize h 0x7FFFFFFFFFFFFFA9 = write_usize g 0x7FFFFFFFFFFFFFA9 \<and>
   (\<exists>h'. write_u64 h v = Some h' \<and> (finish h' = 0 \<longleftrightarrow> v = finish h))"
proof (intro conjI)
  have "hstate h = hstate h + (0x57 + i) \<longleftrightarrow> i = 0xFFFFFFFFFFFFFFA9"
  proof -
    have "(- 0x57 :: u64) = 0xFFFFFFFFFFFFFFA9" by simp
    then show ?thesis using add_eq_0_iff [of "0x57" i] by (simp only: add_cancel_right_right)
  qed
  then show "\<exists>h'. write_usize h i = Some h' \<and> (finish h' = 0 \<longleftrightarrow> i = 0xFFFFFFFFFFFFFFA9)"
    by (simp add: write_defs finish_def combine_raw_eq_0_iff add.assoc)
  show "write_usize h 0x7FFFFFFFFFFFFFA9 = write_usize g 0x7FFFFFFFFFFFFFA9"
    by (cases h, cases g) (simp add: write_usize_state add_top_bit xor.assoc [symmetric])
  show "\<exists>h'. write_u64 h v = Some h' \<and> (finish h' = 0 \<longleftrightarrow> v = finish h)"
    by (auto simp: write_defs finish_def combine_raw_eq_0_iff)
qed

end
