(* ===== verification/Test_Vectors.thy ===== *)
theory Test_Vectors
  imports City Low_Level
begin

section \<open>The repository's test vectors\<close>

text \<open>
  Rows of the tables in the tests of \<open>city.rs\<close> and \<open>low_level.rs\<close>, evaluated on the model: a check
  of the definitions against the values the code is tested with. The City rows have one length for
  each branch of \<open>hash32\<close> and \<open>hash64\<close>; the bytes are the slices that the test takes of its
  generated data. The two rows of the portable combiner are the shortest one and the first beyond
  a 64-byte block.
\<close>

definition city_row :: "bytes \<Rightarrow> (u64 \<times> u64 \<times> u64 \<times> u32) option" where
  "city_row d = do {
     h \<leftarrow> hash64 d;
     s \<leftarrow> hash64_with_seed d 1234567;
     t \<leftarrow> hash64_with_seeds d 1234567 0xc3a5c85c97cb3127;
     h32 \<leftarrow> hash32 d;
     Some (h, s, t, h32) }"

lemma city_row_3:
  "city_row
    [170, 176, 206] =
    Some (0xef923a7a1af78eab, 0x79163b1e1e9a9b18, 0xdf3b2aca6e1e4a30, 0xebc34f3c)"
  by code_simp

lemma city_row_9:
  "city_row
    [113, 18, 187, 219, 73, 199, 187, 16, 80] =
    Some (0xfb8d9c70660b910b, 0xa45b0cc3476bff1b, 0xb28d1996144f0207, 0x3f5538ef)"
  by code_simp

lemma city_row_20:
  "city_row
    [114, 246, 57, 89, 253, 152, 90, 54, 72, 13, 253, 154, 71, 79, 146, 69, 20, 35, 45, 210] =
    Some (0x4182832b52d63735, 0x337097e123eea414, 0xb5a72ca0456df910, 0x7a48b105)"
  by code_simp

lemma city_hash32_28:
  "hash32
    [133, 238, 133, 36, 145, 236, 180, 187, 224, 194, 252, 54, 193, 37, 224, 189, 165, 10,
     84, 39, 33, 224, 243, 45, 253, 36, 76, 156] =
    Some 0xb6e5d06e"
  by code_simp

lemma city_hash64_40:
  "hash64
    [255, 114, 174, 214, 180, 38, 208, 167, 36, 186, 89, 18, 84, 179, 78, 226, 192, 224,
     137, 244, 197, 219, 229, 76, 69, 2, 89, 236, 86, 99, 132, 182, 231, 180, 82, 5, 65,
     105, 146, 73] =
    Some 0x4ec0b54cf1566aff"
  by code_simp

lemma city_hash64_70:
  "hash64
    [184, 20, 236, 174, 4, 167, 18, 101, 137, 184, 78, 51, 142, 16, 226, 38, 132, 34, 187,
     181, 239, 78, 112, 240, 85, 140, 39, 30, 173, 184, 8, 14, 29, 125, 250, 45, 41, 73,
     103, 117, 16, 106, 96, 188, 7, 126, 224, 38, 169, 28, 173, 223, 58, 146, 9, 253, 173,
     161, 180, 148, 80, 153, 146, 133, 235, 240, 176, 100, 202, 189] =
    Some 0x9489b36fe2246244"
  by code_simp

lemma golden_0:
  "combine_large_contiguous_on64bit_length_gt32 0x531858a40bfa7ea1
    [86, 154, 212, 24, 209, 254, 228, 217, 205, 69, 163, 145, 198, 1, 255, 201, 42, 217, 21,
     1, 67, 47, 238, 21, 2, 135, 97, 124, 19, 98, 158, 105, 252, 114] =
    Some 0x669da02f8d009e0f"
  by code_simp

lemma golden_31:
  "combine_large_contiguous_on64bit_length_gt32 0x7d0a37adbd7b753b
    [20, 93, 135, 64, 77, 69, 196, 75, 214, 6, 152, 58, 103, 220, 192, 48, 127, 153, 150,
     172, 124, 75, 82, 67, 255, 2, 37, 86, 34, 250, 100, 54, 88, 235, 118, 165, 48, 58, 241,
     7, 65, 137, 65, 168, 102, 2, 216, 229, 155, 110, 145, 24, 185, 227, 91, 184, 230, 129,
     14, 8, 123, 114, 62, 211, 94] =
    Some 0xa64b55b071afbbea"
  by code_simp

end
