(* ===== verification/X86_Hash.thy ===== *)
theory X86_Hash
  imports Low_Level
begin

section \<open>The x86-64 path (mekong9-hash/src/internal/low\_level.rs)\<close>

text \<open>
  The functions compiled on x86-64 with SSE2: CRC32 for short slices, AES rounds for long ones.
  First the intrinsics of \<open>core::arch\<close> that the code uses, by their documented meaning, then the
  code. Names have the suffix \<open>x86\<close> where the portable path has the same name.
\<close>

subsection \<open>Vectors and the CRC and AES instructions\<close>

type_synonym m128 = u128

definition mm_set_epi64x :: "u64 \<Rightarrow> u64 \<Rightarrow> m128" where
  "mm_set_epi64x hi lo = push_bit 64 (ucast hi) OR ucast lo"

definition mm_lo :: "m128 \<Rightarrow> u64" where "mm_lo v = ucast v"
definition mm_hi :: "m128 \<Rightarrow> u64" where "mm_hi v = ucast (drop_bit 64 v)"

definition mm_add_epi64 :: "m128 \<Rightarrow> m128 \<Rightarrow> m128" where
  "mm_add_epi64 a b = mm_set_epi64x (mm_hi a + mm_hi b) (mm_lo a + mm_lo b)"

definition mm_sub_epi64 :: "m128 \<Rightarrow> m128 \<Rightarrow> m128" where
  "mm_sub_epi64 a b = mm_set_epi64x (mm_hi a - mm_hi b) (mm_lo a - mm_lo b)"

text \<open>A load through a raw pointer \<open>k\<close> bytes into the slice; outside the slice it has no value.\<close>

definition mm_loadu :: "bytes \<Rightarrow> nat \<Rightarrow> m128 option" where
  "mm_loadu p k = (if k + 16 \<le> length p then Some (le_word (take 16 (drop k p))) else None)"

text \<open>CRC-32C, bit by bit, low bit first.\<close>

definition crc_bit :: "u32 \<Rightarrow> u32" where
  "crc_bit c = (if c AND 1 \<noteq> 0 then drop_bit 1 c XOR 0x82F63B78 else drop_bit 1 c)"

definition crc_byte :: "u32 \<Rightarrow> u8 \<Rightarrow> u32" where
  "crc_byte c b = (crc_bit ^^ 8) (c XOR ucast b)"

definition mm_crc32_u8 :: "u32 \<Rightarrow> u8 \<Rightarrow> u32" where
  "mm_crc32_u8 = crc_byte"

definition mm_crc32_u32 :: "u32 \<Rightarrow> u32 \<Rightarrow> u32" where
  "mm_crc32_u32 c v = foldl crc_byte c (le_bytes 4 v)"

definition mm_crc32_u64 :: "u64 \<Rightarrow> u64 \<Rightarrow> u64" where
  "mm_crc32_u64 c v = ucast (foldl crc_byte (ucast c) (le_bytes 8 v))"

text \<open>The field of AES, its S-box and the round functions on the 16 bytes of a vector.\<close>

definition xtime :: "u8 \<Rightarrow> u8" where
  "xtime a = push_bit 1 a XOR (if bit a 7 then 0x1b else 0)"

primrec gf_mul_bits :: "nat \<Rightarrow> u8 \<Rightarrow> u8 \<Rightarrow> u8" where
  "gf_mul_bits 0 a b = 0"
| "gf_mul_bits (Suc n) a b = (if bit b 0 then a else 0) XOR gf_mul_bits n (xtime a) (drop_bit 1 b)"

definition gf_mul :: "u8 \<Rightarrow> u8 \<Rightarrow> u8" where
  "gf_mul = gf_mul_bits 8"

text \<open>The inverse is the 254th power: \<open>x2 * x4 * ... * x128\<close>.\<close>

definition gf_inv :: "u8 \<Rightarrow> u8" where
  "gf_inv x =
    (let sq = (\<lambda>y. gf_mul y y);
         x2 = sq x; x4 = sq x2; x8 = sq x4; x16 = sq x8; x32 = sq x16; x64 = sq x32; x128 = sq x64
     in gf_mul x2 (gf_mul x4 (gf_mul x8 (gf_mul x16 (gf_mul x32 (gf_mul x64 x128))))))"

definition sbox :: "u8 \<Rightarrow> u8" where
  "sbox x =
    (let b = gf_inv x in
     b XOR word_rotl 1 b XOR word_rotl 2 b XOR word_rotl 3 b XOR word_rotl 4 b XOR 0x63)"

definition inv_sbox :: "u8 \<Rightarrow> u8" where
  "inv_sbox y = gf_inv (word_rotl 1 y XOR word_rotl 3 y XOR word_rotl 6 y XOR 0x05)"

text \<open>Row \<open>r\<close> of the state is rotated by \<open>r\<close> columns; byte \<open>r + 4 c\<close> is row \<open>r\<close>, column \<open>c\<close>.\<close>

definition shift_rows :: "bytes \<Rightarrow> bytes" where
  "shift_rows s = map (\<lambda>i. s ! (i mod 4 + 4 * ((i div 4 + i mod 4) mod 4))) [0..<16]"

definition inv_shift_rows :: "bytes \<Rightarrow> bytes" where
  "inv_shift_rows s = map (\<lambda>i. s ! (i mod 4 + 4 * ((i div 4 + 4 - i mod 4) mod 4))) [0..<16]"

definition mix_with :: "u8 \<Rightarrow> u8 \<Rightarrow> u8 \<Rightarrow> u8 \<Rightarrow> bytes \<Rightarrow> bytes" where
  "mix_with k0 k1 k2 k3 s =
    map (\<lambda>i. let col = 4 * (i div 4); r = i mod 4 in
        gf_mul (s ! (col + r)) k0 XOR gf_mul (s ! (col + (r + 1) mod 4)) k1 XOR
        gf_mul (s ! (col + (r + 2) mod 4)) k2 XOR gf_mul (s ! (col + (r + 3) mod 4)) k3) [0..<16]"

definition mix_columns :: "bytes \<Rightarrow> bytes" where
  "mix_columns = mix_with 2 3 1 1"

definition inv_mix_columns :: "bytes \<Rightarrow> bytes" where
  "inv_mix_columns = mix_with 14 11 13 9"

definition mm_aesenc :: "m128 \<Rightarrow> m128 \<Rightarrow> m128" where
  "mm_aesenc a k = le_word (mix_columns (map sbox (shift_rows (le_bytes 16 a)))) XOR k"

definition mm_aesdec :: "m128 \<Rightarrow> m128 \<Rightarrow> m128" where
  "mm_aesdec a k = le_word (inv_mix_columns (map inv_sbox (inv_shift_rows (le_bytes 16 a)))) XOR k"

subsection \<open>The code\<close>

definition read4 :: "bytes \<Rightarrow> u32 option" where
  "read4 p = unaligned_load32 p"

definition read4_end :: "bytes \<Rightarrow> u32 option" where
  "read4_end p = do { q \<leftarrow> slice_last p 4; read4 q }"

definition mix4x16vectors :: "m128 \<Rightarrow> m128 \<Rightarrow> m128 \<Rightarrow> m128 \<Rightarrow> u64" where
  "mix4x16vectors a b c d =
    (let res128 = mm_add_epi64 (mm_aesenc (mm_add_epi64 a c) d) (mm_aesdec (mm_sub_epi64 b d) a)
     in mm_lo res128 XOR mm_hi res128)"

definition low_level_hash33to64_x86 :: "u64 \<Rightarrow> bytes \<Rightarrow> u64 option" where
  "low_level_hash33to64_x86 seed ptr =
    (let len = length ptr in do {
       debug_assert (len > 32);
       debug_assert (len \<le> 64);
       let state = mm_set_epi64x seed (of_nat len);
       a \<leftarrow> mm_loadu ptr 0;
       b \<leftarrow> mm_loadu ptr 16;
       c \<leftarrow> mm_loadu ptr (len - 32);
       d \<leftarrow> mm_loadu ptr (len - 32 + 16);
       let na = mm_aesdec (mm_add_epi64 state a) state;
       let nb = mm_aesdec (mm_sub_epi64 state b) state;
       let nc = mm_aesenc (mm_add_epi64 state c) state;
       let nd = mm_aesenc (mm_sub_epi64 state d) state;
       Some (mix4x16vectors na nb nc nd)
     })"

type_synonym vectors = "m128 \<times> m128 \<times> m128 \<times> m128"

definition mix_ab :: "bytes \<Rightarrow> vectors \<Rightarrow> vectors option" where
  "mix_ab p st = (case st of (state0, state1, state2, state3) \<Rightarrow> do {
     debug_assert (length p \<ge> 16);
     a \<leftarrow> mm_loadu p 0;
     b \<leftarrow> mm_loadu p 16;
     Some (mm_aesdec (mm_add_epi64 state0 a) state0, mm_aesdec (mm_sub_epi64 state1 b) state1,
           state2, state3)
   })"

definition mix_cd :: "bytes \<Rightarrow> vectors \<Rightarrow> vectors option" where
  "mix_cd p st = (case st of (state0, state1, state2, state3) \<Rightarrow> do {
     c \<leftarrow> mm_loadu p 0;
     d \<leftarrow> mm_loadu p 16;
     Some (state0, state1,
           mm_aesenc (mm_add_epi64 state2 c) state2, mm_aesenc (mm_sub_epi64 state3 d) state3)
   })"

definition gt64_body_x86 :: "bytes \<Rightarrow> vectors \<Rightarrow> vectors option" where
  "gt64_body_x86 ptr st = do {
     prefetch_future_data_to_local_cache ptr;
     st \<leftarrow> mix_ab ptr st;
     q \<leftarrow> slice_from ptr 32;
     mix_cd q st
   }"

text \<open>The loop hands back the rest of the slice, its length and the four states.\<close>

function gt64_loop_x86 :: "bytes \<Rightarrow> nat \<Rightarrow> vectors \<Rightarrow> (bytes \<times> nat \<times> vectors) option" where
  "gt64_loop_x86 ptr len st = do {
     st \<leftarrow> gt64_body_x86 ptr st;
     ptr \<leftarrow> slice_from ptr 64;
     if 64 \<le> len
     then (if len - 64 \<le> 64 then Some (ptr, len - 64, st) else gt64_loop_x86 ptr (len - 64) st)
     else None
   }"
  by pat_completeness auto
termination
  by (relation "measure (\<lambda>(ptr, len, st). len)") auto

declare gt64_loop_x86.simps [simp del]

definition low_level_hash_len_gt64_x86 :: "u64 \<Rightarrow> bytes \<Rightarrow> u64 option" where
  "low_level_hash_len_gt64_x86 seed data =
    (let len = length data in do {
       debug_assert (len > 64);
       last_32 \<leftarrow> slice_last data 32;
       let state0 = mm_set_epi64x seed (of_nat len);
       (ptr, len, st) \<leftarrow> gt64_loop_x86 data len (state0, state0, state0, state0);
       st \<leftarrow> (if len > 32 then mix_ab ptr st else Some st);
       (state0, state1, state2, state3) \<leftarrow> mix_cd last_32 st;
       Some (mix4x16vectors state0 state1 state2 state3)
     })"

definition low_level_hash_len_gt32_x86 :: "u64 \<Rightarrow> bytes \<Rightarrow> u64 option" where
  "low_level_hash_len_gt32_x86 seed data =
    (let len = length data in do {
       debug_assert (len > 32);
       if len > 64 then low_level_hash_len_gt64_x86 seed data
       else low_level_hash33to64_x86 seed data
     })"

text \<open>At most 32 bytes with SSE 4.2: two CRC lanes, then the folded multiply.\<close>

definition combine_crc :: "u64 \<Rightarrow> bytes \<Rightarrow> u64 option" where
  "combine_crc state first =
    (let len = length first;
         mul = word_rotr len K_MUL;
         c0 = (state + 8) * of_nat len;
         c1 = swap_bytes64 state
     in if len > 8 then do {
          x \<leftarrow> read8 first;
          y \<leftarrow> read8_end first 8;
          let c0 = mm_crc32_u64 c0 x;
          let c1 = mm_crc32_u64 c1 y;
          if len > 16 then do {
            x \<leftarrow> read8_end first 16;
            y \<leftarrow> read8_at first 8;
            Some (mix (mul - mm_crc32_u64 c0 x) (mm_crc32_u64 c1 y - mul))
          } else Some (mix (mul - c0) (c1 - mul))
        } else if len \<ge> 4 then do {
          x \<leftarrow> read4 first;
          y \<leftarrow> read4_end first;
          let c0 = ucast (mm_crc32_u32 (ucast c0) x);
          let c1 = ucast (mm_crc32_u32 (ucast c1) y);
          Some (mix (mul - c0) (c1 - mul))
        } else if len \<ge> 1 then do {
          x \<leftarrow> index first 0;
          y \<leftarrow> index first (len - 1);
          m \<leftarrow> index first (len div 2);
          let c0 = ucast (mm_crc32_u8 (ucast c0) x);
          let c1 = ucast (mm_crc32_u8 (ucast c1) y);
          let mul = mul + ucast m;
          Some (mix (mul - c0) (c1 - mul))
        } else Some (mix (mul - c0) (c1 - mul)))"

text \<open>\<open>sse42\<close> is the answer of \<open>is_x86_feature_detected!("sse4.2")\<close>.\<close>

function (sequential) combine_contiguous_x86 :: "bool \<Rightarrow> u64 \<Rightarrow> bytes \<Rightarrow> u64 option"
  and combine_large_contiguous_x86 :: "bool \<Rightarrow> u64 \<Rightarrow> bytes \<Rightarrow> u64 option"
  and split_and_combine_x86 :: "bool \<Rightarrow> u64 \<Rightarrow> bytes \<Rightarrow> u64 option"
where
  "combine_contiguous_x86 sse42 state first =
    (let len = length first in
     if sse42 then
       (if len > 32 then combine_large_contiguous_x86 sse42 state first
        else combine_crc state first)
     else if len \<le> 8 then do {
       s \<leftarrow> precombine_length_mix state len; combine_small_contiguous s first }
     else if len \<le> 16 then do {
       s \<leftarrow> precombine_length_mix state len; combine_contiguous_9to16 s first }
     else if len \<le> 32 then do {
       s \<leftarrow> precombine_length_mix state len; combine_contiguous_17to32 s first }
     else combine_large_contiguous_x86 sse42 state first)"
| "combine_large_contiguous_x86 sse42 state first =
    (let len = length first in
     if len > 32 \<comment> \<open>\<open>debug_assert!(len > 32)\<close>\<close>
     then (if len \<le> PIECEWISE_CHUNK_SIZE then low_level_hash_len_gt32_x86 state first
           else split_and_combine_x86 sse42 state first)
     else None)"
| "split_and_combine_x86 sse42 state ptr =
    (let len = length ptr in
     if len \<ge> PIECEWISE_CHUNK_SIZE then do {
       state \<leftarrow> low_level_hash_len_gt32_x86 state (take PIECEWISE_CHUNK_SIZE ptr);
       split_and_combine_x86 sse42 state (drop PIECEWISE_CHUNK_SIZE ptr)
     }
     else if len = 0 then Some state
     else combine_contiguous_x86 sse42 state ptr)"
  by pat_completeness auto
termination
  by (relation "measure (\<lambda>x. case x of
        Inl (b, s, xs) \<Rightarrow> call_rank 3 (length xs)
      | Inr (Inl (b, s, xs)) \<Rightarrow> call_rank 2 (length xs)
      | Inr (Inr (b, s, xs)) \<Rightarrow> call_rank 0 (length xs))")
     (auto simp: call_rank_def PIECEWISE_CHUNK_SIZE_def neq_Nil_conv)

declare combine_contiguous_x86.simps [simp del]
  combine_large_contiguous_x86.simps [simp del]
  split_and_combine_x86.simps [simp del]

end
