(* ===== verification/X86_Props.thy ===== *)
theory X86_Props
  imports X86_Hash Piecewise
begin

section \<open>The x86-64 path: loads in bounds, pieces agree\<close>

lemma mm_loadu_safe [safe_intros]: "k + 16 \<le> length p \<Longrightarrow> mm_loadu p k \<noteq> None"
  by (simp add: mm_loadu_def)

lemma mix_ab_safe [safe_intros]: "32 \<le> length p \<Longrightarrow> mix_ab p st \<noteq> None"
  unfolding mix_ab_def by (cases st) (simp only: prod.case, intro safe_intros; auto)

lemma mix_cd_safe [safe_intros]: "32 \<le> length p \<Longrightarrow> mix_cd p st \<noteq> None"
  unfolding mix_cd_def by (cases st) (simp only: prod.case, intro safe_intros; auto)

lemma low_level_hash33to64_x86_safe [safe_intros]:
  "32 < length ptr \<Longrightarrow> length ptr \<le> 64 \<Longrightarrow> low_level_hash33to64_x86 seed ptr \<noteq> None"
  unfolding low_level_hash33to64_x86_def by (intro safe_intros; auto)

lemma gt64_body_x86_safe [safe_intros]:
  assumes "64 \<le> length ptr"
  shows "gt64_body_x86 ptr st \<noteq> None"
proof -
  have "slice_from ptr 32 = Some (drop 32 ptr)" using assms by (simp add: load_simps)
  moreover obtain st1 where "mix_ab ptr st = Some st1" using assms mix_ab_safe [of ptr st] by auto
  moreover have "mix_cd (drop 32 ptr) st1 \<noteq> None" using assms by (intro safe_intros) simp
  ultimately show ?thesis using prefetch_safe [of ptr] by (auto simp: gt64_body_x86_def)
qed

text \<open>The 64-byte loop stops with the last 1 to 64 bytes of the data.\<close>

lemma gt64_loop_x86_result:
  assumes "64 < length ptr"
  shows "\<exists>k st'. gt64_loop_x86 ptr (length ptr) st = Some (drop k ptr, length ptr - k, st') \<and>
    k < length ptr \<and> length ptr - k \<le> 64"
  using assms
proof (induction "length ptr" arbitrary: ptr st rule: less_induct)
  case less
  obtain st1 where body: "gt64_body_x86 ptr st = Some st1"
    using gt64_body_x86_safe [of ptr st] less.prems by auto
  have slice: "slice_from ptr 64 = Some (drop 64 ptr)"
    using less.prems by (simp add: load_simps)
  show ?case
  proof (cases "length ptr - 64 \<le> 64")
    case True
    with body slice less.prems have
      "gt64_loop_x86 ptr (length ptr) st = Some (drop 64 ptr, length ptr - 64, st1)"
      by (subst gt64_loop_x86.simps) simp
    with True less.prems show ?thesis by blast
  next
    case False
    let ?p = "drop 64 ptr"
    have "length ?p < length ptr" and "64 < length ?p" using False less.prems by auto
    then obtain k st2 where
      "gt64_loop_x86 ?p (length ?p) st1 = Some (drop k ?p, length ?p - k, st2)"
      "k < length ?p" "length ?p - k \<le> 64"
      using less.hyps [of ?p st1] by blast
    moreover from False body slice less.prems have
      "gt64_loop_x86 ptr (length ptr) st = gt64_loop_x86 ?p (length ?p) st1"
      by (subst gt64_loop_x86.simps) simp
    ultimately show ?thesis
      by (intro exI [of _ "k + 64"] exI [of _ st2]) (auto simp: add.commute)
  qed
qed

lemma low_level_hash_len_gt64_x86_safe [safe_intros]:
  assumes "64 < length data"
  shows "low_level_hash_len_gt64_x86 seed data \<noteq> None"
proof -
  let ?s = "mm_set_epi64x seed (of_nat (length data))"
  obtain k st' where loop:
    "gt64_loop_x86 data (length data) (?s, ?s, ?s, ?s) = Some (drop k data, length data - k, st')"
    "k < length data" "length data - k \<le> 64"
    using gt64_loop_x86_result [OF assms] by blast
  have last: "slice_last data 32 = Some (drop (length data - 32) data)"
    using assms by (simp add: load_simps)
  have ab: "(if 32 < length data - k then mix_ab (drop k data) st' else Some st') \<noteq> None"
    by (intro safe_intros) auto
  have cd: "mix_cd (drop (length data - 32) data) st \<noteq> None" for st
    using assms by (intro safe_intros) auto
  show ?thesis
    unfolding low_level_hash_len_gt64_x86_def Let_def
    using assms ab cd by (auto simp: loop last debug_assert_def bind_eq_None_conv split: prod.splits)
qed

lemma low_level_hash_len_gt32_x86_safe [safe_intros]:
  "32 < length data \<Longrightarrow> low_level_hash_len_gt32_x86 s data \<noteq> None"
  unfolding low_level_hash_len_gt32_x86_def by (intro safe_intros) auto

lemma read_end_safe [safe_intros]:
  "k \<le> length p \<Longrightarrow> 8 \<le> k \<Longrightarrow> read8_end p k \<noteq> None"
  "4 \<le> length p \<Longrightarrow> read4_end p \<noteq> None" "4 \<le> length p \<Longrightarrow> read4 p \<noteq> None"
  by (simp_all add: read8_end_def read8_def read4_end_def read4_def load_simps)

lemma combine_crc_safe [safe_intros]: "combine_crc s first \<noteq> None"
  unfolding combine_crc_def Let_def
  by (intro safe_intros; auto simp: read8_def read8_at_def load_simps)

text \<open>The splitting loop and the combiner agree on every non-empty slice.\<close>

lemma split_x86_eq_combine:
  assumes "xs \<noteq> []"
  shows "split_and_combine_x86 b s xs = combine_contiguous_x86 b s xs"
proof -
  consider "length xs < 1024" | "length xs = 1024" | "1024 < length xs" by linarith
  then show ?thesis
  proof cases
    case 1
    with assms show ?thesis
      by (subst split_and_combine_x86.simps) (simp add: PIECEWISE_CHUNK_SIZE_def)
  next
    case 2
    then show ?thesis
      by (simp add: PIECEWISE_CHUNK_SIZE_def split_and_combine_x86.simps
          combine_contiguous_x86.simps combine_large_contiguous_x86.simps)
  next
    case 3
    then show ?thesis
      by (simp add: Let_def PIECEWISE_CHUNK_SIZE_def combine_contiguous_x86.simps
          combine_large_contiguous_x86.simps)
  qed
qed

lemma combine_x86_short:
  "length xs \<le> PIECEWISE_CHUNK_SIZE \<Longrightarrow> combine_contiguous_x86 b s xs \<noteq> None"
  unfolding combine_contiguous_x86.simps [of b s xs] combine_large_contiguous_x86.simps [of b s xs]
    Let_def
  by (intro safe_intros) auto

lemma combine_x86_long:
  assumes "PIECEWISE_CHUNK_SIZE < length xs"
  shows "combine_contiguous_x86 b s xs = do {
    s' \<leftarrow> low_level_hash_len_gt32_x86 s (take PIECEWISE_CHUNK_SIZE xs);
    combine_contiguous_x86 b s' (drop PIECEWISE_CHUNK_SIZE xs) }"
proof -
  have "xs \<noteq> []" using assms by auto
  then have "combine_contiguous_x86 b s xs = split_and_combine_x86 b s xs"
    by (rule split_x86_eq_combine [symmetric])
  also have "\<dots> = do {
      s' \<leftarrow> low_level_hash_len_gt32_x86 s (take PIECEWISE_CHUNK_SIZE xs);
      split_and_combine_x86 b s' (drop PIECEWISE_CHUNK_SIZE xs) }"
    using assms by (subst split_and_combine_x86.simps) simp
  also have "\<dots> = do {
      s' \<leftarrow> low_level_hash_len_gt32_x86 s (take PIECEWISE_CHUNK_SIZE xs);
      combine_contiguous_x86 b s' (drop PIECEWISE_CHUNK_SIZE xs) }"
    using assms by (simp add: split_x86_eq_combine)
  finally show ?thesis .
qed

interpretation onx86: total_piecewise "combine_contiguous_x86 b" low_level_hash_len_gt32_x86 for b
proof unfold_locales
  fix xs :: bytes and s :: u64
  assume "length xs = PIECEWISE_CHUNK_SIZE"
  then show "combine_contiguous_x86 b s xs = low_level_hash_len_gt32_x86 s xs"
    by (simp add: PIECEWISE_CHUNK_SIZE_def combine_contiguous_x86.simps
        combine_large_contiguous_x86.simps)
qed (fact combine_x86_long combine_x86_short)+

text \<open>
  The x86-64 combiner returns a state for every slice and state, with and without SSE 4.2: the
  raw 16-byte vector loads, whose assertion only asks for 16 bytes where 32 are read, stay inside
  the slice, and the recursion ends.
\<close>

lemma combine_x86_total: "\<exists>s'. combine_contiguous_x86 sse42 s xs = Some s'"
  using onx86.combine_total [of sse42 s xs] by auto

text \<open>
  C32: on x86-64 too, hashing whole chunks and then a non-empty rest in two calls gives the state
  of one call on the concatenation.
\<close>

theorem combine_x86_piecewise:
  assumes "length xs = n * PIECEWISE_CHUNK_SIZE" and "0 < n" and "ys \<noteq> []"
  shows "combine_contiguous_x86 sse42 s (xs @ ys) =
    do { s' \<leftarrow> combine_contiguous_x86 sse42 s xs; combine_contiguous_x86 sse42 s' ys }"
  using assms by (rule onx86.combine_append)

theorem combine_x86_piecewise_witness:
  "combine_contiguous_x86 True 5 (replicate 1024 1 @ [2]) =
    do { s' \<leftarrow> combine_contiguous_x86 True 5 (replicate 1024 1);
         combine_contiguous_x86 True s' [2] }"
  by (rule combine_x86_piecewise [of _ 1])
     (simp_all add: PIECEWISE_CHUNK_SIZE_def del: replicate.simps)

text \<open>
  Without SSE 4.2 the x86-64 combiner agrees with the portable one on short slices, so the
  feature test of the processor decides between the CRC and the portable short hash.
\<close>

lemma combine_x86_fallback:
  assumes "length xs \<le> 32"
  shows "combine_contiguous_x86 False s xs = combine_contiguous_on64bit s xs"
  unfolding combine_contiguous_x86.simps [of False s xs] combine_contiguous_on64bit.simps [of s xs]
    Let_def using assms by simp

end
