(* ===== verification/Lock_State.thy ===== *)
theory Lock_State
  imports Prelude
begin

section \<open>The state word of RawMutex and ParkingQueue (parking/auxiliary.rs)\<close>

text \<open>
  One \<open>AtomicU64\<close> packs three flags and the address of the newest waiter's \<open>ThreadData\<close>. On a
  64-bit target the address is a multiple of 8, so its three low bits are free. The lemmas say
  what each atomic update of the code does to the flags and to the address.
\<close>

definition IDLE :: u64 where "IDLE = 0"
definition LOCKED_BIT :: u64 where "LOCKED_BIT = 1"
definition QUEUE_LOCKED_BIT :: u64 where "QUEUE_LOCKED_BIT = 2"
definition TIMEOUT_BIT :: u64 where "TIMEOUT_BIT = 4"
definition QUEUE_MASK :: u64 where "QUEUE_MASK = NOT 7"

type_synonym ptr = u64

abbreviation null :: ptr where "null \<equiv> 0"

definition is_queue_locked :: "u64 \<Rightarrow> bool" where
  "is_queue_locked w \<longleftrightarrow> w AND QUEUE_LOCKED_BIT \<noteq> 0"

definition queue_head :: "u64 \<Rightarrow> ptr" where
  "queue_head w = w AND QUEUE_MASK"

definition set_queue_head :: "u64 \<Rightarrow> ptr \<Rightarrow> u64" where
  "set_queue_head w p = (w AND NOT QUEUE_MASK) OR p"

text \<open>The address of a live \<open>ThreadData\<close>: not null and a multiple of 8.\<close>

definition valid_ptr :: "ptr \<Rightarrow> bool" where
  "valid_ptr p \<longleftrightarrow> p \<noteq> null \<and> p AND 7 = 0"

abbreviation locked :: "u64 \<Rightarrow> bool" where "locked w \<equiv> bit w 0"
abbreviation qlocked :: "u64 \<Rightarrow> bool" where "qlocked w \<equiv> bit w (Suc 0)"
abbreviation timeout :: "u64 \<Rightarrow> bool" where "timeout w \<equiv> bit w 2"

named_theorems layout \<open>what the atomic updates do to the flags and the address\<close>

lemma low_bits: "bit (2 :: int) n \<longleftrightarrow> n = 1" "bit (4 :: int) n \<longleftrightarrow> n = 2"
  "bit (5 :: int) n \<longleftrightarrow> n = 0 \<or> n = 2" "bit (6 :: int) n \<longleftrightarrow> n = 1 \<or> n = 2"
  "bit (7 :: int) n \<longleftrightarrow> n = 0 \<or> n = 1 \<or> n = 2"
  by (cases n; cases "n - 1"; cases "n - 2"; cases "n - 3"; auto simp: bit_Suc bit_0)+

lemmas bit_consts = IDLE_def LOCKED_BIT_def QUEUE_LOCKED_BIT_def TIMEOUT_BIT_def QUEUE_MASK_def

lemma and_bit_eq_0:
  "w AND LOCKED_BIT = 0 \<longleftrightarrow> \<not> locked w" "w AND QUEUE_LOCKED_BIT = 0 \<longleftrightarrow> \<not> qlocked w"
  "w AND TIMEOUT_BIT = 0 \<longleftrightarrow> \<not> timeout w" for w :: u64
proof -
  have "w AND push_bit n 1 = 0 \<longleftrightarrow> \<not> bit w n" if "n < 64" for n
    using that by (auto simp: bit_eq_iff [of _ "0 :: u64"] bit_simps)
  from this [of 0] this [of 1] this [of 2] show "w AND LOCKED_BIT = 0 \<longleftrightarrow> \<not> locked w"
    "w AND QUEUE_LOCKED_BIT = 0 \<longleftrightarrow> \<not> qlocked w" "w AND TIMEOUT_BIT = 0 \<longleftrightarrow> \<not> timeout w"
    by (simp_all add: bit_consts)
qed

lemma is_queue_locked_iff [layout]: "is_queue_locked w \<longleftrightarrow> qlocked w"
  by (simp add: is_queue_locked_def and_bit_eq_0)

lemma bit_queue_head: "bit (queue_head w) n \<longleftrightarrow> 3 \<le> n \<and> bit w n"
  by (auto simp: queue_head_def bit_simps bit_consts low_bits dest: bit_imp_le_length)

lemma valid_ptr_bits: "valid_ptr p \<Longrightarrow> n < 3 \<Longrightarrow> \<not> bit p n"
proof -
  assume "valid_ptr p" "n < 3"
  then have "\<not> bit (p AND 7) n" by (simp add: valid_ptr_def)
  moreover have "n = 0 \<or> n = 1 \<or> n = 2" using \<open>n < 3\<close> by linarith
  ultimately show "\<not> bit p n" by (auto simp: bit_and_iff low_bits)
qed

lemma valid_ptr_not_null: "valid_ptr p \<Longrightarrow> p \<noteq> null"
  by (simp add: valid_ptr_def)

text \<open>Two words with the same flags and the same address are equal.\<close>

lemma word_layout_eqI:
  assumes "locked v = locked w" "qlocked v = qlocked w" "timeout v = timeout w"
    and "queue_head v = queue_head w"
  shows "v = w"
proof (rule bit_word_eqI)
  fix n :: nat
  consider "n = 0" | "n = 1" | "n = 2" | "3 \<le> n" by linarith
  then show "bit v n = bit w n"
  proof cases
    case 4
    then show ?thesis using bit_queue_head [of v n] bit_queue_head [of w n] assms(4) by simp
  qed (use assms in auto)
qed

lemma queue_head_eqI: "(\<And>n. 3 \<le> n \<Longrightarrow> n < 64 \<Longrightarrow> bit v n = bit w n) \<Longrightarrow> queue_head v = queue_head w"
  by (rule bit_word_eqI) (auto simp: bit_queue_head)

lemma set_queue_head_layout [layout]:
  assumes "valid_ptr p"
  shows "locked (set_queue_head w p) = locked w" "qlocked (set_queue_head w p) = qlocked w"
    "timeout (set_queue_head w p) = timeout w" "queue_head (set_queue_head w p) = p"
proof -
  have p: "\<not> bit p 0" "\<not> bit p 1" "\<not> bit p 2" "bit p n \<Longrightarrow> 3 \<le> n" for n
    using valid_ptr_bits [OF assms] not_less by auto
  show "locked (set_queue_head w p) = locked w" "qlocked (set_queue_head w p) = qlocked w"
    "timeout (set_queue_head w p) = timeout w"
    using p by (auto simp: set_queue_head_def bit_simps bit_consts low_bits)
  show "queue_head (set_queue_head w p) = p"
    by (rule bit_word_eqI)
       (auto simp: set_queue_head_def bit_simps bit_consts low_bits bit_queue_head dest: p(4))
qed

lemma or_layout [layout]:
  "locked (w OR LOCKED_BIT)" "qlocked (w OR LOCKED_BIT) = qlocked w"
  "timeout (w OR LOCKED_BIT) = timeout w" "queue_head (w OR LOCKED_BIT) = queue_head w"
  "locked (w OR QUEUE_LOCKED_BIT) = locked w" "qlocked (w OR QUEUE_LOCKED_BIT)"
  "timeout (w OR QUEUE_LOCKED_BIT) = timeout w" "queue_head (w OR QUEUE_LOCKED_BIT) = queue_head w"
  "locked (w OR TIMEOUT_BIT) = locked w" "qlocked (w OR TIMEOUT_BIT) = qlocked w"
  "timeout (w OR TIMEOUT_BIT)" "queue_head (w OR TIMEOUT_BIT) = queue_head w" for w :: u64
  by (auto simp: bit_simps bit_consts low_bits intro!: queue_head_eqI)

lemma and_not_layout [layout]:
  "\<not> locked (w AND NOT LOCKED_BIT)" "qlocked (w AND NOT LOCKED_BIT) = qlocked w"
  "timeout (w AND NOT LOCKED_BIT) = timeout w" "queue_head (w AND NOT LOCKED_BIT) = queue_head w"
  "locked (w AND NOT QUEUE_LOCKED_BIT) = locked w" "\<not> qlocked (w AND NOT QUEUE_LOCKED_BIT)"
  "timeout (w AND NOT QUEUE_LOCKED_BIT) = timeout w"
  "queue_head (w AND NOT QUEUE_LOCKED_BIT) = queue_head w"
  "\<not> locked (w AND NOT (LOCKED_BIT OR TIMEOUT_BIT))"
  "qlocked (w AND NOT (LOCKED_BIT OR TIMEOUT_BIT)) = qlocked w"
  "\<not> timeout (w AND NOT (LOCKED_BIT OR TIMEOUT_BIT))"
  "queue_head (w AND NOT (LOCKED_BIT OR TIMEOUT_BIT)) = queue_head w"
  "locked (w AND NOT (QUEUE_LOCKED_BIT OR TIMEOUT_BIT)) = locked w"
  "\<not> qlocked (w AND NOT (QUEUE_LOCKED_BIT OR TIMEOUT_BIT))"
  "\<not> timeout (w AND NOT (QUEUE_LOCKED_BIT OR TIMEOUT_BIT))"
  "queue_head (w AND NOT (QUEUE_LOCKED_BIT OR TIMEOUT_BIT)) = queue_head w" for w :: u64
  by (auto simp: bit_simps bit_consts low_bits simp del: bit_not_iff_eq bit.conj_disj_distrib
      intro!: queue_head_eqI dest: bit_imp_le_length)

lemmas and_not_normal_layout [layout] = and_not_layout(9-16) [simplified bit.de_Morgan_disj]

lemma and_layout [layout]:
  "locked (w AND LOCKED_BIT) = locked w" "\<not> qlocked (w AND LOCKED_BIT)"
  "\<not> timeout (w AND LOCKED_BIT)" "queue_head (w AND LOCKED_BIT) = null"
  "locked (w AND (LOCKED_BIT OR TIMEOUT_BIT)) = locked w"
  "\<not> qlocked (w AND (LOCKED_BIT OR TIMEOUT_BIT))"
  "timeout (w AND (LOCKED_BIT OR TIMEOUT_BIT)) = timeout w"
  "queue_head (w AND (LOCKED_BIT OR TIMEOUT_BIT)) = null"
  "\<not> locked (w AND QUEUE_MASK)" "\<not> qlocked (w AND QUEUE_MASK)"
  "\<not> timeout (w AND QUEUE_MASK)" "queue_head (w AND QUEUE_MASK) = queue_head w" for w :: u64
  by (auto simp: bit_simps bit_consts low_bits bit_queue_head
      intro!: queue_head_eqI bit_word_eqI dest: bit_imp_le_length)

lemma idle_layout [layout]:
  "\<not> locked IDLE" "\<not> qlocked IDLE" "\<not> timeout IDLE" "queue_head IDLE = null"
  "locked LOCKED_BIT" "\<not> qlocked LOCKED_BIT" "\<not> timeout LOCKED_BIT" "queue_head LOCKED_BIT = null"
  by (auto simp: bit_consts low_bits bit_1_iff bit_queue_head intro!: bit_word_eqI)

text \<open>\<open>fetch_sub(LOCKED_BIT)\<close> on a locked word only clears the flag; no borrow reaches the rest.\<close>

lemma sub_locked:
  assumes "locked w"
  shows "w - LOCKED_BIT = w AND NOT LOCKED_BIT"
proof -
  have "w = (w AND NOT 1) OR (w AND 1)"
    by (rule bit_word_eqI) (auto simp: bit_simps)
  also have "\<dots> = (w AND NOT 1) + (w AND 1)"
    by (rule disjunctive_add [symmetric]) (auto simp: bit_simps low_bits)
  also have "w AND 1 = 1"
    using assms by (simp add: and_one_eq bit_0 odd_iff_mod_2_eq_one)
  finally show ?thesis by (simp add: LOCKED_BIT_def algebra_simps)
qed

lemma sub_locked_layout [layout]:
  assumes "locked w"
  shows "\<not> locked (w - LOCKED_BIT)" "qlocked (w - LOCKED_BIT) = qlocked w"
    "timeout (w - LOCKED_BIT) = timeout w" "queue_head (w - LOCKED_BIT) = queue_head w"
  unfolding sub_locked [OF assms] by (simp_all only: layout not_False_eq_True)

subsection \<open>Reading back what was written\<close>

text \<open>On a 32-bit target the address is shifted past the flags; any address fits, no alignment is needed.\<close>

definition queue_head_32 :: "u64 \<Rightarrow> u32" where
  "queue_head_32 w = ucast (drop_bit 3 (w AND QUEUE_MASK))"

definition set_queue_head_32 :: "u64 \<Rightarrow> u32 \<Rightarrow> u64" where
  "set_queue_head_32 w p = (w AND NOT QUEUE_MASK) OR push_bit 3 (ucast p)"

lemma set_queue_head_id: "set_queue_head (set_queue_head v p) (queue_head w) = set_queue_head v (queue_head w)"
  if "valid_ptr p"
proof (rule bit_word_eqI)
  fix n :: nat
  show "bit (set_queue_head (set_queue_head v p) (queue_head w)) n = bit (set_queue_head v (queue_head w)) n"
    using valid_ptr_bits [OF that, of n]
    by (auto simp: set_queue_head_def bit_simps bit_consts low_bits bit_queue_head)
qed

lemma set_queue_head_same: "set_queue_head w (queue_head w) = w"
  by (rule bit_word_eqI)
     (auto simp: set_queue_head_def bit_simps bit_consts low_bits bit_queue_head)

lemma bit_queue_head_32: "bit (queue_head_32 w) n \<longleftrightarrow> n < 32 \<and> bit w (n + 3)"
proof -
  have "queue_head_32 w = ucast (drop_bit 3 (queue_head w))"
    by (simp only: queue_head_32_def queue_head_def)
  then show ?thesis by (auto simp: bit_simps bit_queue_head add.commute)
qed

lemma queue_head_32_set: "queue_head_32 (set_queue_head_32 w p) = p"
  by (rule bit_word_eqI)
     (auto simp: bit_queue_head_32 set_queue_head_32_def bit_simps bit_consts low_bits)

lemma flags_32:
  "locked (set_queue_head_32 w p) = locked w" "qlocked (set_queue_head_32 w p) = qlocked w"
  "timeout (set_queue_head_32 w p) = timeout w"
  by (auto simp: set_queue_head_32_def bit_simps bit_consts low_bits)

text \<open>
  C38: the word gives back what was stored in it: on both targets, reading the head after writing an
  address yields the address, the flags are those of the word before, and writing back the head
  that was read changes nothing. On 64 bits the address must be a multiple of 8.
\<close>

theorem queue_head_roundtrip:
  assumes "valid_ptr p"
  shows "queue_head (set_queue_head w p) = p \<and> set_queue_head w (queue_head w) = w \<and>
    set_queue_head (set_queue_head w p) (queue_head w) = w \<and>
    queue_head_32 (set_queue_head_32 w q) = q \<and>
    set_queue_head_32 (set_queue_head_32 w p') q = set_queue_head_32 w q \<and>
    (locked (set_queue_head w p), qlocked (set_queue_head w p), timeout (set_queue_head w p)) =
      (locked w, qlocked w, timeout w) \<and>
    (locked (set_queue_head_32 w q), qlocked (set_queue_head_32 w q), timeout (set_queue_head_32 w q)) =
      (locked w, qlocked w, timeout w)"
proof -
  have "set_queue_head_32 (set_queue_head_32 w p') q = set_queue_head_32 w q"
    by (rule bit_word_eqI) (auto simp: set_queue_head_32_def bit_simps bit_consts low_bits)
  then show ?thesis
    using set_queue_head_layout [OF assms] set_queue_head_id [OF assms, of w w]
    by (simp add: set_queue_head_same queue_head_32_set flags_32)
qed

theorem queue_head_roundtrip_witness:
  "queue_head (set_queue_head 7 4096) = 4096 \<and> queue_head_32 (set_queue_head_32 7 0xFFFFFFFF) = 0xFFFFFFFF"
  using queue_head_roundtrip [of 4096 7 "0xFFFFFFFF"] by (simp add: valid_ptr_def)

end
