(* ===== verification/Utils.thy ===== *)
theory Utils
  imports Prelude
begin

section \<open>mekong9-utils: branch hints, backoff, cache padding\<close>

text \<open>
  What the thread asks of the processor or of the scheduler while it waits is recorded as a list
  of hints: \<open>core::hint::spin_loop\<close> and \<open>std::thread::yield_now\<close>.
\<close>

datatype hint = Spin_loop | Yield_now

subsection \<open>hint.rs\<close>

definition likely :: "bool \<Rightarrow> bool" where
  "likely b = (if b then True else False)"

definition unlikely :: "bool \<Rightarrow> bool" where
  "unlikely b = (if b then True else False)"

lemma likely_id [simp]: "likely b = b"
  by (simp add: likely_def)

lemma unlikely_id [simp]: "unlikely b = b"
  by (simp add: unlikely_def)

subsection \<open>backoff.rs\<close>

definition SPIN_LIMIT :: u32 where "SPIN_LIMIT = 6"
definition YIELD_LIMIT :: u32 where "YIELD_LIMIT = 10"

record backoff =
  bstep :: u32

definition backoff_default :: backoff where
  "backoff_default = \<lparr>bstep = 0\<rparr>"

definition backoff_reset :: "backoff \<Rightarrow> backoff" where
  "backoff_reset b = b\<lparr>bstep := 0\<rparr>"

definition backoff_spin :: "backoff \<Rightarrow> hint list \<times> backoff" where
  "backoff_spin b =
    (replicate (2 ^ unat (min (bstep b) SPIN_LIMIT)) Spin_loop,
     if bstep b \<le> SPIN_LIMIT then b\<lparr>bstep := bstep b + 1\<rparr> else b)"

definition snooze :: "backoff \<Rightarrow> hint list \<times> backoff" where
  "snooze b =
    (if bstep b \<le> SPIN_LIMIT
     then (replicate (2 ^ unat (bstep b)) Spin_loop, b\<lparr>bstep := bstep b + 1\<rparr>)
     else ([Yield_now], b))"

definition snooze_completed :: "backoff \<Rightarrow> hint list \<times> bool \<times> backoff" where
  "snooze_completed b =
    (let hints = (if likely (bstep b \<le> SPIN_LIMIT)
                  then replicate (2 ^ unat (bstep b)) Spin_loop else [Yield_now])
     in if likely (bstep b \<le> YIELD_LIMIT)
        then (hints, False, b\<lparr>bstep := bstep b + 1\<rparr>)
        else (hints, True, b))"

text \<open>Calling \<open>snooze_completed\<close> again and again: the answers in order.\<close>

fun snooze_answers :: "nat \<Rightarrow> backoff \<Rightarrow> bool list" where
  "snooze_answers 0 b = []"
| "snooze_answers (Suc n) b =
    (case snooze_completed b of (_, r, b') \<Rightarrow> r # snooze_answers n b')"

lemma snooze_answers_from:
  assumes "bstep b = of_nat k" and "k \<le> 11"
  shows "snooze_answers n b = replicate (min n (11 - k)) False @ replicate (n - (11 - k)) True"
  using assms
proof (induction n arbitrary: b k)
  case 0
  then show ?case by simp
next
  case (Suc n)
  show ?case
  proof (cases "k = 11")
    case True
    with Suc.prems have "snooze_completed b = ([Yield_now], True, b)"
      by (simp add: snooze_completed_def SPIN_LIMIT_def YIELD_LIMIT_def)
    with Suc.IH [OF Suc.prems] True show ?thesis by simp
  next
    case False
    with Suc.prems have le: "bstep b \<le> YIELD_LIMIT"
      by (simp add: YIELD_LIMIT_def word_le_nat_alt unat_of_nat)
    then have "snooze_answers (Suc n) b = False # snooze_answers n (b\<lparr>bstep := bstep b + 1\<rparr>)"
      by (simp add: snooze_completed_def Let_def)
    also have "\<dots> = False # (replicate (min n (11 - Suc k)) False @ replicate (n - (11 - Suc k)) True)"
      using Suc.prems False by (subst Suc.IH [of _ "Suc k"]) (simp_all add: add.commute)
    also have "\<dots> = replicate (min (Suc n) (11 - k)) False @ replicate (Suc n - (11 - k)) True"
    proof -
      have "11 - k = Suc (10 - k)" using Suc.prems(2) False by simp
      then show ?thesis by (simp add: min_def)
    qed
    finally show ?thesis .
  qed
qed

text \<open>
  After a reset, \<open>snooze_completed\<close> advises to keep backing off for exactly eleven
  calls and from the twelfth call on advises to block.
\<close>

lemma snooze_completed_after_eleven:
  "snooze_answers n (backoff_reset b) = replicate (min n 11) False @ replicate (n - 11) True"
  using snooze_answers_from [of "backoff_reset b" 0 n] by (simp add: backoff_reset_def)

text \<open>
  Whatever mixture of calls led to a step of at most 11, one backoff call keeps the step
  at most 11 and spins at most 64 times.
\<close>

lemma backoff_bounded:
  assumes "bstep b \<le> 11"
  shows "length (fst (backoff_spin b)) \<le> 64 \<and> bstep (snd (backoff_spin b)) \<le> 11 \<and>
    length (fst (snooze b)) \<le> 64 \<and> bstep (snd (snooze b)) \<le> 11 \<and>
    length (fst (snooze_completed b)) \<le> 64 \<and> bstep (snd (snd (snooze_completed b))) \<le> 11"
proof -
  have pow: "(2 :: nat) ^ unat k \<le> 64" if "k \<le> 6" for k :: u32
  proof -
    have "unat k \<le> 6" using that by (simp add: word_le_nat_alt)
    then have "(2 :: nat) ^ unat k \<le> 2 ^ 6" by (rule power_increasing) simp
    then show ?thesis by simp
  qed
  have step: "k + 1 \<le> 11" if "k \<le> 10" for k :: u32
    using that by unat_arith
  have "k \<le> 10" if "k \<le> 6" for k :: u32
    using that by unat_arith
  then show ?thesis
    using assms pow [of "min (bstep b) 6"] pow [of "bstep b"] step [of "bstep b"]
    by (simp add: backoff_spin_def snooze_def snooze_completed_def SPIN_LIMIT_def YIELD_LIMIT_def
        Let_def)
qed

subsection \<open>cache\_padded.rs\<close>

datatype arch = X86 | X86_64 | Aarch64 | Powerpc64 | Arm | Mips | Mips32r6 | Mips64 | Mips64r6
  | Sparc | Hexagon | M68k | S390x | Other_arch

definition cache_align :: "arch \<Rightarrow> nat" where
  "cache_align a =
    (if a \<in> {X86_64, Aarch64, Powerpc64} then 128
     else if a \<in> {Arm, Mips, Mips32r6, Mips64, Mips64r6, Sparc, Hexagon} then 32
     else if a = M68k then 16
     else if a = S390x then 256
     else 64)"

record 'a cache_padded =
  cvalue :: 'a

definition cache_padded_new :: "'a \<Rightarrow> 'a cache_padded" where
  "cache_padded_new t = \<lparr>cvalue = t\<rparr>"

definition deref :: "'a cache_padded \<Rightarrow> 'a" where
  "deref c = cvalue c"

definition deref_mut :: "'a cache_padded \<Rightarrow> ('a \<Rightarrow> 'a) \<Rightarrow> 'a cache_padded" where
  "deref_mut c f = c\<lparr>cvalue := f (cvalue c)\<rparr>"

lemma deref_new: "deref (cache_padded_new t) = t"
  by (simp add: deref_def cache_padded_new_def)

lemma deref_deref_mut: "deref (deref_mut c f) = f (deref c)"
  by (simp add: deref_def deref_mut_def)

end
