(* ===== verification/Spin_Wait.thy ===== *)
theory Spin_Wait
  imports Utils
begin

section \<open>SpinWait (mekong9-sync/src/internal/spin\_wait.rs)\<close>

record spin_wait =
  counter :: u32

definition spin_wait_new :: spin_wait where
  "spin_wait_new = \<lparr>counter = 0\<rparr>"

definition spin_wait_reset :: "spin_wait \<Rightarrow> spin_wait" where
  "spin_wait_reset w = w\<lparr>counter := 0\<rparr>"

definition cpu_relax :: "u32 \<Rightarrow> hint list" where
  "cpu_relax iterations = replicate (unat iterations) Spin_loop"

definition spin :: "spin_wait \<Rightarrow> hint list \<times> bool \<times> spin_wait" where
  "spin w =
    (if counter w \<ge> 10 then ([], False, w)
     else
       let w = w\<lparr>counter := counter w + 1\<rparr> in
       if counter w \<le> 3 then (cpu_relax (push_bit (unat (counter w)) 1), True, w)
       else ([Yield_now], True, w))"

definition spin_no_yield :: "spin_wait \<Rightarrow> hint list \<times> spin_wait" where
  "spin_no_yield w =
    (let w = w\<lparr>counter := counter w + 1\<rparr>;
         w = (if counter w > 10 then w\<lparr>counter := 10\<rparr> else w)
     in (cpu_relax (push_bit (unat (counter w)) 1), w))"

text \<open>What a loop that calls \<open>spin\<close> only needs: the answer and the new counter.\<close>

definition spins :: "spin_wait \<Rightarrow> bool" where
  "spins w = fst (snd (spin w))"

definition after_spin :: "spin_wait \<Rightarrow> spin_wait" where
  "after_spin w = snd (snd (spin w))"

lemma spins_iff: "spins w \<longleftrightarrow> counter w < 10"
  by (cases "counter w < 10") (auto simp: spins_def spin_def Let_def not_less dest: leD)

lemma counter_after_spin:
  "counter (after_spin w) = (if counter w < 10 then counter w + 1 else counter w)"
  by (auto simp: after_spin_def spin_def Let_def not_less dest: leD)

text \<open>Calling \<open>spin\<close> until it says stop: how often it said go on.\<close>

function spin_rounds :: "spin_wait \<Rightarrow> nat" where
  "spin_rounds w = (if spins w then Suc (spin_rounds (after_spin w)) else 0)"
  by pat_completeness auto
termination
proof (relation "measure (\<lambda>w. 10 - unat (counter w))")
  fix w assume "spins w"
  then have "counter w < 10" by (simp add: spins_iff)
  then have "unat (counter w) < 10" and "unat (counter w + 1) = unat (counter w) + 1"
    by (simp_all add: word_less_nat_alt unat_word_ariths)
  with \<open>counter w < 10\<close> show "(after_spin w, w) \<in> measure (\<lambda>w. 10 - unat (counter w))"
    by (simp add: counter_after_spin)
qed simp

declare spin_rounds.simps [simp del]

lemma spin_rounds_eq: "spin_rounds w = 10 - unat (counter w)"
proof (induction w rule: spin_rounds.induct)
  case (1 w)
  show ?case
  proof (cases "counter w < 10")
    case True
    then have "unat (counter w) < 10" and "unat (counter w + 1) = unat (counter w) + 1"
      by (simp_all add: word_less_nat_alt unat_word_ariths)
    with 1 True show ?thesis
      by (subst spin_rounds.simps) (simp add: spins_iff counter_after_spin)
  next
    case False
    then show ?thesis
      by (subst spin_rounds.simps) (simp add: spins_iff word_less_nat_alt)
  qed
qed

text \<open>
  From a fresh or reset counter, a loop that spins until \<open>spin\<close> returns false spins ten
  times and then stops; the threshold is reached when the answer is \<open>false\<close>.
\<close>

lemma spin_ten_rounds:
  "spin_rounds (spin_wait_reset w) = 10 \<and> (fst (snd (spin w)) \<longleftrightarrow> counter w < 10)"
  using spins_iff [of w] by (simp add: spin_rounds_eq spin_wait_reset_def spins_def)

text \<open>
  \<open>spin_no_yield\<close> from any counter up to 10 keeps it between 1 and 10 and relaxes the
  processor at most 1024 times, so the shift cannot overflow.
\<close>

lemma spin_no_yield_bounded:
  assumes "counter w \<le> 10"
  shows "1 \<le> counter (snd (spin_no_yield w)) \<and> counter (snd (spin_no_yield w)) \<le> 10 \<and>
    length (fst (spin_no_yield w)) \<le> 1024"
proof -
  let ?k = "if counter w + 1 > 10 then 10 else counter w + 1"
  have all: "\<forall>n \<in> set [0..<11]. unat (push_bit n 1 :: u32) \<le> 1024" by code_simp
  have "unat (counter w + 1) = unat (counter w) + 1"
    using assms by (simp add: word_le_nat_alt unat_word_ariths)
  then have k: "1 \<le> ?k" "?k \<le> 10"
    by (auto simp: word_le_nat_alt word_less_nat_alt)
  then have "unat ?k \<le> 10" by (simp add: word_le_nat_alt)
  then have "unat ?k \<in> set [0..<11]" by auto
  with all have "unat (push_bit (unat ?k) 1 :: u32) \<le> 1024" by blast
  moreover have "counter (snd (spin_no_yield w)) = ?k"
    by (simp add: spin_no_yield_def Let_def)
  moreover have "length (fst (spin_no_yield w)) = unat (push_bit (unat ?k) 1 :: u32)"
    by (simp only: spin_no_yield_def Let_def cpu_relax_def fst_conv length_replicate) simp
  ultimately show ?thesis using k by (simp only:)
qed

end
