(* ===== verification/Fair_Timeout.thy ===== *)
theory Fair_Timeout
  imports Prelude
begin

section \<open>FairTimeout (mekong9-sync/src/internal/parking/time.rs)\<close>

text \<open>
  An \<open>Instant\<close> is the number of nanoseconds since the clock's origin; the standard library keeps
  the seconds in an \<open>i64\<close>, and \<open>Instant + Duration\<close> panics when the sum does not fit. The current
  time is an argument of the operation that reads the clock.
\<close>

type_synonym instant = nat

definition INSTANT_END :: int where "INSTANT_END = 9223372036854775808000000000" \<comment> \<open>\<open>2 ^ 63\<close> s\<close>

text \<open>\<open>t + Duration::new(0, nanos)\<close>.\<close>

definition instant_add :: "instant \<Rightarrow> u32 \<Rightarrow> instant option" where
  "instant_add t nanos = (if int t + uint nanos < INSTANT_END then Some (t + unat nanos) else None)"

record fair_timeout =
  deadline :: instant
  seed :: u32

definition fair_timeout_new :: "instant \<Rightarrow> u32 \<Rightarrow> fair_timeout" where
  "fair_timeout_new t s = \<lparr>deadline = t, seed = s\<rparr>"

definition xorshift :: "u32 \<Rightarrow> u32" where
  "xorshift s =
    (let s = s XOR push_bit 13 s;
         s = s XOR drop_bit 17 s;
         s = s XOR push_bit 5 s
     in s)"

definition gen_u32 :: "fair_timeout \<Rightarrow> u32 \<times> fair_timeout" where
  "gen_u32 ft = (let s = xorshift (seed ft) in (s, ft\<lparr>seed := s\<rparr>))"

definition is_timeout :: "instant \<Rightarrow> fair_timeout \<Rightarrow> (bool \<times> fair_timeout) option" where
  "is_timeout now ft =
    (if now > deadline ft then
       let (r, ft) = gen_u32 ft;
           nanos = r mod 1000000
       in do { t \<leftarrow> instant_add now nanos; Some (True, ft\<lparr>deadline := t\<rparr>) }
     else Some (False, ft))"

lemma xorshift_inj: "xorshift a = xorshift b \<longleftrightarrow> a = b"
  by (simp only: xorshift_def Let_def inj_mix zero_less_numeral)

text \<open>
  The generator step is a permutation of the 32-bit states whose only orbit of length one
  through 0 is 0 itself: a non-zero seed never becomes 0, a zero seed stays 0.
\<close>

lemma xorshift_permutation: "bij xorshift \<and> (xorshift s = 0 \<longleftrightarrow> s = 0)"
proof -
  have "xorshift 0 = 0" by (simp add: xorshift_def)
  then show ?thesis
    using xorshift_inj [of s 0] word_inj_bij [of xorshift] by (simp add: xorshift_inj)
qed

lemma is_timeout_fires:
  assumes "deadline ft < now" "int now + 1000000 \<le> INSTANT_END"
  shows "\<exists>d < 1000000. is_timeout now ft = Some (True, \<lparr>deadline = now + d, seed = xorshift (seed ft)\<rparr>)"
proof -
  have "unat (xorshift (seed ft) mod 1000000) < 1000000" "uint (xorshift (seed ft) mod 1000000) < 1000000"
    by (simp_all add: unat_mod uint_mod)
  with assms show ?thesis
    by (intro exI [of _ "unat (xorshift (seed ft) mod 1000000)"])
       (simp add: is_timeout_def gen_u32_def instant_add_def Let_def)
qed

text \<open>
  A fair unlock is forced exactly when the deadline has passed; it then moves the deadline
  to less than a millisecond after now, so a second one is not forced before that, and one is
  forced again at the latest a millisecond after now. Otherwise nothing changes. Before the last
  millisecond of the clock nothing panics.
\<close>

lemma is_timeout_window:
  assumes "int now + 1000000 \<le> INSTANT_END"
  shows "\<exists>b ft'. is_timeout now ft = Some (b, ft') \<and> (b \<longleftrightarrow> deadline ft < now) \<and> (\<not> b \<longrightarrow> ft' = ft) \<and>
    (b \<longrightarrow> now \<le> deadline ft' \<and> deadline ft' < now + 1000000)"
proof (cases "deadline ft < now")
  case True
  from is_timeout_fires [OF this assms] True show ?thesis by fastforce
next
  case False
  then show ?thesis by (intro exI [of _ False] exI [of _ ft]) (simp add: is_timeout_def)
qed

end
