(* ===== verification/Raw_Mutex.thy ===== *)
theory Raw_Mutex
  imports Lock_State Spin_Wait Fair_Timeout
begin

section \<open>RawMutex: the operations (parking/auxiliary.rs)\<close>

text \<open>
  The mutex as a machine of interleaved atomic steps. A thread is named by the address of the
  \<open>ThreadData\<close> that \<open>with_thread_data\<close> places in its frame; the node exists from the push
  onto the queue until \<open>park\<close> returns. Each step is one access to the state word (or one
  group of accesses to nodes, which only the owner of the queue lock touches) together with
  the local computation up to the next access; a load is merged with the branch on the loaded
  value. A step that reads or writes a node that does not exist is a \<open>Fault\<close>. A weak
  compare-exchange may fail spuriously. The parker of a node is its contract: \<open>unpark\<close> leaves
  a token, \<open>park\<close> returns when there is one.
\<close>

definition TOKEN_HANDOFF :: u64 where "TOKEN_HANDOFF = TIMEOUT_BIT"

record thread_data =
  parker :: bool
  unpark_token :: u64
  queue_tail :: ptr
  prev :: ptr
  "next" :: ptr

definition thread_data_new :: thread_data where
  "thread_data_new = \<lparr>parker = False, unpark_token = 0, queue_tail = null, prev = null, next = null\<rparr>"

record raw_mutex =
  state :: u64
  fair :: fair_timeout

text \<open>The two unlock paths that remove a waiter: \<open>unlock_slow\<close> and \<open>unlock_slow_fair\<close>.\<close>

datatype mode = Plain | Fair

text \<open>
  Where a thread is, with the locals that are live there: \<open>sw\<close> the spin counter, \<open>st\<close> the
  local \<open>state\<close>, \<open>cur\<close> the local \<open>current\<close>, \<open>qt\<close> the local \<open>queue_tail\<close>.
\<close>

datatype pc =
    Idle
  | Slow_load spin_wait
  | Slow_loop spin_wait u64
  | Parked spin_wait
  | Critical
  | Fair_or
  | Fair_and u64
  | Unlock_load
  | Unlock_loop u64
  | Fair_load spin_wait
  | Fair_loop spin_wait u64
  | Fair_clear
  | Scan mode u64 ptr
  | Scanned mode u64 ptr
  | Release u64
  | Pop_last mode u64 ptr
  | Pop_clear mode ptr
  | Wake mode ptr

text \<open>The mutex, the nodes in memory and the threads.\<close>

record sys = raw_mutex +
  heap :: "ptr \<Rightarrow> thread_data option"
  pc :: "ptr \<Rightarrow> pc"

text \<open>What the environment chooses: the client's call, spurious failures and the clock.\<close>

datatype call = Call_lock | Call_try_lock | Call_unlock | Call_unlock_fair

record env =
  call :: call
  spurious :: bool
  now :: instant

datatype 'a outcome = Blocked | Fault | Next 'a

subsection \<open>Accesses to the shared memory\<close>

definition goto :: "ptr \<Rightarrow> pc \<Rightarrow> sys \<Rightarrow> sys" where
  "goto t c s = s\<lparr>pc := (pc s)(t := c)\<rparr>"

text \<open>\<open>compare_exchange_weak\<close> succeeds only on the expected value.\<close>

definition cas_ok :: "env \<Rightarrow> sys \<Rightarrow> u64 \<Rightarrow> bool" where
  "cas_ok e s old \<longleftrightarrow> \<not> spurious e \<and> state s = old"

definition store :: "u64 \<Rightarrow> sys \<Rightarrow> sys" where
  "store w s = s\<lparr>state := w\<rparr>"

definition deref :: "sys \<Rightarrow> ptr \<Rightarrow> (thread_data \<Rightarrow> sys outcome) \<Rightarrow> sys outcome" where
  "deref s p k = (case heap s p of None \<Rightarrow> Fault | Some d \<Rightarrow> k d)"

definition write_node :: "ptr \<Rightarrow> thread_data \<Rightarrow> sys \<Rightarrow> sys" where
  "write_node p d s = s\<lparr>heap := (heap s)(p \<mapsto> d)\<rparr>"

definition free_node :: "ptr \<Rightarrow> sys \<Rightarrow> sys" where
  "free_node p s = s\<lparr>heap := (heap s)(p := None)\<rparr>"

subsection \<open>RawMutex::new, try\_lock and lock\<close>

definition raw_mutex_new :: "instant \<Rightarrow> u32 \<Rightarrow> raw_mutex" where
  "raw_mutex_new t r = \<lparr>state = IDLE, fair = fair_timeout_new t r\<rparr>"

definition init_sys :: "instant \<Rightarrow> u32 \<Rightarrow> sys" where
  "init_sys t r =
    raw_mutex.extend (raw_mutex_new t r) \<lparr>heap = (\<lambda>_. None), pc = (\<lambda>_. Idle)\<rparr>"

definition try_lock :: "env \<Rightarrow> ptr \<Rightarrow> sys \<Rightarrow> sys outcome" where
  "try_lock e t s =
    (if cas_ok e s IDLE then Next (goto t Critical (store LOCKED_BIT s)) else Next (goto t Idle s))"

definition lock :: "env \<Rightarrow> ptr \<Rightarrow> sys \<Rightarrow> sys outcome" where
  "lock e t s =
    (if cas_ok e s IDLE then Next (goto t Critical (store LOCKED_BIT s))
     else Next (goto t (Slow_load spin_wait_new) s))"

text \<open>\<open>park!\<close>: a fresh node is filled in and pushed; when the push fails it is gone again.\<close>

definition park_node :: "ptr \<Rightarrow> u64 \<Rightarrow> thread_data" where
  "park_node t st =
    (let d = thread_data_new\<lparr>unpark_token := 0\<rparr>; head = queue_head st in
     if head = null then d\<lparr>queue_tail := t, prev := null\<rparr>
     else d\<lparr>queue_tail := null, prev := null, next := head\<rparr>)"

definition park_push :: "env \<Rightarrow> ptr \<Rightarrow> spin_wait \<Rightarrow> u64 \<Rightarrow> sys \<Rightarrow> sys outcome" where
  "park_push e t w st s =
    (if cas_ok e s st
     then Next (goto t (Parked w) (store (set_queue_head st t) (write_node t (park_node t st) s)))
     else Next (goto t (Slow_loop w (state s)) s))"

text \<open>\<open>parker.park()\<close> returns once unparked; the token says whether the lock was handed over.\<close>

definition park_return :: "ptr \<Rightarrow> spin_wait \<Rightarrow> sys \<Rightarrow> sys outcome" where
  "park_return t w s =
    deref s t (\<lambda>d.
      if \<not> parker d then Blocked
      else if unpark_token d = TOKEN_HANDOFF then Next (goto t Critical (free_node t s))
      else Next (goto t (Slow_load (spin_wait_reset w)) (free_node t s)))"

definition lock_slow_load :: "ptr \<Rightarrow> spin_wait \<Rightarrow> sys \<Rightarrow> sys outcome" where
  "lock_slow_load t w s = Next (goto t (Slow_loop w (state s)) s)"

definition lock_slow_loop :: "env \<Rightarrow> ptr \<Rightarrow> spin_wait \<Rightarrow> u64 \<Rightarrow> sys \<Rightarrow> sys outcome" where
  "lock_slow_loop e t w st s =
    (if st AND LOCKED_BIT = 0 then
       (if cas_ok e s st then Next (goto t Critical (store (st OR LOCKED_BIT) s))
        else Next (goto t (Slow_loop w (state s)) s))
     else if queue_head st = null then
       (if spins w then Next (goto t (Slow_loop (after_spin w) (state s)) s)
        else park_push e t (after_spin w) st s)
     else park_push e t w st s)"

subsection \<open>unlock and unlock\_fair\<close>

text \<open>What both do after giving up the lock, by the value the state had before.\<close>

definition after_unlock :: "ptr \<Rightarrow> u64 \<Rightarrow> sys \<Rightarrow> sys outcome" where
  "after_unlock t old s =
    (if is_queue_locked old \<or> queue_head old = null then Next (goto t Idle s)
     else Next (goto t Unlock_load s))"

definition unlock :: "ptr \<Rightarrow> sys \<Rightarrow> sys outcome" where
  "unlock t s = after_unlock t (state s) (store (state s - LOCKED_BIT) s)"

text \<open>
  When \<open>is_timeout\<close> panics, at the end of the clock, the thread goes no further and the lock stays
  held: there is no step.
\<close>

definition unlock_fair :: "env \<Rightarrow> ptr \<Rightarrow> sys \<Rightarrow> sys outcome" where
  "unlock_fair e t s =
    (case is_timeout (now e) (fair s) of
       None \<Rightarrow> Blocked
     | Some (expired, f) \<Rightarrow>
         let s = s\<lparr>fair := f\<rparr> in
         if expired then Next (goto t Fair_or s) else Next (goto t (Fair_and LOCKED_BIT) s))"

definition unlock_fair_or :: "ptr \<Rightarrow> sys \<Rightarrow> sys outcome" where
  "unlock_fair_or t s =
    (let old = state s; s = store (old OR TIMEOUT_BIT) s in
     if queue_head old \<noteq> null then Next (goto t (Fair_load spin_wait_new) s)
     else Next (goto t (Fair_and (LOCKED_BIT OR TIMEOUT_BIT)) s))"

definition unlock_fair_and :: "ptr \<Rightarrow> u64 \<Rightarrow> sys \<Rightarrow> sys outcome" where
  "unlock_fair_and t b s = after_unlock t (state s) (store (state s AND NOT b) s)"

subsection \<open>unlock\_slow and unlock\_slow\_fair: taking the queue lock\<close>

definition scan_from :: "mode \<Rightarrow> u64 \<Rightarrow> pc" where
  "scan_from m st = Scan m st (queue_head st)"

definition unlock_slow_check :: "ptr \<Rightarrow> u64 \<Rightarrow> sys \<Rightarrow> sys outcome" where
  "unlock_slow_check t st s =
    (if is_queue_locked st \<or> queue_head st = null then Next (goto t Idle s)
     else Next (goto t (Unlock_loop st) s))"

definition unlock_slow_loop :: "env \<Rightarrow> ptr \<Rightarrow> u64 \<Rightarrow> sys \<Rightarrow> sys outcome" where
  "unlock_slow_loop e t st s =
    (if cas_ok e s st
     then Next (goto t (scan_from Plain st) (store (st OR QUEUE_LOCKED_BIT) s))
     else unlock_slow_check t (state s) s)"

definition unlock_slow_fair_loop :: "env \<Rightarrow> ptr \<Rightarrow> spin_wait \<Rightarrow> u64 \<Rightarrow> sys \<Rightarrow> sys outcome" where
  "unlock_slow_fair_loop e t w st s =
    (if is_queue_locked st then
       (let w' = (if spins w then after_spin w else spin_wait_reset (after_spin w)) in
        Next (goto t (Fair_loop w' (state s)) s))
     else if cas_ok e s st then
       Next (goto t (if queue_head st = null then Fair_clear else scan_from Fair st)
               (store (st OR QUEUE_LOCKED_BIT) s))
     else Next (goto t (Fair_loop w (state s)) s))"

definition unlock_slow_fair_clear :: "ptr \<Rightarrow> sys \<Rightarrow> sys outcome" where
  "unlock_slow_fair_clear t s = Next (goto t Idle (store (state s AND QUEUE_MASK) s))"

subsection \<open>Walking the queue and removing its last node\<close>

definition link_prev_nodes :: "ptr \<Rightarrow> mode \<Rightarrow> u64 \<Rightarrow> ptr \<Rightarrow> sys \<Rightarrow> sys outcome" where
  "link_prev_nodes t m st cur s =
    deref s cur (\<lambda>d.
      if queue_tail d \<noteq> null then Next (goto t (Scanned m st (queue_tail d)) s)
      else deref s (next d) (\<lambda>n.
        Next (goto t (Scan m st (next d)) (write_node (next d) (n\<lparr>prev := cur\<rparr>) s))))"

text \<open>\<open>(*p).queue_tail.set(q)\<close>.\<close>

definition set_tail :: "ptr \<Rightarrow> ptr \<Rightarrow> (sys \<Rightarrow> sys outcome) \<Rightarrow> sys \<Rightarrow> sys outcome" where
  "set_tail p q k s = deref s p (\<lambda>d. k (write_node p (d\<lparr>queue_tail := q\<rparr>) s))"

definition take_tail :: "ptr \<Rightarrow> mode \<Rightarrow> u64 \<Rightarrow> ptr \<Rightarrow> sys \<Rightarrow> sys outcome" where
  "take_tail t m st qt s =
    deref s qt (\<lambda>d.
      if prev d = null then Next (goto t (Pop_last m st qt) s)
      else set_tail (queue_head st) (prev d) (\<lambda>s. Next (goto t (Pop_clear m qt) s)) s)"

definition unlock_slow_scanned :: "ptr \<Rightarrow> u64 \<Rightarrow> ptr \<Rightarrow> sys \<Rightarrow> sys outcome" where
  "unlock_slow_scanned t st qt s =
    set_tail (queue_head st) qt
      (\<lambda>s. if st AND LOCKED_BIT \<noteq> 0 then Next (goto t (Release st) s)
           else take_tail t Plain st qt s) s"

definition unlock_slow_fair_scanned :: "ptr \<Rightarrow> u64 \<Rightarrow> ptr \<Rightarrow> sys \<Rightarrow> sys outcome" where
  "unlock_slow_fair_scanned t st qt s =
    set_tail (queue_head st) qt (take_tail t Fair st qt) s"

definition unlock_slow_release :: "env \<Rightarrow> ptr \<Rightarrow> u64 \<Rightarrow> sys \<Rightarrow> sys outcome" where
  "unlock_slow_release e t st s =
    (if cas_ok e s st then Next (goto t Idle (store (st AND NOT QUEUE_LOCKED_BIT) s))
     else Next (goto t (scan_from Plain (state s)) s))"

text \<open>A failed exchange retries on an empty queue and rescans a queue that has grown.\<close>

definition pop_retry :: "ptr \<Rightarrow> mode \<Rightarrow> ptr \<Rightarrow> sys \<Rightarrow> sys outcome" where
  "pop_retry t m qt s =
    (if queue_head (state s) = null then Next (goto t (Pop_last m (state s) qt) s)
     else Next (goto t (scan_from m (state s)) s))"

definition unlock_slow_pop_last :: "env \<Rightarrow> ptr \<Rightarrow> u64 \<Rightarrow> ptr \<Rightarrow> sys \<Rightarrow> sys outcome" where
  "unlock_slow_pop_last e t st qt s =
    (if cas_ok e s st
     then Next (goto t (Wake Plain qt) (store (st AND (LOCKED_BIT OR TIMEOUT_BIT)) s))
     else pop_retry t Plain qt s)"

definition unlock_slow_fair_pop_last :: "env \<Rightarrow> ptr \<Rightarrow> u64 \<Rightarrow> ptr \<Rightarrow> sys \<Rightarrow> sys outcome" where
  "unlock_slow_fair_pop_last e t st qt s =
    (if cas_ok e s st then Next (goto t (Wake Fair qt) (store (st AND LOCKED_BIT) s))
     else pop_retry t Fair qt s)"

definition unlock_slow_pop_clear :: "ptr \<Rightarrow> ptr \<Rightarrow> sys \<Rightarrow> sys outcome" where
  "unlock_slow_pop_clear t qt s =
    Next (goto t (Wake Plain qt) (store (state s AND NOT QUEUE_LOCKED_BIT) s))"

definition unlock_slow_fair_pop_clear :: "ptr \<Rightarrow> ptr \<Rightarrow> sys \<Rightarrow> sys outcome" where
  "unlock_slow_fair_pop_clear t qt s =
    Next (goto t (Wake Fair qt) (store (state s AND NOT (QUEUE_LOCKED_BIT OR TIMEOUT_BIT)) s))"

definition unlock_slow_wake :: "ptr \<Rightarrow> ptr \<Rightarrow> sys \<Rightarrow> sys outcome" where
  "unlock_slow_wake t qt s =
    deref s qt (\<lambda>d. Next (goto t Idle (write_node qt (d\<lparr>parker := True\<rparr>) s)))"

definition unlock_slow_fair_wake :: "ptr \<Rightarrow> ptr \<Rightarrow> sys \<Rightarrow> sys outcome" where
  "unlock_slow_fair_wake t qt s =
    deref s qt (\<lambda>d. Next (goto t Idle
      (write_node qt (d\<lparr>unpark_token := TOKEN_HANDOFF, parker := True\<rparr>) s)))"

subsection \<open>One step of a thread\<close>

definition on_idle :: "env \<Rightarrow> ptr \<Rightarrow> sys \<Rightarrow> sys outcome" where
  "on_idle e t s =
    (case call e of Call_lock \<Rightarrow> lock e t s | Call_try_lock \<Rightarrow> try_lock e t s | _ \<Rightarrow> Blocked)"

definition on_critical :: "env \<Rightarrow> ptr \<Rightarrow> sys \<Rightarrow> sys outcome" where
  "on_critical e t s =
    (case call e of Call_unlock \<Rightarrow> unlock t s | Call_unlock_fair \<Rightarrow> unlock_fair e t s | _ \<Rightarrow> Blocked)"

definition exec :: "env \<Rightarrow> ptr \<Rightarrow> sys \<Rightarrow> sys outcome" where
  "exec e t s =
    (case pc s t of
       Idle \<Rightarrow> on_idle e t s
     | Slow_load w \<Rightarrow> lock_slow_load t w s
     | Slow_loop w st \<Rightarrow> lock_slow_loop e t w st s
     | Parked w \<Rightarrow> park_return t w s
     | Critical \<Rightarrow> on_critical e t s
     | Fair_or \<Rightarrow> unlock_fair_or t s
     | Fair_and b \<Rightarrow> unlock_fair_and t b s
     | Unlock_load \<Rightarrow> unlock_slow_check t (state s) s
     | Unlock_loop st \<Rightarrow> unlock_slow_loop e t st s
     | Fair_load w \<Rightarrow> Next (goto t (Fair_loop w (state s)) s)
     | Fair_loop w st \<Rightarrow> unlock_slow_fair_loop e t w st s
     | Fair_clear \<Rightarrow> unlock_slow_fair_clear t s
     | Scan m st cur \<Rightarrow> link_prev_nodes t m st cur s
     | Scanned Plain st qt \<Rightarrow> unlock_slow_scanned t st qt s
     | Scanned Fair st qt \<Rightarrow> unlock_slow_fair_scanned t st qt s
     | Release st \<Rightarrow> unlock_slow_release e t st s
     | Pop_last Plain st qt \<Rightarrow> unlock_slow_pop_last e t st qt s
     | Pop_last Fair st qt \<Rightarrow> unlock_slow_fair_pop_last e t st qt s
     | Pop_clear Plain qt \<Rightarrow> unlock_slow_pop_clear t qt s
     | Pop_clear Fair qt \<Rightarrow> unlock_slow_fair_pop_clear t qt s
     | Wake Plain qt \<Rightarrow> unlock_slow_wake t qt s
     | Wake Fair qt \<Rightarrow> unlock_slow_fair_wake t qt s)"

inductive reach :: "sys \<Rightarrow> bool" where
  reach_init: "reach (init_sys t r)"
| reach_step: "reach s \<Longrightarrow> valid_ptr t \<Longrightarrow> exec e t s = Next s' \<Longrightarrow> reach s'"

end
