(* ===== verification/Raw_Mutex_Inv.thy ===== *)
theory Raw_Mutex_Inv
  imports Raw_Mutex
begin

section \<open>RawMutex: the invariant\<close>

text \<open>
  The invariant relates a system to an abstract lock: the holder, the owner of the queue lock
  and the list of waiters, newest first. Each conjunct is one definition; each step of the
  code preserves all of them.
\<close>

subsection \<open>What a location means\<close>

fun parked :: "pc \<Rightarrow> bool" where
  "parked (Parked w) = True"
| "parked _ = False"

text \<open>A thread that has called \<open>lock\<close> and waits for it, contending or asleep.\<close>

fun inside_lock :: "pc \<Rightarrow> bool" where
  "inside_lock (Slow_load w) = True"
| "inside_lock (Slow_loop w st) = True"
| "inside_lock (Parked w) = True"
| "inside_lock _ = False"

text \<open>Locations at which a thread holds the lock.\<close>

fun holds_pc :: "pc \<Rightarrow> bool" where
  "holds_pc Critical = True"
| "holds_pc Fair_or = True"
| "holds_pc (Fair_and b) = True"
| "holds_pc (Fair_load w) = True"
| "holds_pc (Fair_loop w st) = True"
| "holds_pc Fair_clear = True"
| "holds_pc (Scan m st p) = (m = Fair)"
| "holds_pc (Scanned m st p) = (m = Fair)"
| "holds_pc (Pop_last m st p) = (m = Fair)"
| "holds_pc (Pop_clear m p) = (m = Fair)"
| "holds_pc (Wake m p) = (m = Fair)"
| "holds_pc _ = False"

text \<open>A thread also holds the lock once it was handed over, before \<open>park\<close> returns.\<close>

definition holds :: "sys \<Rightarrow> ptr \<Rightarrow> bool" where
  "holds s t \<longleftrightarrow> holds_pc (pc s t) \<or> (\<exists>d. heap s t = Some d \<and> unpark_token d = TOKEN_HANDOFF)"

fun qlocks :: "pc \<Rightarrow> bool" where
  "qlocks Fair_clear = True"
| "qlocks (Scan m st p) = True"
| "qlocks (Scanned m st p) = True"
| "qlocks (Release st) = True"
| "qlocks (Pop_last m st p) = True"
| "qlocks (Pop_clear m p) = True"
| "qlocks _ = False"

text \<open>Locations of a fair unlock between setting and clearing \<open>TIMEOUT_BIT\<close>.\<close>

fun announces :: "pc \<Rightarrow> bool" where
  "announces (Fair_and b) = timeout b"
| "announces (Fair_load w) = True"
| "announces (Fair_loop w st) = True"
| "announces Fair_clear = True"
| "announces (Scan m st p) = (m = Fair)"
| "announces (Scanned m st p) = (m = Fair)"
| "announces (Pop_last m st p) = (m = Fair)"
| "announces (Pop_clear m p) = (m = Fair)"
| "announces _ = False"

text \<open>The node that a thread has removed and must wake.\<close>

fun wakes :: "pc \<Rightarrow> ptr option" where
  "wakes (Pop_clear m p) = Some p"
| "wakes (Wake m p) = Some p"
| "wakes _ = None"

text \<open>Threads that will look at the lock or the queue again without being woken.\<close>

fun active_pc :: "pc \<Rightarrow> bool" where
  "active_pc Idle = False"
| "active_pc (Parked w) = False"
| "active_pc _ = True"

definition active :: "sys \<Rightarrow> ptr \<Rightarrow> bool" where
  "active s t \<longleftrightarrow> active_pc (pc s t) \<or> (\<exists>d. heap s t = Some d \<and> parker d)"

definition asleep :: "sys \<Rightarrow> ptr \<Rightarrow> bool" where
  "asleep s t \<longleftrightarrow> (\<exists>d. heap s t = Some d \<and> \<not> parker d \<and> unpark_token d = 0)"

subsection \<open>The linked queue\<close>

definition field :: "(thread_data \<Rightarrow> 'a) \<Rightarrow> (ptr \<Rightarrow> thread_data option) \<Rightarrow> ptr \<Rightarrow> 'a" where
  "field f H p = f (the (H p))"

text \<open>
  \<open>q\<close> is linked by \<open>next\<close>; the nodes from position \<open>k\<close> on are processed: \<open>q ! k\<close> is the first
  one with a \<open>queue_tail\<close>, which is the last node, and the \<open>prev\<close> pointers beyond it are set.
  A scan that started at position \<open>a\<close> has set them between \<open>a\<close> and \<open>c\<close> too.
\<close>

definition links :: "(ptr \<Rightarrow> thread_data option) \<Rightarrow> ptr list \<Rightarrow> nat \<Rightarrow> nat \<Rightarrow> nat \<Rightarrow> bool" where
  "links H q a c k \<longleftrightarrow> a \<le> c \<and> c \<le> k \<and> k < length q \<and>
    (\<forall>i. Suc i < length q \<longrightarrow> field next H (q ! i) = q ! Suc i) \<and>
    (\<forall>i < k. field queue_tail H (q ! i) = null) \<and> field queue_tail H (q ! k) = last q \<and>
    (\<forall>i \<le> a. field prev H (q ! i) = null) \<and>
    (\<forall>i. Suc i < length q \<longrightarrow> a \<le> i \<and> i < c \<or> k \<le> i \<longrightarrow> field prev H (q ! Suc i) = q ! i)"

definition settled :: "(ptr \<Rightarrow> thread_data option) \<Rightarrow> ptr list \<Rightarrow> bool" where
  "settled H q \<longleftrightarrow> q \<noteq> [] \<longrightarrow> (\<exists>k. links H q k k k)"

fun scan_ok :: "(ptr \<Rightarrow> thread_data option) \<Rightarrow> ptr list \<Rightarrow> pc \<Rightarrow> bool" where
  "scan_ok H q (Scan m st cur) = (\<exists>a c k. links H q a c k \<and> queue_head st = q ! a \<and> cur = q ! c)"
| "scan_ok H q (Scanned m st qt) = (\<exists>a k. links H q a k k \<and> queue_head st = q ! a \<and> qt = last q)"
| "scan_ok H q (Release st) = (settled H q \<and> q \<noteq> [] \<and> locked st)"
| "scan_ok H q (Pop_last m st qt) =
    (settled H q \<and> q \<noteq> [] \<and> qt = last q \<and> queue_head st = qt \<and> (m = Plain \<longrightarrow> \<not> locked st))"
| "scan_ok H q _ = settled H q"

fun local_ok :: "ptr list \<Rightarrow> pc \<Rightarrow> bool" where
  "local_ok q (Fair_and b) = (b = LOCKED_BIT \<or> b = LOCKED_BIT OR TIMEOUT_BIT)"
| "local_ok q (Unlock_loop st) = (\<not> qlocked st \<and> queue_head st \<noteq> null)"
| "local_ok q (Fair_load w) = (q \<noteq> [])"
| "local_ok q (Fair_loop w st) = (q \<noteq> [])"
| "local_ok q (Scan m st p) = (q \<noteq> [])"
| "local_ok q (Scanned m st p) = (q \<noteq> [])"
| "local_ok q (Pop_last m st p) = (q \<noteq> [])"
| "local_ok q Fair_clear = False"
| "local_ok q _ = True"

subsection \<open>The invariant\<close>

definition inv_holder :: "ptr option \<Rightarrow> sys \<Rightarrow> bool" where
  "inv_holder h s \<longleftrightarrow> (\<forall>t. holds s t \<longleftrightarrow> h = Some t) \<and> (locked (state s) \<longleftrightarrow> h \<noteq> None)"

definition inv_qowner :: "ptr option \<Rightarrow> sys \<Rightarrow> bool" where
  "inv_qowner w s \<longleftrightarrow> (\<forall>t. qlocks (pc s t) \<longleftrightarrow> w = Some t) \<and> (qlocked (state s) \<longleftrightarrow> w \<noteq> None)"

definition inv_timeout :: "ptr option \<Rightarrow> sys \<Rightarrow> bool" where
  "inv_timeout h s \<longleftrightarrow> (timeout (state s) \<longleftrightarrow> (\<exists>t. h = Some t \<and> announces (pc s t)))"

definition inv_nodes :: "sys \<Rightarrow> bool" where
  "inv_nodes s \<longleftrightarrow> (\<forall>t. (heap s t \<noteq> None \<longleftrightarrow> parked (pc s t)) \<and> (pc s t \<noteq> Idle \<longrightarrow> valid_ptr t)) \<and>
    (\<forall>t d. heap s t = Some d \<longrightarrow> unpark_token d = 0 \<or> unpark_token d = TOKEN_HANDOFF \<and> parker d)"

definition inv_queue :: "ptr list \<Rightarrow> sys \<Rightarrow> bool" where
  "inv_queue q s \<longleftrightarrow> distinct q \<and> queue_head (state s) = (if q = [] then null else hd q) \<and>
    (\<forall>x \<in> set q. asleep s x)"

definition inv_wakers :: "ptr list \<Rightarrow> sys \<Rightarrow> bool" where
  "inv_wakers q s \<longleftrightarrow> (\<forall>u x. wakes (pc s u) = Some x \<longrightarrow> asleep s x \<and> x \<notin> set q) \<and>
    (\<forall>u v x. wakes (pc s u) = Some x \<longrightarrow> wakes (pc s v) = Some x \<longrightarrow> u = v)"

definition inv_parked :: "ptr list \<Rightarrow> sys \<Rightarrow> bool" where
  "inv_parked q s \<longleftrightarrow> (\<forall>x. asleep s x \<longrightarrow> x \<in> set q \<or> (\<exists>u. wakes (pc s u) = Some x))"

definition inv_scan :: "ptr list \<Rightarrow> ptr option \<Rightarrow> sys \<Rightarrow> bool" where
  "inv_scan q w s \<longleftrightarrow> scan_ok (heap s) q (case w of None \<Rightarrow> Idle | Some t \<Rightarrow> pc s t)"

definition inv_local :: "ptr list \<Rightarrow> sys \<Rightarrow> bool" where
  "inv_local q s \<longleftrightarrow> (\<forall>t. local_ok q (pc s t))"

definition inv_progress :: "ptr list \<Rightarrow> sys \<Rightarrow> bool" where
  "inv_progress q s \<longleftrightarrow> (q \<noteq> [] \<longrightarrow> \<not> locked (state s) \<longrightarrow> (\<exists>t. active s t))"

definition inv :: "ptr option \<Rightarrow> ptr option \<Rightarrow> ptr list \<Rightarrow> sys \<Rightarrow> bool" where
  "inv h w q s \<longleftrightarrow> inv_holder h s \<and> inv_qowner w s \<and> inv_timeout h s \<and> inv_nodes s \<and>
    inv_queue q s \<and> inv_wakers q s \<and> inv_parked q s \<and> inv_scan q w s \<and> inv_local q s \<and>
    inv_progress q s"

subsection \<open>Moving one thread\<close>

lemma sys_simps [simp]:
  "state (goto t c s) = state s" "heap (goto t c s) = heap s" "pc (goto t c s) = (pc s)(t := c)"
  "state (store v s) = v" "heap (store v s) = heap s" "pc (store v s) = pc s"
  "state (write_node p d s) = state s" "heap (write_node p d s) = (heap s)(p \<mapsto> d)"
  "pc (write_node p d s) = pc s" "state (free_node p s) = state s"
  "heap (free_node p s) = (heap s)(p := None)" "pc (free_node p s) = pc s"
  by (simp_all add: goto_def store_def write_node_def free_node_def)

lemma store_state [simp]: "store (state s) s = s"
  by (simp add: store_def)

lemma invD:
  assumes "inv h w q s"
  shows "inv_holder h s" "inv_qowner w s" "inv_timeout h s" "inv_nodes s" "inv_queue q s"
    "inv_wakers q s" "inv_parked q s" "inv_scan q w s" "inv_local q s" "inv_progress q s"
  using assms by (simp_all add: inv_def)

lemma invI [intro?]:
  assumes "inv_holder h s" "inv_qowner w s" "inv_timeout h s" "inv_nodes s" "inv_queue q s"
    "inv_wakers q s" "inv_parked q s" "inv_scan q w s" "inv_local q s" "inv_progress q s"
  shows "inv h w q s"
  using assms by (simp add: inv_def)

lemmas inv_defs = inv_holder_def inv_qowner_def inv_timeout_def inv_nodes_def inv_queue_def
  inv_wakers_def inv_parked_def inv_scan_def inv_local_def inv_progress_def

text \<open>The fair deadline is not part of the invariant.\<close>

lemma inv_fair [simp]: "inv h w q (s\<lparr>fair := f\<rparr>) = inv h w q s"
proof -
  have "holds (s\<lparr>fair := f\<rparr>) = holds s" "asleep (s\<lparr>fair := f\<rparr>) = asleep s"
    "active (s\<lparr>fair := f\<rparr>) = active s" "state (s\<lparr>fair := f\<rparr>) = state s"
    "heap (s\<lparr>fair := f\<rparr>) = heap s" "pc (s\<lparr>fair := f\<rparr>) = pc s"
    by (simp_all add: holds_def asleep_def active_def fun_eq_iff)
  then show ?thesis by (simp only: inv_def inv_defs)
qed

text \<open>
  The abstract roles are functions of the state: a thread holds the lock (the queue lock) iff it
  is the named one.
\<close>

lemma holderD: "inv h w q s \<Longrightarrow> holds_pc (pc s t) \<Longrightarrow> h = Some t"
  by (auto simp: inv_def inv_holder_def holds_def)

lemma qownerD: "inv h w q s \<Longrightarrow> qlocks (pc s t) \<Longrightarrow> w = Some t"
  by (simp add: inv_def inv_qowner_def)

lemma scanD: "inv h w q s \<Longrightarrow> qlocks (pc s t) \<Longrightarrow> scan_ok (heap s) q (pc s t)"
  using qownerD [of h w q s t] by (simp add: inv_def inv_scan_def)

lemma heap_none: "inv h w q s \<Longrightarrow> \<not> parked (pc s t) \<Longrightarrow> heap s t = None"
  unfolding inv_def inv_nodes_def by blast

lemma localD: "inv h w q s \<Longrightarrow> local_ok q (pc s t)"
  by (simp add: inv_def inv_local_def)

text \<open>
  A step that leaves the nodes and the queue alone and moves a thread that is not asleep: what
  there is to check, role by role.
\<close>

lemma inv_move:
  assumes I: "inv h w q s" and t: "valid_ptr t"
    and parked: "\<not> parked (pc s t)" "\<not> parked c"
    and holder: "\<And>u. u \<noteq> t \<Longrightarrow> h' = Some u \<longleftrightarrow> h = Some u" "holds_pc c \<longleftrightarrow> h' = Some t"
      "locked v \<longleftrightarrow> h' \<noteq> None"
    and qowner: "\<And>u. u \<noteq> t \<Longrightarrow> w' = Some u \<longleftrightarrow> w = Some u" "qlocks c \<longleftrightarrow> w' = Some t"
      "qlocked v \<longleftrightarrow> w' \<noteq> None"
    and timeout: "timeout v \<longleftrightarrow> (\<exists>u. h' = Some u \<and> announces (((pc s)(t := c)) u))"
    and head: "queue_head v = queue_head (state s)"
    and wakes: "wakes c = wakes (pc s t)"
    and scan: "scan_ok (heap s) q (case w' of None \<Rightarrow> Idle | Some u \<Rightarrow> ((pc s)(t := c)) u)"
    and "local": "local_ok q c"
    and progress: "q \<noteq> [] \<Longrightarrow> \<not> locked v \<Longrightarrow> active_pc c \<or> (\<exists>u. u \<noteq> t \<and> active s u)"
  shows "inv h' w' q (goto t c (store v s))"
proof
  note D = invD [OF I]
  have none: "heap s t = None" by (rule heap_none [OF I parked(1)])
  have asleep: "asleep (goto t c (store v s)) = asleep s" by (simp add: asleep_def fun_eq_iff)
  show "inv_holder h' (goto t c (store v s))"
    using D(1) holder none by (auto simp: inv_holder_def holds_def)
  show "inv_qowner w' (goto t c (store v s))"
    using D(2) qowner by (auto simp: inv_qowner_def)
  show "inv_timeout h' (goto t c (store v s))" using timeout by (simp add: inv_timeout_def)
  show "inv_nodes (goto t c (store v s))" using D(4) t parked by (auto simp: inv_nodes_def)
  show "inv_queue q (goto t c (store v s))" using D(5) head by (simp add: inv_queue_def asleep)
  show "inv_wakers q (goto t c (store v s))"
    using D(6) wakes unfolding inv_wakers_def asleep by (auto split: if_splits)
  show "inv_parked q (goto t c (store v s))"
    using D(7) wakes unfolding inv_parked_def asleep by (fastforce split: if_splits)
  show "inv_scan q w' (goto t c (store v s))" using scan by (simp add: inv_scan_def cong: option.case_cong)
  show "inv_local q (goto t c (store v s))" using D(9) "local" by (simp add: inv_local_def)
  show "inv_progress q (goto t c (store v s))"
    using progress none by (fastforce simp: inv_progress_def active_def)
qed

text \<open>A purely local step: the roles stay as they are.\<close>

lemma inv_goto:
  assumes I: "inv h w q s" and t: "valid_ptr t"
    and parked: "\<not> parked (pc s t)" "\<not> parked c"
    and roles: "holds_pc c = holds_pc (pc s t)" "qlocks c = qlocks (pc s t)"
      "announces c = announces (pc s t)" "wakes c = wakes (pc s t)"
    and scan: "qlocks c \<Longrightarrow> scan_ok (heap s) q c"
    and "local": "local_ok q c"
    and progress: "q \<noteq> [] \<Longrightarrow> \<not> locked (state s) \<Longrightarrow> active_pc c \<or> (\<exists>u. u \<noteq> t \<and> active s u)"
  shows "inv h w q (goto t c s)"
proof -
  note D = invD [OF I]
  have none: "heap s t = None" by (rule heap_none [OF I parked(1)])
  have "inv h w q (goto t c (store (state s) s))"
  proof (rule inv_move [OF I t parked])
    have "holds s t \<longleftrightarrow> holds_pc c" using roles(1) none by (simp add: holds_def)
    then show "holds_pc c \<longleftrightarrow> h = Some t" using D(1) by (auto simp: inv_holder_def)
    show "scan_ok (heap s) q (case w of None \<Rightarrow> Idle | Some u \<Rightarrow> ((pc s)(t := c)) u)"
      using D(2,8) scan roles(2) by (auto simp: inv_scan_def inv_qowner_def split: option.splits)
    show "timeout (state s) \<longleftrightarrow> (\<exists>u. h = Some u \<and> announces (((pc s)(t := c)) u))"
      using D(3) roles(3) by (auto simp: inv_timeout_def)
  qed (use D roles "local" progress in \<open>auto simp: inv_holder_def inv_qowner_def\<close>)
  then show ?thesis by simp
qed

text \<open>A step of a thread that neither has nor takes the queue lock.\<close>

lemma inv_lock_move:
  assumes I: "inv h w q s" and t: "valid_ptr t"
    and parked: "\<not> parked (pc s t)" "\<not> parked c"
    and quiet: "\<not> qlocks (pc s t)" "\<not> qlocks c" "wakes c = wakes (pc s t)"
    and holder: "\<And>u. u \<noteq> t \<Longrightarrow> h' = Some u \<longleftrightarrow> h = Some u" "holds_pc c \<longleftrightarrow> h' = Some t"
      "locked v \<longleftrightarrow> h' \<noteq> None"
    and qlocked: "qlocked v = qlocked (state s)"
    and timeout: "timeout v \<longleftrightarrow> (\<exists>u. h' = Some u \<and> announces (((pc s)(t := c)) u))"
    and head: "queue_head v = queue_head (state s)"
    and "local": "local_ok q c"
    and progress: "q \<noteq> [] \<Longrightarrow> \<not> locked v \<Longrightarrow> active_pc c \<or> (\<exists>u. u \<noteq> t \<and> active s u)"
  shows "inv h' w q (goto t c (store v s))"
proof (rule inv_move [OF I t parked])
  note D = invD [OF I]
  show "qlocks c \<longleftrightarrow> w = Some t" "qlocked v \<longleftrightarrow> w \<noteq> None"
    using D(2) quiet qlocked by (auto simp: inv_qowner_def)
  show "scan_ok (heap s) q (case w of None \<Rightarrow> Idle | Some u \<Rightarrow> ((pc s)(t := c)) u)"
    using D(2,8) quiet by (auto simp: inv_scan_def inv_qowner_def split: option.splits)
qed (use holder timeout head quiet "local" progress in auto)

text \<open>A step of the owner of the queue lock that keeps the lock's holder as it is.\<close>

lemma inv_queue_move:
  assumes I: "inv h w q s" and t: "valid_ptr t"
    and parked: "\<not> parked (pc s t)" "\<not> parked c"
    and quiet: "holds_pc c = holds_pc (pc s t)" "wakes c = wakes (pc s t)"
    and owner: "w = None \<or> w = Some t" "w' = None \<or> w' = Some t" "qlocks c \<longleftrightarrow> w' = Some t"
      "qlocked v \<longleftrightarrow> w' \<noteq> None" "locked v = locked (state s)"
    and timeout: "timeout v \<longleftrightarrow> (\<exists>u. h = Some u \<and> announces (((pc s)(t := c)) u))"
    and head: "queue_head v = queue_head (state s)"
    and scan: "scan_ok (heap s) q (if w' = None then Idle else c)"
    and "local": "local_ok q c"
    and progress: "q \<noteq> [] \<Longrightarrow> \<not> locked v \<Longrightarrow> active_pc c \<or> (\<exists>u. u \<noteq> t \<and> active s u)"
  shows "inv h w' q (goto t c (store v s))"
proof (rule inv_move [OF I t parked])
  note D = invD [OF I]
  have none: "heap s t = None" by (rule heap_none [OF I parked(1)])
  have "holds s t \<longleftrightarrow> holds_pc c" using quiet(1) none by (simp add: holds_def)
  then show "holds_pc c \<longleftrightarrow> h = Some t" using D(1) by (auto simp: inv_holder_def)
  show "locked v \<longleftrightarrow> h \<noteq> None" using D(1) owner by (simp add: inv_holder_def)
  show "scan_ok (heap s) q (case w' of None \<Rightarrow> Idle | Some u \<Rightarrow> ((pc s)(t := c)) u)"
    using scan owner by auto
qed (use owner timeout head quiet "local" progress in auto)

end
