(* ===== verification/Raw_Mutex_Steps.thy ===== *)
theory Raw_Mutex_Steps
  imports Raw_Mutex_Inv
begin

section \<open>RawMutex: every step implements the abstract lock\<close>

text \<open>
  The specification is a lock with a holder and a list of waiters, newest first, from which
  only the oldest is removed, and only by the thread that owns the queue. A removed waiter is
  either woken or given the lock. Each lemma takes one group of the code's steps.
\<close>

record lock_spec =
  holder :: "ptr option"
  scanner :: "ptr option"
  waiting :: "ptr list"
  removed :: "ptr \<Rightarrow> ptr option"

definition spec_init :: lock_spec where
  "spec_init = \<lparr>holder = None, scanner = None, waiting = [], removed = (\<lambda>_. None)\<rparr>"

inductive spec_step :: "ptr \<Rightarrow> lock_spec \<Rightarrow> lock_spec \<Rightarrow> bool" where
  stutter: "spec_step t a a"
| acquire: "holder a = None \<Longrightarrow> spec_step t a (a\<lparr>holder := Some t\<rparr>)"
| release: "holder a = Some t \<Longrightarrow> spec_step t a (a\<lparr>holder := None\<rparr>)"
| enqueue: "holder a \<noteq> None \<Longrightarrow> holder a \<noteq> Some t \<Longrightarrow> t \<notin> set (waiting a) \<Longrightarrow>
    spec_step t a (a\<lparr>waiting := t # waiting a\<rparr>)"
| scan_begin: "scanner a = None \<Longrightarrow> waiting a \<noteq> [] \<Longrightarrow> spec_step t a (a\<lparr>scanner := Some t\<rparr>)"
| scan_end: "scanner a = Some t \<Longrightarrow> spec_step t a (a\<lparr>scanner := None\<rparr>)"
| remove_oldest: "scanner a = Some t \<Longrightarrow> waiting a = q @ [x] \<Longrightarrow> q \<noteq> [] \<Longrightarrow>
    spec_step t a (a\<lparr>waiting := q, removed := (removed a)(t \<mapsto> x)\<rparr>)"
| remove_only: "scanner a = Some t \<Longrightarrow> waiting a = [x] \<Longrightarrow> holder a = None \<or> holder a = Some t \<Longrightarrow>
    spec_step t a (a\<lparr>scanner := None, waiting := [], removed := (removed a)(t \<mapsto> x)\<rparr>)"
| wake: "removed a t = Some x \<Longrightarrow> spec_step t a (a\<lparr>removed := (removed a)(t := None)\<rparr>)"
| hand_over: "removed a t = Some x \<Longrightarrow> holder a = Some t \<Longrightarrow>
    spec_step t a (a\<lparr>holder := Some x, removed := (removed a)(t := None)\<rparr>)"

definition simulates :: "sys \<Rightarrow> lock_spec \<Rightarrow> bool" where
  "simulates s a \<longleftrightarrow> inv (holder a) (scanner a) (waiting a) s \<and> removed a = (\<lambda>u. wakes (pc s u))"

text \<open>A system that simulates \<open>a\<close>, after a step of \<open>t\<close>.\<close>

definition simulates_after :: "ptr \<Rightarrow> lock_spec \<Rightarrow> sys \<Rightarrow> bool" where
  "simulates_after t a s' \<longleftrightarrow> (\<exists>a'. spec_step t a a' \<and> simulates s' a')"

text \<open>What a step may do: block, or continue with a system that simulates a step of \<open>a\<close>.\<close>

definition step_ok :: "ptr \<Rightarrow> lock_spec \<Rightarrow> sys outcome \<Rightarrow> bool" where
  "step_ok t a r \<longleftrightarrow> (case r of Blocked \<Rightarrow> True | Fault \<Rightarrow> False | Next s' \<Rightarrow> simulates_after t a s')"

lemma step_ok_simps [simp]:
  "step_ok t a Blocked" "\<not> step_ok t a Fault" "step_ok t a (Next s') = simulates_after t a s'"
  by (simp_all add: step_ok_def)

lemma simulates_afterI:
  assumes "spec_step t a a'" "inv (holder a') (scanner a') (waiting a') s'"
    and "removed a' = (\<lambda>u. wakes (pc s' u))"
  shows "simulates_after t a s'"
  using assms by (auto simp: simulates_after_def simulates_def)

lemma simulatesD:
  assumes "simulates s a"
  shows "inv (holder a) (scanner a) (waiting a) s" "removed a = (\<lambda>u. wakes (pc s u))"
  using assms by (auto simp: simulates_def)

text \<open>The initial system.\<close>

lemma init_simulates: "simulates (init_sys t r) spec_init"
proof -
  have s: "state (init_sys t r) = IDLE" "heap (init_sys t r) = (\<lambda>_. None)"
    "pc (init_sys t r) = (\<lambda>_. Idle)"
    by (simp_all add: init_sys_def raw_mutex_new_def raw_mutex.extend_def)
  have "inv None None [] (init_sys t r)"
    unfolding inv_def inv_defs holds_def asleep_def active_def s
    by (simp add: layout settled_def)
  then show ?thesis by (simp add: simulates_def spec_init_def s)
qed

subsection \<open>Steps that change no role\<close>

lemma goto_ok:
  assumes S: "simulates s a" and t: "valid_ptr t"
    and parked: "\<not> parked (pc s t)" "\<not> parked c"
    and roles: "holds_pc c = holds_pc (pc s t)" "qlocks c = qlocks (pc s t)"
      "announces c = announces (pc s t)" "wakes c = wakes (pc s t)"
    and scan: "qlocks c \<Longrightarrow> scan_ok (heap s) (waiting a) c"
    and "local": "local_ok (waiting a) c"
    and progress: "waiting a \<noteq> [] \<Longrightarrow> \<not> locked (state s) \<Longrightarrow>
      active_pc c \<or> (\<exists>u. u \<noteq> t \<and> active s u)"
  shows "simulates_after t a (goto t c s)"
proof (rule simulates_afterI [OF stutter])
  show "inv (holder a) (scanner a) (waiting a) (goto t c s)"
    by (rule inv_goto [OF simulatesD(1) [OF S] t parked roles scan "local" progress])
  show "removed a = (\<lambda>u. wakes (pc (goto t c s) u))"
    using simulatesD(2) [OF S] roles(4) by (auto simp: fun_eq_iff)
qed

text \<open>A thread that goes from one place to another inside \<open>lock_slow\<close> or the loop of \<open>unlock\<close>.\<close>

lemma goto_active_ok:
  assumes "simulates s a" "valid_ptr t" "\<not> parked (pc s t)" "\<not> parked c"
    "holds_pc c = holds_pc (pc s t)" "\<not> qlocks c" "\<not> qlocks (pc s t)"
    "announces c = announces (pc s t)" "wakes c = wakes (pc s t)"
    "local_ok (waiting a) c" "active_pc c"
  shows "simulates_after t a (goto t c s)"
  using assms by (intro goto_ok) auto

lemma idle_progress:
  assumes S: "simulates s a" and p: "pc s t = Idle"
    and q: "waiting a \<noteq> []" "\<not> locked (state s)"
  shows "\<exists>u. u \<noteq> t \<and> active s u"
proof -
  note D = invD [OF simulatesD(1) [OF S]]
  have "heap s t = None" using heap_none [OF simulatesD(1) [OF S], of t] p by simp
  then have "\<not> active s t" using p by (simp add: active_def)
  then show ?thesis using D(10) q by (auto simp: inv_progress_def)
qed

subsection \<open>Taking the lock\<close>

lemma empty_queue: "inv h w q s \<Longrightarrow> queue_head (state s) = null \<longleftrightarrow> q = []"
proof -
  assume I: "inv h w q s"
  note D = invD [OF I]
  have "valid_ptr x" if "x \<in> set q" for x
    using D(4,5) that unfolding inv_nodes_def inv_queue_def asleep_def
    by (metis option.distinct(1) parked.simps(2))
  then have "q \<noteq> [] \<Longrightarrow> hd q \<noteq> null" using valid_ptr_not_null by simp
  then show ?thesis using D(5) by (simp add: inv_queue_def)
qed

lemma acquire_ok:
  assumes S: "simulates s a" and t: "valid_ptr t" and p: "pc s t \<noteq> Critical"
    and c: "\<not> parked (pc s t)" "\<not> qlocks (pc s t)" "wakes (pc s t) = None"
    and v: "\<not> locked (state s)" "locked v" "qlocked v = qlocked (state s)"
      "timeout v = timeout (state s)" "queue_head v = queue_head (state s)"
  shows "simulates_after t a (goto t Critical (store v s))"
proof (rule simulates_afterI [OF acquire])
  note I = simulatesD(1) [OF S]
  note D = invD [OF I]
  show h: "holder a = None" using D(1) v(1) by (simp add: inv_holder_def)
  have "inv (Some t) (scanner a) (waiting a) (goto t Critical (store v s))"
    by (rule inv_lock_move [OF I t]) (use c v h D(3) in \<open>simp_all add: inv_timeout_def\<close>)
  then show "inv (holder (a\<lparr>holder := Some t\<rparr>)) (scanner (a\<lparr>holder := Some t\<rparr>))
    (waiting (a\<lparr>holder := Some t\<rparr>)) (goto t Critical (store v s))" by simp
  show "removed (a\<lparr>holder := Some t\<rparr>) = (\<lambda>u. wakes (pc (goto t Critical (store v s)) u))"
    using simulatesD(2) [OF S] c(3) by (auto simp: fun_eq_iff)
qed

lemma idle_ok:
  assumes S: "simulates s a" and t: "valid_ptr t" and p: "pc s t = Idle"
  shows "step_ok t a (on_idle e t s)"
proof -
  have "simulates_after t a (goto t Critical (store LOCKED_BIT s))" if "state s = IDLE"
    by (rule acquire_ok [OF S t]) (use p that in \<open>simp_all add: layout\<close>)
  moreover have "simulates_after t a (goto t (Slow_load w) s)" for w
    by (rule goto_active_ok [OF S t]) (use p in simp_all)
  moreover have "simulates_after t a (goto t Idle s)"
    by (rule goto_ok [OF S t]) (use p idle_progress [OF S p] in simp_all)
  ultimately show ?thesis
    by (auto simp: on_idle_def lock_def try_lock_def cas_ok_def split: call.splits)
qed

lemma slow_load_ok:
  assumes S: "simulates s a" and t: "valid_ptr t" and p: "pc s t = Slow_load w"
  shows "step_ok t a (lock_slow_load t w s)"
  unfolding lock_slow_load_def step_ok_simps
  by (rule goto_active_ok [OF S t]) (use p in simp_all)

subsection \<open>Pushing a node\<close>

lemma holder_iff: "inv h w q s \<Longrightarrow> h = Some t \<longleftrightarrow> holds s t"
  by (simp add: inv_def inv_holder_def)

lemma qowner_iff: "inv h w q s \<Longrightarrow> w = Some t \<longleftrightarrow> qlocks (pc s t)"
  by (simp add: inv_def inv_qowner_def)

lemma field_upd: "field f (H(p \<mapsto> d)) x = (if x = p then f d else field f H x)"
  by (simp add: field_def)

lemma field_cong: "H' x = H x \<Longrightarrow> field f H' x = field f H x"
  by (simp add: field_def)

lemma links_cong:
  assumes "\<And>x. x \<in> set q \<Longrightarrow> H' x = H x"
  shows "links H' q a c k = links H q a c k"
proof -
  have "field f H' (q ! i) = field f H (q ! i)" if "i < length q" for f :: "thread_data \<Rightarrow> ptr" and i
    using assms that by (auto intro: field_cong)
  then show ?thesis unfolding links_def
    by (smt (verit, best) Suc_lessD le_less_trans less_trans)
qed

lemma scan_ok_cong:
  assumes "\<And>x. x \<in> set q \<Longrightarrow> H' x = H x"
  shows "scan_ok H' q c = scan_ok H q c"
  using links_cong [OF assms] by (cases c) (simp_all add: settled_def)

lemma links_push:
  assumes L: "links H q a c k" and t: "t \<notin> set q" and head: "queue_head st = hd q" "hd q \<noteq> null"
  shows "links (H(t \<mapsto> park_node t st)) (t # q) (Suc a) (Suc c) (Suc k)"
proof -
  have ne: "q \<noteq> []" using L by (auto simp: links_def)
  let ?H = "H(t \<mapsto> park_node t st)"
  have new: "next (park_node t st) = q ! 0" "queue_tail (park_node t st) = null"
    "prev (park_node t st) = null"
    using head ne by (simp_all add: park_node_def Let_def hd_conv_nth)
  have old: "field f ?H (q ! i) = field f H (q ! i)" if "i < length q" for f :: "thread_data \<Rightarrow> ptr" and i
    using t that nth_mem by (metis field_upd)
  have at: "field f ?H t = f (park_node t st)" for f :: "thread_data \<Rightarrow> ptr"
    by (simp add: field_upd)
  note facts = L [unfolded links_def] ne new old at
  show ?thesis unfolding links_def
  proof (intro conjI allI impI)
    fix i assume "Suc i < length (t # q)"
    then show "field next ?H ((t # q) ! i) = (t # q) ! Suc i" using facts by (cases i) auto
  next
    fix i assume "i < Suc k"
    then show "field queue_tail ?H ((t # q) ! i) = null" using facts by (cases i) auto
  next
    fix i assume "i \<le> Suc a"
    then show "field prev ?H ((t # q) ! i) = null" using facts by (cases i) auto
  next
    fix i assume "Suc i < length (t # q)" "Suc a \<le> i \<and> i < Suc c \<or> Suc k \<le> i"
    then show "field prev ?H ((t # q) ! Suc i) = (t # q) ! i" using facts by (cases i) auto
  qed (use facts in auto)
qed

lemma links_first:
  assumes "queue_head st = null" "t \<noteq> null"
  shows "links (H(t \<mapsto> park_node t st)) [t] 0 0 0"
  using assms by (simp add: links_def field_upd park_node_def thread_data_new_def Let_def)

lemma settled_push:
  assumes L: "settled H q" and t: "t \<notin> set q" "t \<noteq> null"
    and head: "queue_head st = (if q = [] then null else hd q)" "q \<noteq> [] \<Longrightarrow> hd q \<noteq> null"
  shows "settled (H(t \<mapsto> park_node t st)) (t # q)"
  using assms links_push [of H q _ _ _ t st] links_first [of st t H]
  unfolding settled_def by (cases "q = []") auto

lemma scan_ok_push:
  assumes O: "scan_ok H q c" and t: "t \<notin> set q" "t \<noteq> null"
    and head: "queue_head st = (if q = [] then null else hd q)" "q \<noteq> [] \<Longrightarrow> hd q \<noteq> null"
  shows "scan_ok (H(t \<mapsto> park_node t st)) (t # q) c"
proof -
  note S = settled_push [OF _ t head]
  have L: "links (H(t \<mapsto> park_node t st)) (t # q) (Suc a) (Suc c) (Suc k)" "q \<noteq> []"
    if "links H q a c k" for a c k
  proof -
    show "q \<noteq> []" using that by (auto simp: links_def)
    then show "links (H(t \<mapsto> park_node t st)) (t # q) (Suc a) (Suc c) (Suc k)"
      using links_push [OF that t(1)] head by simp
  qed
  show ?thesis
  proof (cases c)
    case (Scan m s cur)
    then obtain a c k where "links H q a c k" "queue_head s = q ! a" "cur = q ! c" using O by auto
    then show ?thesis using L [of a c k] Scan
      unfolding scan_ok.simps Scan by (metis nth_Cons_Suc)
  next
    case (Scanned m s qt)
    then obtain a k where "links H q a k k" "queue_head s = q ! a" "qt = last q" using O by auto
    then show ?thesis using L [of a k k] Scanned
      unfolding scan_ok.simps Scanned by (metis nth_Cons_Suc last_ConsR)
  qed (use O S in auto)
qed

lemma asleep_upd:
  assumes "\<And>x. x \<noteq> p \<Longrightarrow> heap s' x = heap s x"
  shows "x \<noteq> p \<Longrightarrow> asleep s' x = asleep s x" "x \<noteq> p \<Longrightarrow> active_pc (pc s' x) = active_pc (pc s x) \<Longrightarrow> active s' x = active s x"
    "x \<noteq> p \<Longrightarrow> holds_pc (pc s' x) = holds_pc (pc s x) \<Longrightarrow> holds s' x = holds s x"
  using assms by (simp_all add: asleep_def active_def holds_def)

lemma queue_valid:
  assumes I: "inv h w q s"
  shows "x \<in> set q \<Longrightarrow> valid_ptr x" "x \<in> set q \<Longrightarrow> heap s x \<noteq> None" "q \<noteq> [] \<Longrightarrow> hd q \<noteq> null"
proof -
  note D = invD [OF I]
  have "valid_ptr x \<and> heap s x \<noteq> None" if "x \<in> set q" for x
    using D(4,5) that unfolding inv_nodes_def inv_queue_def asleep_def
    by (metis option.distinct(1) parked.simps(2))
  then show "x \<in> set q \<Longrightarrow> valid_ptr x" "x \<in> set q \<Longrightarrow> heap s x \<noteq> None" "q \<noteq> [] \<Longrightarrow> hd q \<noteq> null"
    using valid_ptr_not_null by auto
qed

lemma inv_push:
  assumes I: "inv h w q s" and t: "valid_ptr t" and p: "pc s t = Slow_loop v st"
    and st: "state s = st" "locked st"
  shows "inv h w (t # q)
    (goto t (Parked v') (store (set_queue_head st t) (write_node t (park_node t st) s)))"
    (is "inv _ _ _ ?s")
proof
  note D = invD [OF I] and Q = queue_valid [OF I]
  have none: "heap s t = None" using heap_none [OF I, of t] p by simp
  then have q: "t \<notin> set q" using Q(2) [of t] by auto
  have n: "\<not> parker (park_node t st)" "unpark_token (park_node t st) = 0"
    by (simp_all add: park_node_def thread_data_new_def Let_def)
  have [simp]: "TOKEN_HANDOFF \<noteq> 0" by (simp add: TOKEN_HANDOFF_def TIMEOUT_BIT_def)
  have other: "asleep ?s x \<longleftrightarrow> x = t \<or> asleep s x" "asleep s t = False" for x
    using n none by (auto simp: asleep_def)
  have head: "queue_head st = (if q = [] then null else hd q)" using D(5) st by (simp add: inv_queue_def)
  have "\<not> holds s t" using none p by (simp add: holds_def)
  then have "holds ?s = holds s" using n by (auto simp: holds_def fun_eq_iff)
  then show "inv_holder h ?s" using D(1) st by (simp add: inv_holder_def layout t)
  show "inv_qowner w ?s" using D(2) p st qowner_iff [OF I, of t] by (auto simp: inv_qowner_def layout t)
  have an: "announces (pc ?s u) = announces (pc s u)" for u using p by auto
  show "inv_timeout h ?s" using D(3) st unfolding inv_timeout_def an by (simp add: layout t)
  show "inv_nodes ?s" using D(4) n t by (auto simp: inv_nodes_def)
  show "inv_queue (t # q) ?s" using D(5) q by (auto simp: inv_queue_def layout t other)
  have wk: "wakes (pc ?s u) = wakes (pc s u)" for u using p by auto
  show "inv_wakers (t # q) ?s" using D(6) other unfolding inv_wakers_def wk by auto
  show "inv_parked (t # q) ?s" using D(7) other unfolding inv_parked_def wk by auto
  have "pc ?s u = pc s u" if "w = Some u" for u using that qowner_iff [OF I, of t] p by auto
  then have "(case w of None \<Rightarrow> Idle | Some u \<Rightarrow> pc ?s u) = (case w of None \<Rightarrow> Idle | Some u \<Rightarrow> pc s u)"
    by (auto split: option.splits)
  then show "inv_scan (t # q) w ?s"
    using D(8) scan_ok_push [OF _ q valid_ptr_not_null [OF t] head Q(3)] st
    by (auto simp: inv_scan_def)
  have "local_ok (t # q) c" if "local_ok q c" for c using that by (cases c) auto
  then show "inv_local (t # q) ?s" using D(9) by (simp add: inv_local_def)
  show "inv_progress (t # q) ?s" using st by (simp add: inv_progress_def layout t)
qed

lemma push_ok:
  assumes S: "simulates s a" and t: "valid_ptr t" and p: "pc s t = Slow_loop w st" and st: "locked st"
  shows "step_ok t a (park_push e t w' st s)"
proof (cases "cas_ok e s st")
  case True
  note I = simulatesD(1) [OF S]
  let ?s = "goto t (Parked w') (store (set_queue_head st t) (write_node t (park_node t st) s))"
  from True have st': "state s = st" by (simp add: cas_ok_def)
  have none: "heap s t = None" using heap_none [OF I, of t] p by simp
  have "\<not> holds s t" using none p by (simp add: holds_def)
  then have h: "holder a \<noteq> None" "holder a \<noteq> Some t" "t \<notin> set (waiting a)"
    using holder_iff [OF I, of t] invD(1) [OF I] st st' queue_valid(2) [OF I, of t] none
    by (auto simp: inv_holder_def)
  have "simulates_after t a ?s"
  proof (rule simulates_afterI [OF enqueue [OF h]])
    show "inv (holder (a\<lparr>waiting := t # waiting a\<rparr>)) (scanner (a\<lparr>waiting := t # waiting a\<rparr>))
      (waiting (a\<lparr>waiting := t # waiting a\<rparr>)) ?s"
      using inv_push [OF I t p st' st] by simp
  qed (use simulatesD(2) [OF S] p in \<open>auto simp: fun_eq_iff\<close>)
  then show ?thesis using True by (simp add: park_push_def)
next
  case False
  have "simulates_after t a (goto t (Slow_loop w' (state s)) s)"
    by (rule goto_active_ok [OF S t]) (use p in simp_all)
  then show ?thesis using False by (simp add: park_push_def)
qed

lemma slow_loop_ok:
  assumes S: "simulates s a" and t: "valid_ptr t" and p: "pc s t = Slow_loop w st"
  shows "step_ok t a (lock_slow_loop e t w st s)"
proof -
  have "simulates_after t a (goto t (Slow_loop w' (state s)) s)" for w'
    by (rule goto_active_ok [OF S t]) (use p in simp_all)
  moreover have "simulates_after t a (goto t Critical (store (st OR LOCKED_BIT) s))"
    if "\<not> locked st" "cas_ok e s st"
    by (rule acquire_ok [OF S t]) (use p that in \<open>auto simp: layout cas_ok_def\<close>)
  ultimately show ?thesis
    using push_ok [OF S t p] by (auto simp: lock_slow_loop_def and_bit_eq_0)
qed

subsection \<open>Returning from park\<close>

lemma inv_return:
  assumes I: "inv h w q s" and t: "valid_ptr t" and p: "pc s t = Parked v"
    and d: "heap s t = Some d" "parker d"
    and c: "c = (if unpark_token d = TOKEN_HANDOFF then Critical else Slow_load v')"
  shows "inv h w q (goto t c (free_node t s))" (is "inv _ _ _ ?s")
proof
  note D = invD [OF I]
  have q: "\<not> asleep s t" using d by (simp add: asleep_def)
  have hc: "holds_pc c = (unpark_token d = TOKEN_HANDOFF)" "\<not> qlocks c" "wakes c = None"
    "\<not> announces c" "\<not> parked c" "local_ok q c" "active_pc c" for q
    using c by auto
  have "holds ?s = holds s" using d p hc by (auto simp: holds_def fun_eq_iff)
  then show "inv_holder h ?s" using D(1) by (simp add: inv_holder_def)
  have asleep: "asleep ?s = asleep s" using q by (auto simp: asleep_def fun_eq_iff)
  show "inv_qowner w ?s" using D(2) p hc qowner_iff [OF I, of t] by (auto simp: inv_qowner_def)
  have an: "announces (pc ?s u) = announces (pc s u)" for u using p hc by auto
  show "inv_timeout h ?s" using D(3) unfolding inv_timeout_def an by simp
  show "inv_nodes ?s" using D(4) hc t by (auto simp: inv_nodes_def)
  show "inv_queue q ?s" using D(5) by (simp add: inv_queue_def asleep)
  have wk: "wakes (pc ?s u) = wakes (pc s u)" for u using p hc by auto
  show "inv_wakers q ?s" using D(6) unfolding inv_wakers_def asleep wk .
  show "inv_parked q ?s" using D(7) unfolding inv_parked_def asleep wk .
  have "pc ?s u = pc s u" if "w = Some u" for u using that qowner_iff [OF I, of t] p by auto
  then have w: "(case w of None \<Rightarrow> Idle | Some u \<Rightarrow> pc ?s u) = (case w of None \<Rightarrow> Idle | Some u \<Rightarrow> pc s u)"
    by (auto split: option.splits)
  have "t \<notin> set q" using D(5) q by (auto simp: inv_queue_def)
  then have "heap ?s x = heap s x" if "x \<in> set q" for x using that by auto
  from scan_ok_cong [of q "heap ?s" "heap s", OF this] show "inv_scan q w ?s" using D(8) unfolding inv_scan_def w by simp
  show "inv_local q ?s" using D(9) hc by (simp add: inv_local_def)
  show "inv_progress q ?s" using hc unfolding inv_progress_def active_def by auto
qed

lemma return_ok:
  assumes S: "simulates s a" and t: "valid_ptr t" and p: "pc s t = Parked w"
  shows "step_ok t a (park_return t w s)"
proof -
  note I = simulatesD(1) [OF S]
  obtain d where d: "heap s t = Some d"
    using invD(4) [OF I] p unfolding inv_nodes_def by (metis not_None_eq parked.simps(1))
  have "simulates_after t a (goto t c (free_node t s))"
    if "parker d" "c = (if unpark_token d = TOKEN_HANDOFF then Critical else Slow_load v)" for c v
    using inv_return [OF I t p d that] simulatesD(2) [OF S] p that(2)
    by (intro simulates_afterI [OF stutter]) (auto simp: fun_eq_iff)
  then show ?thesis by (auto simp: park_return_def deref_def d)
qed

subsection \<open>Giving up the lock\<close>

text \<open>
  The lock is given up by clearing the flag. When the queue lock is taken, its owner is active;
  when the queue is empty, nobody waits; otherwise the thread goes on to \<open>unlock_slow\<close>.
\<close>

lemma scanner_active:
  assumes I: "inv h w q s" and "qlocked (state s)" "\<not> qlocks (pc s t)"
  shows "\<exists>u. u \<noteq> t \<and> active s u"
proof -
  obtain u where "w = Some u" using invD(2) [OF I] assms(2) by (auto simp: inv_qowner_def)
  then have "qlocks (pc s u)" using qowner_iff [OF I] by simp
  moreover from this have "active_pc (pc s u)" by (cases "pc s u") auto
  ultimately show ?thesis using assms(3) by (auto simp: active_def)
qed

lemma after_unlock_ok:
  assumes S: "simulates s a" and t: "valid_ptr t"
    and p: "holds_pc (pc s t)" "\<not> qlocks (pc s t)" "wakes (pc s t) = None"
    and v: "\<not> locked v" "qlocked v = qlocked (state s)" "queue_head v = queue_head (state s)"
      "\<not> timeout v"
  shows "step_ok t a (after_unlock t (state s) (store v s))"
proof -
  note I = simulatesD(1) [OF S]
  note D = invD [OF I]
  have h: "holder a = Some t" using holder_iff [OF I, of t] p by (simp add: holds_def)
  have np: "\<not> parked (pc s t)" using p(1) by (cases "pc s t") auto
  have "simulates_after t a (goto t c (store v s))"
    if c: "c = Idle \<and> (qlocked (state s) \<or> queue_head (state s) = null) \<or> c = Unlock_load" for c
  proof (rule simulates_afterI [OF release [OF h]])
    have "inv None (scanner a) (waiting a) (goto t c (store v s))"
    proof (rule inv_lock_move [OF I t np])
      assume "waiting a \<noteq> []"
      then show "active_pc c \<or> (\<exists>u. u \<noteq> t \<and> active s u)"
        using c scanner_active [OF I _ p(2)] empty_queue [OF I] by auto
    qed (use c h p v in auto)
    then show "inv (holder (a\<lparr>holder := None\<rparr>)) (scanner (a\<lparr>holder := None\<rparr>))
      (waiting (a\<lparr>holder := None\<rparr>)) (goto t c (store v s))" by simp
    have "wakes c = None" using c by auto
    then show "removed (a\<lparr>holder := None\<rparr>) = (\<lambda>u. wakes (pc (goto t c (store v s)) u))"
      using simulatesD(2) [OF S] p(3) by (auto simp: fun_eq_iff)
  qed
  then show ?thesis by (auto simp: after_unlock_def layout)
qed

lemma holder_word:
  assumes I: "inv h w q s" and "holds_pc (pc s t)"
  shows "locked (state s)" "timeout (state s) = announces (pc s t)"
  using holderD [OF assms] invD(1,3) [OF I] by (auto simp: inv_holder_def inv_timeout_def)

lemma critical_ok:
  assumes S: "simulates s a" and t: "valid_ptr t" and p: "pc s t = Critical"
  shows "step_ok t a (on_critical e t s)"
proof -
  note W = holder_word [OF simulatesD(1) [OF S], of t]
  have "step_ok t a (unlock t s)" unfolding unlock_def
    by (rule after_unlock_ok [OF S t]) (use p W in \<open>simp_all add: layout\<close>)
  moreover have "simulates_after t a (goto t c (s\<lparr>fair := f\<rparr>))"
    if "c = Fair_or \<or> c = Fair_and LOCKED_BIT" for c f
  proof (rule goto_ok [OF _ t])
    show "simulates (s\<lparr>fair := f\<rparr>) a" using S by (simp add: simulates_def)
  qed (use p that in \<open>auto simp: layout\<close>)
  ultimately show ?thesis
    by (auto simp: on_critical_def unlock_fair_def Let_def split: call.splits prod.splits option.splits)
qed

lemma fair_and_ok:
  assumes S: "simulates s a" and t: "valid_ptr t" and p: "pc s t = Fair_and b"
  shows "step_ok t a (unlock_fair_and t b s)"
proof -
  note I = simulatesD(1) [OF S]
  note W = holder_word [OF I, of t]
  have "b = LOCKED_BIT \<or> b = LOCKED_BIT OR TIMEOUT_BIT" using localD [OF I, of t] p by simp
  then show ?thesis unfolding unlock_fair_and_def
    by (intro after_unlock_ok [OF S t]) (use p W in \<open>auto simp: layout\<close>)
qed

lemma fair_or_ok:
  assumes S: "simulates s a" and t: "valid_ptr t" and p: "pc s t = Fair_or"
  shows "step_ok t a (unlock_fair_or t s)"
proof -
  note I = simulatesD(1) [OF S]
  note W = holder_word [OF I, of t]
  have h: "holder a = Some t" using holder_iff [OF I, of t] p by (simp add: holds_def)
  have "simulates_after t a (goto t c (store (state s OR TIMEOUT_BIT) s))"
    if "c = Fair_load spin_wait_new \<and> queue_head (state s) \<noteq> null \<or>
      c = Fair_and (LOCKED_BIT OR TIMEOUT_BIT)" for c
  proof (rule simulates_afterI [OF stutter])
    show "inv (holder a) (scanner a) (waiting a) (goto t c (store (state s OR TIMEOUT_BIT) s))"
      by (rule inv_lock_move [OF I t]) (use that p W h empty_queue [OF I] in \<open>auto simp: layout\<close>)
    show "removed a = (\<lambda>u. wakes (pc (goto t c (store (state s OR TIMEOUT_BIT) s)) u))"
      using simulatesD(2) [OF S] p that by (auto simp: fun_eq_iff)
  qed
  then show ?thesis by (simp add: unlock_fair_or_def Let_def)
qed

subsection \<open>Taking the queue lock\<close>

lemma settled_scan:
  assumes "settled H q" "q \<noteq> []" "queue_head st = hd q"
  shows "scan_ok H q (scan_from m st)"
proof -
  obtain k where k: "links H q k k k" using assms by (auto simp: settled_def)
  then have "links H q 0 0 k" unfolding links_def by auto
  moreover have "queue_head st = q ! 0" using assms by (simp add: hd_conv_nth)
  ultimately show ?thesis unfolding scan_from_def scan_ok.simps by blast
qed

lemma head_is_hd: "inv h w q s \<Longrightarrow> q \<noteq> [] \<Longrightarrow> queue_head (state s) = hd q"
  by (simp add: inv_def inv_queue_def)

lemma unlock_check_ok:
  assumes S: "simulates s a" and t: "valid_ptr t"
    and p: "pc s t = Unlock_load \<or> pc s t = Unlock_loop st"
  shows "step_ok t a (unlock_slow_check t (state s) s)"
proof -
  note I = simulatesD(1) [OF S]
  have nq: "\<not> qlocks (pc s t)" using p by auto
  have "simulates_after t a (goto t Idle s)" if "qlocked (state s) \<or> queue_head (state s) = null"
  proof (rule goto_ok [OF S t])
    assume "waiting a \<noteq> []"
    then show "active_pc Idle \<or> (\<exists>u. u \<noteq> t \<and> active s u)"
      using that scanner_active [OF I _ nq] empty_queue [OF I] by auto
  qed (use p in auto)
  moreover have "simulates_after t a (goto t (Unlock_loop (state s)) s)"
    if "\<not> qlocked (state s)" "queue_head (state s) \<noteq> null"
    by (rule goto_active_ok [OF S t]) (use p that in auto)
  ultimately show ?thesis by (auto simp: unlock_slow_check_def layout)
qed

lemma queue_lock_ok:
  assumes S: "simulates s a" and t: "valid_ptr t" and ne: "waiting a \<noteq> []"
    and p: "\<not> parked (pc s t)" "\<not> qlocks (pc s t)" "wakes (pc s t) = None"
      "holds_pc (pc s t) = (m = Fair)" "announces (pc s t) = (m = Fair)"
    and st: "state s = st" "\<not> qlocked st"
  shows "simulates_after t a (goto t (scan_from m st) (store (st OR QUEUE_LOCKED_BIT) s))"
proof (rule simulates_afterI [OF scan_begin [OF _ ne]])
  note I = simulatesD(1) [OF S]
  note D = invD [OF I]
  show w: "scanner a = None" using D(2) st by (simp add: inv_qowner_def)
  have set: "settled (heap s) (waiting a)" using D(8) w by (simp add: inv_scan_def)
  have an: "announces (((pc s)(t := scan_from m st)) u) = announces (pc s u)" for u
    using p(5) by (simp add: scan_from_def)
  have "inv (holder a) (Some t) (waiting a)
    (goto t (scan_from m st) (store (st OR QUEUE_LOCKED_BIT) s))"
  proof (rule inv_queue_move [OF I t p(1)])
    show "timeout (st OR QUEUE_LOCKED_BIT) \<longleftrightarrow>
      (\<exists>u. holder a = Some u \<and> announces (((pc s)(t := scan_from m st)) u))"
      using D(3) st unfolding an inv_timeout_def by (simp add: layout)
    show "scan_ok (heap s) (waiting a) (if Some t = None then Idle else scan_from m st)"
      using settled_scan [OF set ne] head_is_hd [OF I ne] st by simp
  qed (use w p st ne in \<open>auto simp: scan_from_def layout\<close>)
  then show "inv (holder (a\<lparr>scanner := Some t\<rparr>)) (scanner (a\<lparr>scanner := Some t\<rparr>))
    (waiting (a\<lparr>scanner := Some t\<rparr>)) (goto t (scan_from m st) (store (st OR QUEUE_LOCKED_BIT) s))"
    by simp
  show "removed (a\<lparr>scanner := Some t\<rparr>) =
    (\<lambda>u. wakes (pc (goto t (scan_from m st) (store (st OR QUEUE_LOCKED_BIT) s)) u))"
    using simulatesD(2) [OF S] p(3) by (auto simp: fun_eq_iff scan_from_def)
qed

lemma unlock_loop_ok:
  assumes S: "simulates s a" and t: "valid_ptr t" and p: "pc s t = Unlock_loop st"
  shows "step_ok t a (unlock_slow_loop e t st s)"
proof -
  note I = simulatesD(1) [OF S]
  have "simulates_after t a (goto t (scan_from Plain st) (store (st OR QUEUE_LOCKED_BIT) s))"
    if "cas_ok e s st"
    using localD [OF I, of t] p that empty_queue [OF I]
    by (intro queue_lock_ok [OF S t]) (auto simp: cas_ok_def)
  moreover have "pc s t = Unlock_load \<or> pc s t = Unlock_loop st" using p by simp
  ultimately show ?thesis
    using unlock_check_ok [OF S t] by (simp add: unlock_slow_loop_def)
qed

lemma fair_loop_ok:
  assumes S: "simulates s a" and t: "valid_ptr t" and p: "pc s t = Fair_loop w st"
  shows "step_ok t a (unlock_slow_fair_loop e t w st s)"
proof -
  note I = simulatesD(1) [OF S]
  have ne: "waiting a \<noteq> []" using localD [OF I, of t] p by simp
  have "simulates_after t a (goto t (Fair_loop w' (state s)) s)" for w'
    by (rule goto_active_ok [OF S t]) (use p ne in auto)
  moreover have "simulates_after t a (goto t (scan_from Fair st) (store (st OR QUEUE_LOCKED_BIT) s))"
    if "cas_ok e s st" "\<not> qlocked st"
    by (rule queue_lock_ok [OF S t ne]) (use p that in \<open>auto simp: cas_ok_def\<close>)
  moreover have "queue_head st \<noteq> null" if "cas_ok e s st"
    using that ne empty_queue [OF I] by (simp add: cas_ok_def)
  ultimately show ?thesis by (simp add: unlock_slow_fair_loop_def Let_def layout)
qed

lemma fair_load_ok:
  assumes S: "simulates s a" and t: "valid_ptr t" and p: "pc s t = Fair_load w"
  shows "simulates_after t a (goto t (Fair_loop w (state s)) s)"
  by (rule goto_active_ok [OF S t]) (use localD [OF simulatesD(1) [OF S], of t] p in auto)

subsection \<open>Walking the queue\<close>

lemma inv_write:
  assumes I: "inv h w q s" and x: "x \<in> set q" "heap s x = Some d"
    and d': "parker d' = parker d" "unpark_token d' = unpark_token d"
    and o: "qlocks (pc s t)" "scan_ok ((heap s)(x \<mapsto> d')) q (pc s t)"
  shows "inv h w q (write_node x d' s)" (is "inv _ _ _ ?s")
proof
  note D = invD [OF I]
  have same: "holds ?s = holds s" "asleep ?s = asleep s" "active ?s = active s"
    using x d' by (auto simp: holds_def asleep_def active_def fun_eq_iff)
  have w: "w = Some t" using qownerD [OF I o(1)] .
  show "inv_holder h ?s" using D(1) by (simp add: inv_holder_def same)
  show "inv_qowner w ?s" using D(2) by (simp add: inv_qowner_def)
  show "inv_timeout h ?s" using D(3) by (simp add: inv_timeout_def)
  show "inv_nodes ?s" using D(4) x d' by (auto simp: inv_nodes_def)
  show "inv_queue q ?s" using D(5) by (simp add: inv_queue_def same)
  show "inv_wakers q ?s" using D(6) by (simp add: inv_wakers_def same)
  show "inv_parked q ?s" using D(7) by (simp add: inv_parked_def same)
  show "inv_scan q w ?s" using o w by (simp add: inv_scan_def)
  show "inv_local q ?s" using D(9) by (simp add: inv_local_def)
  show "inv_progress q ?s" using D(10) by (simp add: inv_progress_def same)
qed

lemma links_node:
  assumes I: "inv h w q s" and "i < length q"
  obtains d where "heap s (q ! i) = Some d" "\<And>f :: thread_data \<Rightarrow> ptr. field f (heap s) (q ! i) = f d"
  using queue_valid(2) [OF I nth_mem [OF assms(2)]] by (auto simp: field_def)

lemma links_at:
  assumes L: "links H q a c k"
  shows "a \<le> c" "c \<le> k" "k < length q" "q \<noteq> []" "c < length q" "a < length q"
    "Suc i < length q \<Longrightarrow> field next H (q ! i) = q ! Suc i"
    "i < k \<Longrightarrow> field queue_tail H (q ! i) = null" "field queue_tail H (q ! k) = last q"
    "i \<le> a \<Longrightarrow> field prev H (q ! i) = null"
    "Suc i < length q \<Longrightarrow> a \<le> i \<Longrightarrow> i < c \<or> k \<le> i \<Longrightarrow> field prev H (q ! Suc i) = q ! i"
  using L unfolding links_def by auto

text \<open>Writing one field of one queued node.\<close>

lemma links_set_prev:
  assumes L: "links H q a c k" and d: "distinct q" and c: "c < k"
    and n: "H (q ! Suc c) = Some n"
  shows "links (H(q ! Suc c \<mapsto> n\<lparr>prev := q ! c\<rparr>)) q a c k"
    "links (H(q ! Suc c \<mapsto> n\<lparr>prev := q ! c\<rparr>)) q a (Suc c) k"
proof -
  let ?H = "H(q ! Suc c \<mapsto> n\<lparr>prev := q ! c\<rparr>)"
  note A = links_at [OF L]
  have len: "Suc c < length q" using A c by simp
  have F: "field next ?H x = field next H x" "field queue_tail ?H x = field queue_tail H x" for x
    using n by (auto simp: field_def)
  have P: "field prev ?H (q ! i) = (if i = Suc c then q ! c else field prev H (q ! i))"
    if "i < length q" for i
    using that len d n by (auto simp: field_def nth_eq_iff_index_eq)
  show "links ?H q a c k" "links ?H q a (Suc c) k"
    using L c len unfolding links_def F by (auto simp: P less_Suc_eq)
qed

lemma links_set_tail:
  assumes L: "links H q a k k" and d: "distinct q" and n: "H (q ! a) = Some n"
  shows "links (H(q ! a \<mapsto> n\<lparr>queue_tail := last q\<rparr>)) q a a a"
proof -
  let ?H = "H(q ! a \<mapsto> n\<lparr>queue_tail := last q\<rparr>)"
  note A = links_at [OF L]
  have F: "field next ?H x = field next H x" "field prev ?H x = field prev H x" for x
    using n by (auto simp: field_def)
  have P: "field queue_tail ?H (q ! i) = (if i = a then last q else field queue_tail H (q ! i))"
    if "i < length q" for i
    using that A d n by (auto simp: field_def nth_eq_iff_index_eq)
  have "field prev H (q ! Suc i) = q ! i" if "Suc i < length q" "a \<le> i" for i
    using A(11) [OF that] by linarith
  then show ?thesis using L A unfolding links_def F by (auto simp: P)
qed

lemma links_butlast:
  assumes L: "links H q a a a" and d: "distinct q" and a: "Suc a < length q"
    and n: "H (q ! a) = Some n"
  shows "links (H(q ! a \<mapsto> n\<lparr>queue_tail := q ! (length q - 2)\<rparr>)) (butlast q) a a a"
proof -
  let ?H = "H(q ! a \<mapsto> n\<lparr>queue_tail := q ! (length q - 2)\<rparr>)"
  note A = links_at [OF L]
  have F: "field next ?H x = field next H x" "field prev ?H x = field prev H x" for x
    using n by (auto simp: field_def)
  have P: "field queue_tail ?H (q ! i) =
      (if i = a then q ! (length q - 2) else field queue_tail H (q ! i))" if "i < length q" for i
    using that A d n by (auto simp: field_def nth_eq_iff_index_eq)
  have ne: "butlast q \<noteq> []" using a by (cases q rule: rev_cases) auto
  have "last (butlast q) = butlast q ! (length (butlast q) - 1)" by (rule last_conv_nth [OF ne])
  then have last: "last (butlast q) = q ! (length q - 2)"
    using a by (simp add: nth_butlast numeral_2_eq_2)
  show ?thesis
    using L A a unfolding links_def F last by (auto simp: P nth_butlast)
qed

text \<open>One round of \<open>link_prev_nodes!\<close> either finds the tail or links one more node.\<close>

lemma link_step:
  assumes I: "inv h w q s" and L: "links (heap s) q i c k"
  shows "c = k \<Longrightarrow> link_prev_nodes t m st (q ! c) s = Next (goto t (Scanned m st (last q)) s)"
    "c < k \<Longrightarrow> \<exists>n. heap s (q ! Suc c) = Some n \<and> link_prev_nodes t m st (q ! c) s =
      Next (goto t (Scan m st (q ! Suc c)) (write_node (q ! Suc c) (n\<lparr>prev := q ! c\<rparr>) s))"
proof -
  note A = links_at [OF L]
  obtain d where d: "heap s (q ! c) = Some d"
    and fd: "\<And>f :: thread_data \<Rightarrow> ptr. field f (heap s) (q ! c) = f d"
    using links_node [OF I A(5)] by blast
  {
    assume "c = k"
    then have "queue_tail d = last q" using A(9) fd by simp
    moreover have "last q \<noteq> null"
      using queue_valid(1) [OF I] valid_ptr_not_null A(4) last_in_set by blast
    ultimately show "link_prev_nodes t m st (q ! c) s = Next (goto t (Scanned m st (last q)) s)"
      by (simp add: link_prev_nodes_def deref_def d)
  next
    assume c: "c < k"
    then have c': "Suc c < length q" using A(3) by simp
    obtain n where n: "heap s (q ! Suc c) = Some n" using links_node [OF I c'] by blast
    moreover have "queue_tail d = null" "next d = q ! Suc c"
      using A(8) [OF c] A(7) [OF c'] fd by simp_all
    ultimately show "\<exists>n. heap s (q ! Suc c) = Some n \<and> link_prev_nodes t m st (q ! c) s =
      Next (goto t (Scan m st (q ! Suc c)) (write_node (q ! Suc c) (n\<lparr>prev := q ! c\<rparr>) s))"
      by (simp add: link_prev_nodes_def deref_def d)
  }
qed

lemma scan_step_ok:
  assumes S: "simulates s a" and t: "valid_ptr t" and p: "pc s t = Scan m st cur"
  shows "step_ok t a (link_prev_nodes t m st cur s)"
proof -
  note I = simulatesD(1) [OF S]
  let ?q = "waiting a"
  have dist: "distinct ?q" using invD(5) [OF I] by (simp add: inv_queue_def)
  have o: "qlocks (pc s t)" using p by simp
  obtain i c k where L: "links (heap s) ?q i c k" and st: "queue_head st = ?q ! i" and cur: "cur = ?q ! c"
    using scanD [OF I o] p by auto
  note A = links_at [OF L]
  show ?thesis
  proof (cases "c = k")
    case True
    have "simulates_after t a (goto t (Scanned m st (last ?q)) s)"
      by (rule goto_ok [OF S t]) (use p L st True A(4) in auto)
    then show ?thesis using link_step(1) [OF I L True] cur by simp
  next
    case False
    then have c: "c < k" using A(2) by simp
    then have c': "Suc c < length ?q" using A(3) by simp
    obtain n where n: "heap s (?q ! Suc c) = Some n" and step: "link_prev_nodes t m st (?q ! c) s =
      Next (goto t (Scan m st (?q ! Suc c)) (write_node (?q ! Suc c) (n\<lparr>prev := ?q ! c\<rparr>) s))"
      using link_step(2) [OF I L c] by blast
    let ?s = "write_node (?q ! Suc c) (n\<lparr>prev := ?q ! c\<rparr>) s"
    note P = links_set_prev [OF L dist c n]
    have "inv (holder a) (scanner a) ?q ?s"
      by (rule inv_write [OF I _ n, where t = t]) (use c' p P(1) st cur in auto)
    then have "simulates ?s a" using simulatesD(2) [OF S] by (simp add: simulates_def)
    then have "simulates_after t a (goto t (Scan m st (?q ! Suc c)) ?s)"
      by (rule goto_ok [OF _ t]) (use p P(2) st A(4) in auto)
    then show ?thesis using step cur by simp
  qed
qed

subsection \<open>Removing the oldest waiter\<close>

lemma removed_upd:
  "(\<lambda>u. wakes (pc s u)) = r \<Longrightarrow> (\<lambda>u. wakes (((pc s)(t := c)) u)) = r(t := wakes c)"
  by (auto simp: fun_eq_iff)

text \<open>The oldest waiter leaves the queue while younger ones stay.\<close>

lemma inv_remove:
  assumes I: "inv h w q s" and t: "valid_ptr t" and p: "pc s t = Scanned m st qt"
    and L: "links (heap s) q a a a" "queue_head st = q ! a" "Suc a < length q"
    and n: "heap s (q ! a) = Some n"
  shows "inv h w (butlast q) (goto t (Pop_clear m (last q))
    (write_node (q ! a) (n\<lparr>queue_tail := q ! (length q - 2)\<rparr>) s))" (is "inv _ _ _ ?s")
proof
  note D = invD [OF I]
  have dist: "distinct q" using D(5) by (simp add: inv_queue_def)
  obtain y ys where "q = y # ys" using L(3) by (cases q) auto
  have ne: "q \<noteq> []" "butlast q \<noteq> []" using L(3) by (cases q rule: rev_cases; auto)+
  have q: "set q = insert (last q) (set (butlast q))" "last q \<notin> set (butlast q)"
    using dist ne by (metis append_butlast_last_id list.set(1) list.simps(15) set_append
        Un_insert_right Un_empty_right distinct_append disjoint_iff insertI1)+
  have hd: "hd (butlast q) = hd q" using ne by (cases q rule: rev_cases) auto
  have same: "holds ?s = holds s" "asleep ?s = asleep s"
    using p n heap_none [OF I, of t] by (auto simp: holds_def asleep_def fun_eq_iff)
  have last: "asleep s (last q)" using D(5) q(1) by (simp add: inv_queue_def)
  show "inv_holder h ?s" using D(1) by (simp add: inv_holder_def same)
  have "qlocks (pc ?s u) = qlocks (pc s u)" for u using p by simp
  then show "inv_qowner w ?s" using D(2) by (simp add: inv_qowner_def)
  have an: "announces (pc ?s u) = announces (pc s u)" for u using p by simp
  show "inv_timeout h ?s" using D(3) unfolding inv_timeout_def an by simp
  show "inv_nodes ?s" using D(4) n p t heap_none [OF I, of t] by (auto simp: inv_nodes_def)
  show "inv_queue (butlast q) ?s"
    using D(5) ne hd q(1) by (simp add: inv_queue_def same distinct_butlast)
  have wk: "wakes (pc ?s u) = (if u = t then Some (last q) else wakes (pc s u))" for u by simp
  show "inv_wakers (butlast q) ?s"
    using D(6) q last unfolding inv_wakers_def same wk by (auto split: if_splits)
  show "inv_parked (butlast q) ?s"
  proof -
    have "x \<in> set (butlast q) \<or> (\<exists>u. wakes (pc ?s u) = Some x)" if sleeping: "asleep s x" for x
    proof -
      consider "x = last q" | "x \<in> set (butlast q)" | u where "wakes (pc s u) = Some x"
        using D(7) sleeping unfolding inv_parked_def q(1) by blast
      then show ?thesis
      proof cases
        case 3
        then have "u \<noteq> t" using p by auto
        then show ?thesis using 3 wk by metis
      qed (use wk in metis)+
    qed
    then show ?thesis by (simp only: inv_parked_def same) simp
  qed
  have "w = Some t" using qownerD [OF I, of t] p by simp
  moreover have "settled (heap ?s) (butlast q)"
    using links_butlast [OF L(1) dist L(3) n] by (auto simp: settled_def)
  ultimately show "inv_scan (butlast q) w ?s" by (simp add: inv_scan_def)
  have "local_ok (butlast q) c" if "local_ok q c" for c using that ne by (cases c) auto
  then show "inv_local (butlast q) ?s" using D(9) by (simp add: inv_local_def)
  have "active ?s t" by (simp add: active_def)
  then show "inv_progress (butlast q) ?s" unfolding inv_progress_def by blast
qed

lemma take_tail_ok:
  assumes S: "simulates s a" and t: "valid_ptr t" and p: "pc s t = Scanned m st (last (waiting a))"
    and L: "links (heap s) (waiting a) i i i" "queue_head st = waiting a ! i"
    and m: "m = Plain \<Longrightarrow> \<not> locked st"
  shows "step_ok t a (take_tail t m st (last (waiting a)) s)"
proof -
  note I = simulatesD(1) [OF S]
  let ?q = "waiting a"
  note A = links_at [OF L(1)]
  have last: "last ?q = ?q ! (length ?q - 1)" using A(4) by (rule last_conv_nth)
  obtain d where d: "heap s (last ?q) = Some d" and fd: "field prev (heap s) (last ?q) = prev d"
    using links_node [OF I, of "length ?q - 1"] A(4) last by (metis diff_less length_greater_0_conv zero_less_one)
  obtain n where n: "heap s (?q ! i) = Some n" using links_node [OF I A(6)] by blast
  show ?thesis
  proof (cases "Suc i < length ?q")
    case False
    then have i: "i = length ?q - 1" using A(6) by simp
    have "prev d = null" using A(10) [of i] i last fd by simp
    moreover have "settled (heap s) ?q" using L(1) by (auto simp: settled_def)
    then have "simulates_after t a (goto t (Pop_last m st (last ?q)) s)"
      by (intro goto_ok [OF S t]) (use p m A(4) L(2) i last in auto)
    ultimately show ?thesis by (simp add: take_tail_def deref_def d)
  next
    case True
    have "length ?q - 1 = Suc (length ?q - 2)" using True by simp
    then have "prev d = ?q ! (length ?q - 2)"
      using A(11) [of "length ?q - 2"] True last fd by simp
    moreover from this have "prev d \<noteq> null"
      using queue_valid(1) [OF I, of "?q ! (length ?q - 2)"] valid_ptr_not_null True by simp
    moreover have "simulates_after t a (goto t (Pop_clear m (last ?q))
      (write_node (?q ! i) (n\<lparr>queue_tail := ?q ! (length ?q - 2)\<rparr>) s))" (is "simulates_after t a ?s")
    proof (rule simulates_afterI)
      have "butlast ?q \<noteq> []" using True by (cases ?q rule: rev_cases) auto
      then show "spec_step t a (a\<lparr>waiting := butlast ?q, removed := (removed a)(t \<mapsto> last ?q)\<rparr>)"
        using A(4) qownerD [OF I, of t] p by (intro remove_oldest) auto
      show "inv (holder (a\<lparr>waiting := butlast ?q, removed := (removed a)(t \<mapsto> last ?q)\<rparr>))
        (scanner (a\<lparr>waiting := butlast ?q, removed := (removed a)(t \<mapsto> last ?q)\<rparr>))
        (waiting (a\<lparr>waiting := butlast ?q, removed := (removed a)(t \<mapsto> last ?q)\<rparr>)) ?s"
        using inv_remove [OF I t p L True n] by simp
    qed (use removed_upd [OF simulatesD(2) [OF S, symmetric], of t "Pop_clear m (last ?q)"] in simp)
    ultimately show ?thesis by (simp add: take_tail_def deref_def set_tail_def d n L(2))
  qed
qed

text \<open>\<open>queue_tail\<close> is set on the head, then the oldest waiter is looked at.\<close>

lemma scanned_ok:
  assumes S: "simulates s a" and t: "valid_ptr t" and p: "pc s t = Scanned m st qt"
  shows "m = Plain \<Longrightarrow> step_ok t a (unlock_slow_scanned t st qt s)"
    "m = Fair \<Longrightarrow> step_ok t a (unlock_slow_fair_scanned t st qt s)"
proof -
  note I = simulatesD(1) [OF S]
  let ?q = "waiting a"
  have dist: "distinct ?q" using invD(5) [OF I] by (simp add: inv_queue_def)
  have o: "qlocks (pc s t)" using p by simp
  obtain i k where L: "links (heap s) ?q i k k" and st: "queue_head st = ?q ! i" and qt: "qt = last ?q"
    using scanD [OF I o] p by auto
  note A = links_at [OF L]
  obtain n where n: "heap s (?q ! i) = Some n" using links_node [OF I A(6)] by blast
  let ?s = "write_node (?q ! i) (n\<lparr>queue_tail := last ?q\<rparr>) s"
  note P = links_set_tail [OF L dist n]
  have "inv (holder a) (scanner a) ?q ?s"
    by (rule inv_write [OF I _ n, where t = t]) (use A(6) p P st qt in auto)
  then have S': "simulates ?s a" using simulatesD(2) [OF S] by (simp add: simulates_def)
  have take: "step_ok t a (take_tail t m st qt ?s)" if "m = Plain \<Longrightarrow> \<not> locked st"
    using take_tail_ok [OF S' t _ _ st that] P p qt by simp
  have "settled (heap ?s) ?q" using P by (auto simp: settled_def)
  then have "simulates_after t a (goto t (Release st) ?s)" if "locked st" "m = Plain"
    by (intro goto_ok [OF S' t]) (use p A(4) that in auto)
  then show "m = Plain \<Longrightarrow> step_ok t a (unlock_slow_scanned t st qt s)"
    using take by (simp add: unlock_slow_scanned_def set_tail_def deref_def st n qt and_bit_eq_0)
  show "m = Fair \<Longrightarrow> step_ok t a (unlock_slow_fair_scanned t st qt s)"
    using take by (simp add: unlock_slow_fair_scanned_def set_tail_def deref_def st n qt)
qed

lemma retry_ok:
  assumes S: "simulates s a" and t: "valid_ptr t"
    and p: "pc s t = Release st \<and> m = Plain \<or> pc s t = Pop_last m st qt"
  shows "waiting a \<noteq> []" "settled (heap s) (waiting a)"
    "simulates_after t a (goto t (scan_from m (state s)) s)"
proof -
  note I = simulatesD(1) [OF S]
  have o: "qlocks (pc s t)" using p by auto
  show ne: "waiting a \<noteq> []" and set: "settled (heap s) (waiting a)"
    using scanD [OF I o] p by auto
  have "scan_ok (heap s) (waiting a) (scan_from m (state s))"
    by (rule settled_scan [OF set ne head_is_hd [OF I ne]])
  then show "simulates_after t a (goto t (scan_from m (state s)) s)"
    by (intro goto_ok [OF S t]) (use p ne in \<open>auto simp: scan_from_def\<close>)
qed

lemma release_ok:
  assumes S: "simulates s a" and t: "valid_ptr t" and p: "pc s t = Release st"
  shows "step_ok t a (unlock_slow_release e t st s)"
proof (cases "cas_ok e s st")
  case True
  note I = simulatesD(1) [OF S]
  note D = invD [OF I]
  let ?s = "goto t Idle (store (st AND NOT QUEUE_LOCKED_BIT) s)"
  have o: "qlocks (pc s t)" using p by simp
  have w: "scanner a = Some t" using qownerD [OF I o] .
  have st: "state s = st" "locked st" "settled (heap s) (waiting a)"
    using True scanD [OF I o] p by (auto simp: cas_ok_def)
  have an: "announces (((pc s)(t := Idle)) u) = announces (pc s u)" for u using p by simp
  have "inv (holder a) None (waiting a) ?s"
  proof (rule inv_queue_move [OF I t])
    show "timeout (st AND NOT QUEUE_LOCKED_BIT) \<longleftrightarrow>
      (\<exists>u. holder a = Some u \<and> announces (((pc s)(t := Idle)) u))"
      using D(3) st unfolding an inv_timeout_def by (simp add: layout)
  qed (use w p st in \<open>auto simp: layout\<close>)
  then have "simulates_after t a ?s"
    using removed_upd [OF simulatesD(2) [OF S, symmetric], of t Idle] w p simulatesD(2) [OF S]
    by (intro simulates_afterI [OF scan_end]) (auto simp: fun_eq_iff)
  then show ?thesis using True by (simp add: unlock_slow_release_def)
next
  case False
  have "pc s t = Release st \<and> Plain = Plain \<or> pc s t = Pop_last Plain st null" using p by simp
  from retry_ok(3) [OF S t this] show ?thesis using False by (simp add: unlock_slow_release_def)
qed

lemma pop_clear_ok:
  assumes S: "simulates s a" and t: "valid_ptr t" and p: "pc s t = Pop_clear m qt"
    and v: "v = (if m = Plain then state s AND NOT QUEUE_LOCKED_BIT
      else state s AND NOT (QUEUE_LOCKED_BIT OR TIMEOUT_BIT))"
  shows "simulates_after t a (goto t (Wake m qt) (store v s))" (is "simulates_after t a ?s")
proof (rule simulates_afterI [OF scan_end])
  note I = simulatesD(1) [OF S]
  note D = invD [OF I]
  have o: "qlocks (pc s t)" using p by simp
  show w: "scanner a = Some t" using qownerD [OF I o] .
  have set: "settled (heap s) (waiting a)" using scanD [OF I o] p by simp
  have layout_v: "locked v = locked (state s)" "\<not> qlocked v" "queue_head v = queue_head (state s)"
    "timeout v = (m = Plain \<and> timeout (state s))"
    unfolding v by (cases m; simp add: layout)+
  have "m = Fair \<Longrightarrow> holder a = Some t" using holderD [OF I, of t] p by simp
  moreover have "m = Plain \<Longrightarrow> announces (((pc s)(t := Wake m qt)) u) = announces (pc s u)" for u
    using p by simp
  ultimately have "timeout v \<longleftrightarrow> (\<exists>u. holder a = Some u \<and> announces (((pc s)(t := Wake m qt)) u))"
    using D(3) unfolding layout_v inv_timeout_def by (cases m) auto
  then have "inv (holder a) None (waiting a) ?s"
    by (intro inv_queue_move [OF I t]) (use p w set layout_v in auto)
  then show "inv (holder (a\<lparr>scanner := None\<rparr>)) (scanner (a\<lparr>scanner := None\<rparr>))
    (waiting (a\<lparr>scanner := None\<rparr>)) ?s" by simp
qed (use simulatesD(2) [OF S] p in \<open>auto simp: fun_eq_iff\<close>)

lemma local_ok_empty:
  "local_ok q c \<Longrightarrow> \<not> holds_pc c \<Longrightarrow> \<not> qlocks c \<Longrightarrow> local_ok [] c"
  by (cases c) auto

text \<open>The exchange that removes the only waiter also releases the queue lock.\<close>

lemma inv_pop_last:
  assumes I: "inv h w [qt] s" and t: "valid_ptr t" and p: "pc s t = Pop_last m st qt"
    and m: "m = Plain \<longrightarrow> \<not> locked (state s)"
    and v: "locked v = locked (state s)" "\<not> qlocked v" "queue_head v = null"
      "timeout v = (m = Plain \<and> timeout (state s))"
  shows "inv h None [] (goto t (Wake m qt) (store v s))" (is "inv _ _ _ ?s")
proof
  note D = invD [OF I]
  have none: "heap s t = None" using heap_none [OF I, of t] p by simp
  have w: "w = Some t" using qownerD [OF I, of t] p by simp
  have same: "holds ?s = holds s" "asleep ?s = asleep s"
    using p none by (auto simp: holds_def asleep_def fun_eq_iff)
  show "inv_holder h ?s" using D(1) v by (simp add: inv_holder_def same)
  show "inv_qowner None ?s" using D(2) v p w by (auto simp: inv_qowner_def)
  have "m = Fair \<Longrightarrow> h = Some t" using holderD [OF I, of t] p by simp
  moreover have "m = Plain \<Longrightarrow> announces (pc ?s u) = announces (pc s u)" for u using p by simp
  ultimately show "inv_timeout h ?s"
    using D(3) v unfolding inv_timeout_def by (cases m) (auto split: if_splits)
  show "inv_nodes ?s" using D(4) p t by (auto simp: inv_nodes_def)
  show "inv_queue [] ?s" using v by (simp add: inv_queue_def)
  have wk: "wakes (pc ?s u) = (if u = t then Some qt else wakes (pc s u))" for u by simp
  have qt: "asleep s qt" using D(5) by (simp add: inv_queue_def)
  show "inv_wakers [] ?s" using D(6) qt unfolding inv_wakers_def same wk by (auto split: if_splits)
  have "wakes (pc s t) = None" using p by simp
  then have "asleep s x \<Longrightarrow> x = qt \<or> (\<exists>u. u \<noteq> t \<and> wakes (pc s u) = Some x)" for x
    using D(7) unfolding inv_parked_def by (metis empty_iff insert_iff list.set option.distinct(1))
  then show "inv_parked [] ?s" unfolding inv_parked_def same wk by metis
  show "inv_scan [] None ?s" by (simp add: inv_scan_def settled_def)
  have "\<not> holds_pc (pc s u)" if "u \<noteq> t" for u
  proof
    assume u: "holds_pc (pc s u)"
    then have "locked (state s)" using holder_word [OF I] by simp
    then have "h = Some t" using m p holderD [OF I, of t] by (cases m) auto
    then show False using holderD [OF I u] that by simp
  qed
  moreover have "\<not> qlocks (pc s u)" if "u \<noteq> t" for u
    using that w qowner_iff [OF I, of u] by auto
  ultimately have "local_ok [] (pc ?s u)" for u
    using local_ok_empty localD [OF I, of u] by auto
  then show "inv_local [] ?s" by (simp add: inv_local_def)
  show "inv_progress [] ?s" by (simp add: inv_progress_def)
qed

lemma pop_last_ok:
  assumes S: "simulates s a" and t: "valid_ptr t" and p: "pc s t = Pop_last m st qt"
  shows "m = Plain \<Longrightarrow> step_ok t a (unlock_slow_pop_last e t st qt s)"
    "m = Fair \<Longrightarrow> step_ok t a (unlock_slow_fair_pop_last e t st qt s)"
proof -
  note I = simulatesD(1) [OF S]
  have o: "qlocks (pc s t)" using p by simp
  have w: "scanner a = Some t" using qownerD [OF I o] .
  have st: "settled (heap s) (waiting a)" "waiting a \<noteq> []" "qt = last (waiting a)"
    "queue_head st = qt" "m = Plain \<longrightarrow> \<not> locked st"
    using scanD [OF I o] p by auto
  have pop: "simulates_after t a (goto t (Wake m qt) (store v s))"
    if "cas_ok e s st" and v: "locked v = locked st" "\<not> qlocked v" "queue_head v = null"
      "timeout v = (m = Plain \<and> timeout st)" for v
  proof -
    have st': "state s = st" using that(1) by (simp add: cas_ok_def)
    have "hd (waiting a) = last (waiting a)" using head_is_hd [OF I st(2)] st st' by simp
    moreover have "distinct (waiting a)" using invD(5) [OF I] by (simp add: inv_queue_def)
    ultimately have q: "waiting a = [qt]"
      using st(2,3) by (cases "waiting a") (auto split: if_splits)
    have h: "holder a = None \<or> holder a = Some t"
      using holderD [OF I, of t] p invD(1) [OF I] st(5) st' by (cases m) (auto simp: inv_holder_def)
    have "inv (holder a) None [] (goto t (Wake m qt) (store v s))"
      using inv_pop_last [OF I [unfolded q] t p] st(5) st' v by simp
    then show ?thesis
      using removed_upd [OF simulatesD(2) [OF S, symmetric], of t "Wake m qt"]
      by (intro simulates_afterI [OF remove_only [OF w q h]]) simp_all
  qed
  have retry: "step_ok t a (pop_retry t m qt s)"
    using retry_ok(3) [OF S t] p st(2) empty_queue [OF I] by (simp add: pop_retry_def)
  show "m = Plain \<Longrightarrow> step_ok t a (unlock_slow_pop_last e t st qt s)"
    using pop retry by (simp add: unlock_slow_pop_last_def layout)
  show "m = Fair \<Longrightarrow> step_ok t a (unlock_slow_fair_pop_last e t st qt s)"
    using pop retry by (simp add: unlock_slow_fair_pop_last_def layout)
qed

subsection \<open>Waking the removed waiter\<close>

lemma inv_wake:
  assumes I: "inv h w q s" and t: "valid_ptr t" and p: "pc s t = Wake m x"
    and d: "heap s x = Some d"
    and d': "parker d'" "unpark_token d' = (if m = Plain then unpark_token d else TOKEN_HANDOFF)"
    and h': "h' = (if m = Plain then h else Some x)"
  shows "inv h' w q (goto t Idle (write_node x d' s))" (is "inv _ _ _ ?s")
proof
  note D = invD [OF I]
  have wt: "wakes (pc s t) = Some x" using p by simp
  then have x: "asleep s x" "x \<notin> set q" using D(6) unfolding inv_wakers_def by blast+
  have none: "heap s t = None" using heap_none [OF I, of t] p by simp
  then have xt: "x \<noteq> t" using d by auto
  have token: "unpark_token d = 0" "(0 :: u64) \<noteq> TOKEN_HANDOFF"
    using x(1) d by (auto simp: asleep_def TOKEN_HANDOFF_def TIMEOUT_BIT_def)
  have px: "parked (pc s x)" using D(4) d by (auto simp: inv_nodes_def)
  then have npx: "\<not> holds_pc (pc s x)" "\<not> announces (pc s x)" by (cases "pc s x"; auto)+
  have asleep: "asleep ?s y \<longleftrightarrow> asleep s y \<and> y \<noteq> x" for y using d' by (auto simp: asleep_def)
  have ht: "m = Fair \<Longrightarrow> h = Some t" using holderD [OF I, of t] p by simp
  show "inv_holder h' ?s"
  proof (cases m)
    case Plain
    then have "holds ?s = holds s" using p none d d' by (auto simp: holds_def fun_eq_iff)
    then show ?thesis using D(1) Plain h' by (simp add: inv_holder_def)
  next
    case Fair
    have "holds ?s y \<longleftrightarrow> y = x" for y
      using Fair ht d' xt npx none holder_iff [OF I, of y] by (auto simp: holds_def)
    then show ?thesis using D(1) Fair h' ht by (auto simp: inv_holder_def)
  qed
  have "qlocks (pc ?s y) = qlocks (pc s y)" for y using p by simp
  then show "inv_qowner w ?s" using D(2) by (simp add: inv_qowner_def)
  have an: "announces (pc ?s y) = announces (pc s y)" for y using p by simp
  show "inv_timeout h' ?s"
    using D(3) p h' ht npx unfolding inv_timeout_def an by (cases m) auto
  show "inv_nodes ?s" using D(4) d d' token p px none by (auto simp: inv_nodes_def)
  show "inv_queue q ?s" using D(5) x by (auto simp: inv_queue_def asleep)
  have wk: "wakes (pc ?s u) = (if u = t then None else wakes (pc s u))" for u by simp
  have wx: "wakes (pc s u) = Some x \<Longrightarrow> u = t" for u
    using D(6) wt unfolding inv_wakers_def by blast
  show "inv_wakers q ?s"
    using D(6) wx unfolding inv_wakers_def wk asleep by (auto split: if_splits)
  have "asleep s y \<Longrightarrow> y \<noteq> x \<Longrightarrow> y \<in> set q \<or> (\<exists>u. u \<noteq> t \<and> wakes (pc s u) = Some y)" for y
    using D(7) wt unfolding inv_parked_def by (metis option.inject)
  then show "inv_parked q ?s" unfolding inv_parked_def asleep wk by metis
  have "heap ?s y = heap s y" if "y \<in> set q" for y using that x by auto
  from scan_ok_cong [of q "heap ?s" "heap s", OF this]
  have sc: "scan_ok (heap ?s) q c = scan_ok (heap s) q c" for c .
  have "pc ?s u = pc s u" if "w = Some u" for u using that qowner_iff [OF I, of t] p by auto
  then have w: "(case w of None \<Rightarrow> Idle | Some u \<Rightarrow> pc ?s u) = (case w of None \<Rightarrow> Idle | Some u \<Rightarrow> pc s u)"
    by (auto split: option.splits)
  show "inv_scan q w ?s" using D(8) unfolding inv_scan_def w sc .
  show "inv_local q ?s" using D(9) by (simp add: inv_local_def)
  have "active ?s x" using d' by (simp add: active_def)
  then show "inv_progress q ?s" unfolding inv_progress_def by blast
qed

lemma wake_ok:
  assumes S: "simulates s a" and t: "valid_ptr t" and p: "pc s t = Wake m x"
  shows "m = Plain \<Longrightarrow> step_ok t a (unlock_slow_wake t x s)"
    "m = Fair \<Longrightarrow> step_ok t a (unlock_slow_fair_wake t x s)"
proof -
  note I = simulatesD(1) [OF S]
  have wt: "wakes (pc s t) = Some x" using p by simp
  then have r: "removed a t = Some x" using simulatesD(2) [OF S] by simp
  from wt have "asleep s x" using invD(6) [OF I] unfolding inv_wakers_def by blast
  then obtain d where d: "heap s x = Some d" by (auto simp: asleep_def)
  note R = removed_upd [OF simulatesD(2) [OF S, symmetric], of t Idle]
  have "simulates_after t a (goto t Idle (write_node x (d\<lparr>parker := True\<rparr>) s))" if "m = Plain"
    using inv_wake [OF I t p d, of "d\<lparr>parker := True\<rparr>" "holder a"] that R
    by (intro simulates_afterI [OF wake [OF r]]) simp_all
  then show "m = Plain \<Longrightarrow> step_ok t a (unlock_slow_wake t x s)"
    by (simp add: unlock_slow_wake_def deref_def d)
  have "simulates_after t a (goto t Idle
      (write_node x (d\<lparr>unpark_token := TOKEN_HANDOFF, parker := True\<rparr>) s))" if "m = Fair"
    using inv_wake [OF I t p d, of "d\<lparr>unpark_token := TOKEN_HANDOFF, parker := True\<rparr>" "Some x"]
      that R holderD [OF I, of t] p
    by (intro simulates_afterI [OF hand_over [OF r]]) simp_all
  then show "m = Fair \<Longrightarrow> step_ok t a (unlock_slow_fair_wake t x s)"
    by (simp add: unlock_slow_fair_wake_def deref_def d)
qed

subsection \<open>All steps\<close>

theorem exec_ok:
  assumes S: "simulates s a" and t: "valid_ptr t"
  shows "step_ok t a (exec e t s)"
proof (cases "pc s t")
  case Fair_clear
  then show ?thesis using localD [OF simulatesD(1) [OF S], of t] by simp
next
  case (Pop_clear m qt)
  then show ?thesis using pop_clear_ok [OF S t]
    by (cases m) (simp_all add: exec_def unlock_slow_pop_clear_def unlock_slow_fair_pop_clear_def)
next
  case (Scanned m st qt)
  then show ?thesis using scanned_ok [OF S t] by (cases m) (simp_all add: exec_def)
next
  case (Pop_last m st qt)
  then show ?thesis using pop_last_ok [OF S t] by (cases m) (simp_all add: exec_def)
next
  case (Wake m x)
  then show ?thesis using wake_ok [OF S t] by (cases m) (simp_all add: exec_def)
next
  case Unlock_load
  then show ?thesis using unlock_check_ok [OF S t] by (simp add: exec_def)
qed (use S t in \<open>simp_all add: exec_def idle_ok slow_load_ok slow_loop_ok return_ok critical_ok
  fair_or_ok fair_and_ok unlock_loop_ok fair_load_ok fair_loop_ok scan_step_ok release_ok\<close>)

lemma reach_simulates: "reach s \<Longrightarrow> \<exists>a. simulates s a"
proof (induction rule: reach.induct)
  case (reach_init t r)
  show ?case using init_simulates by blast
next
  case (reach_step s t e s')
  then obtain a where "simulates s a" by blast
  from exec_ok [OF this reach_step.hyps(2), of e] reach_step.hyps(3) show ?case
    by (auto simp: simulates_after_def)
qed

end
