(* ===== verification/Raw_Mutex_Props.thy ===== *)
theory Raw_Mutex_Props
  imports Raw_Mutex_Steps
begin

section \<open>RawMutex: what the invariant gives\<close>

text \<open>
  Mutual exclusion, memory safety, the meaning of the flags, the order of the waiters, hand-over
  and the absence of lost wake-ups, for every reachable system. The witnesses use a reachable
  system in which one thread holds the lock.
\<close>

subsection \<open>A reachable system with a holder\<close>

definition calm :: "call \<Rightarrow> env" where
  "calm c = \<lparr>call = c, spurious = False, now = 0\<rparr>"

definition held_sys :: sys where
  "held_sys = goto 8 Critical (store LOCKED_BIT (init_sys 0 1))"

lemma valid_8 [simp]: "valid_ptr 8" "valid_ptr 16"
  by (simp_all add: valid_ptr_def)

lemma init_sys_simps [simp]:
  "state (init_sys t r) = IDLE" "heap (init_sys t r) = (\<lambda>_. None)" "pc (init_sys t r) = (\<lambda>_. Idle)"
  by (simp_all add: init_sys_def raw_mutex_new_def raw_mutex.extend_def)

lemma exec_held: "exec (calm Call_lock) 8 (init_sys 0 1) = Next held_sys"
  by (simp add: exec_def on_idle_def lock_def calm_def cas_ok_def held_sys_def)

lemma reach_held: "reach held_sys"
  by (rule reach_step [OF reach_init _ exec_held]) simp

lemma held_sys_simps [simp]:
  "state held_sys = LOCKED_BIT" "pc held_sys t = (if t = 8 then Critical else Idle)"
  "heap held_sys = (\<lambda>_. None)"
  by (simp_all add: held_sys_def)

subsection \<open>Mutual exclusion and memory safety\<close>

text \<open>
  C1: at most one thread holds the lock: no two threads are in the critical section, in an
  \<open>unlock_fair\<close> that has not given it up, or parked with the lock handed to them.
\<close>

theorem mutual_exclusion:
  assumes "reach s" "holds s t" "holds s u"
  shows "t = u"
proof -
  obtain a where "simulates s a" using reach_simulates [OF assms(1)] by blast
  then have "holder a = Some t" "holder a = Some u"
    using assms holder_iff simulatesD(1) by blast+
  then show ?thesis by simp
qed

theorem mutual_exclusion_witness: "{u. holds held_sys u} = {8}"
proof -
  have h: "holds held_sys 8" by (simp add: holds_def)
  then show ?thesis using mutual_exclusion [OF reach_held _ h] by blast
qed

lemma no_dangling: "reach s \<Longrightarrow> valid_ptr t \<Longrightarrow> exec e t s \<noteq> Fault"
  using reach_simulates exec_ok step_ok_simps(2) by metis

text \<open>
  C2: no step of any thread reads or writes a \<open>ThreadData\<close> that no longer exists or follows a
  null pointer, although nodes live in the frames of the waiting threads.
\<close>

theorem no_dangling_access:
  assumes "reach s" "valid_ptr t"
  shows "exec e t s \<noteq> Fault"
  using no_dangling [OF assms] .

theorem no_dangling_access_witness: "exec (calm Call_unlock) 8 held_sys \<noteq> Fault"
  by (rule no_dangling_access [OF reach_held]) simp

text \<open>A step moves no other thread.\<close>

lemma after_unlock_other: "after_unlock t old s = Next s' \<Longrightarrow> u \<noteq> t \<Longrightarrow> pc s' u = pc s u"
  by (auto simp: after_unlock_def split: if_splits)

lemma take_tail_other: "take_tail t m st qt s = Next s' \<Longrightarrow> u \<noteq> t \<Longrightarrow> pc s' u = pc s u"
  by (auto simp: take_tail_def set_tail_def deref_def split: option.splits if_splits)

lemma park_push_other: "park_push e t w st s = Next s' \<Longrightarrow> u \<noteq> t \<Longrightarrow> pc s' u = pc s u"
  by (auto simp: park_push_def split: if_splits)

lemma exec_other:
  assumes "exec e t s = Next s'" "u \<noteq> t"
  shows "pc s' u = pc s u"
  using assms
  by (cases "pc s t")
     (auto simp: exec_def on_idle_def on_critical_def lock_def try_lock_def unlock_def unlock_fair_def
       lock_slow_load_def lock_slow_loop_def park_return_def deref_def
       unlock_fair_or_def Let_def unlock_fair_and_def unlock_slow_check_def unlock_slow_loop_def
       unlock_slow_fair_loop_def unlock_slow_fair_clear_def link_prev_nodes_def set_tail_def
       unlock_slow_scanned_def unlock_slow_fair_scanned_def unlock_slow_release_def pop_retry_def
       unlock_slow_pop_last_def unlock_slow_fair_pop_last_def unlock_slow_pop_clear_def
       unlock_slow_fair_pop_clear_def unlock_slow_wake_def unlock_slow_fair_wake_def
       dest: after_unlock_other take_tail_other park_push_other
       split: mode.splits option.splits call.splits if_splits prod.splits)

text \<open>
  C3: every step of the code is a step of the abstract lock, which removes only the oldest
  waiter and gives the lock only to a thread that finds it free or to the removed waiter.
\<close>

theorem exec_refines:
  assumes "simulates s a" "valid_ptr t" "exec e t s = Next s'"
  shows "\<exists>a'. spec_step t a a' \<and> simulates s' a'"
  using exec_ok [OF assms(1,2), of e] assms(3) by (simp add: simulates_after_def)

theorem exec_refines_witness: "\<exists>a'. spec_step 8 spec_init a' \<and> simulates held_sys a'"
  by (rule exec_refines [OF init_simulates _ exec_held]) simp

subsection \<open>The flags\<close>

text \<open>
  C9: the flags mean what the code takes them for: \<open>LOCKED_BIT\<close> is set iff some thread holds
  the lock, \<open>QUEUE_LOCKED_BIT\<close> iff exactly one thread is working on the queue, \<open>TIMEOUT_BIT\<close>
  iff a holder is inside a fair unlock that announced itself.
\<close>

theorem flags_meaning:
  assumes "reach s"
  shows "(locked (state s) \<longleftrightarrow> (\<exists>t. holds s t)) \<and> (qlocked (state s) \<longleftrightarrow> (\<exists>!t. qlocks (pc s t))) \<and>
    (timeout (state s) \<longleftrightarrow> (\<exists>t. holds_pc (pc s t) \<and> announces (pc s t)))"
proof -
  obtain a where "simulates s a" using reach_simulates [OF assms] by blast
  then have I: "inv (holder a) (scanner a) (waiting a) s" by (rule simulatesD(1))
  note D = invD [OF I]
  have "locked (state s) \<longleftrightarrow> (\<exists>t. holds s t)"
    using D(1) by (auto simp: inv_holder_def)
  moreover have "qlocked (state s) \<longleftrightarrow> (\<exists>!t. qlocks (pc s t))"
    using D(2) by (auto simp: inv_qowner_def)
  moreover have "announces c \<Longrightarrow> holds_pc c" for c by (cases c) auto
  then have "timeout (state s) \<longleftrightarrow> (\<exists>t. holds_pc (pc s t) \<and> announces (pc s t))"
    using D(3) holderD [OF I] unfolding inv_timeout_def
    by (metis holder_word(2) [OF I])
  ultimately show ?thesis by blast
qed

theorem flags_meaning_witness: "\<exists>t. holds held_sys t"
  using flags_meaning [OF reach_held] by (simp add: layout)

subsection \<open>The order of the waiters\<close>

text \<open>The waiters of a system, newest first: linked by \<open>next\<close> from the address in the state word.\<close>

definition queue_of :: "sys \<Rightarrow> ptr list \<Rightarrow> bool" where
  "queue_of s q \<longleftrightarrow> distinct q \<and> queue_head (state s) = (if q = [] then null else hd q) \<and>
    (\<forall>i. Suc i < length q \<longrightarrow> field next (heap s) (q ! i) = q ! Suc i) \<and>
    set q = {x. asleep s x \<and> (\<forall>u. wakes (pc s u) \<noteq> Some x)}"

lemma scan_ok_links:
  assumes "scan_ok H q c" "q \<noteq> []"
  shows "\<exists>a c k. links H q a c k"
  using assms by (cases c) (auto simp: settled_def)

lemma inv_queue_of:
  assumes I: "inv h w q s"
  shows "queue_of s q"
proof -
  note D = invD [OF I]
  have "field next (heap s) (q ! i) = q ! Suc i" if i: "Suc i < length q" for i
  proof -
    have "q \<noteq> []" using i by auto
    then obtain a c k where "links (heap s) q a c k"
      using D(8) scan_ok_links unfolding inv_scan_def by blast
    then show ?thesis using i by (rule links_at(7))
  qed
  moreover have "x \<in> set q \<longleftrightarrow> asleep s x \<and> (\<forall>u. wakes (pc s u) \<noteq> Some x)" for x
  proof
    assume "x \<in> set q"
    then show "asleep s x \<and> (\<forall>u. wakes (pc s u) \<noteq> Some x)"
      using D(5,6) unfolding inv_queue_def inv_wakers_def by metis
  next
    assume "asleep s x \<and> (\<forall>u. wakes (pc s u) \<noteq> Some x)"
    then show "x \<in> set q" using D(7) unfolding inv_parked_def by metis
  qed
  then have "set q = {x. asleep s x \<and> (\<forall>u. wakes (pc s u) \<noteq> Some x)}" by blast
  ultimately show ?thesis using D(5) unfolding queue_of_def inv_queue_def by blast
qed

lemma queue_of_unique:
  assumes "queue_of s q" "queue_of s q'"
  shows "q = q'"
proof (rule nth_equalityI)
  have set: "set q = set q'" using assms by (simp add: queue_of_def)
  then show len: "length q = length q'"
    using assms distinct_card unfolding queue_of_def by metis
  fix i assume "i < length q"
  then show "q ! i = q' ! i"
  proof (induction i)
    case 0
    then have "q \<noteq> []" "q' \<noteq> []" using len by auto
    moreover from this have "hd q = hd q'" using assms by (simp add: queue_of_def)
    ultimately show ?case by (simp add: hd_conv_nth)
  next
    case (Suc i)
    have "field next (heap s) (q ! i) = q ! Suc i" "field next (heap s) (q' ! i) = q' ! Suc i"
      using assms Suc.prems len by (simp_all add: queue_of_def)
    then show ?case using Suc by simp
  qed
qed

lemma reach_queue_of: "reach s \<Longrightarrow> \<exists>q. queue_of s q"
  using reach_simulates inv_queue_of simulatesD(1) by blast

text \<open>What one step of the abstract lock does to the list.\<close>

lemma spec_step_waiting:
  assumes "spec_step t a a'"
  shows "waiting a' = waiting a \<and> (removed a' t = removed a t \<or> removed a' t = None) \<or>
    (waiting a' = t # waiting a \<and> removed a' = removed a) \<or>
    (\<exists>x. waiting a = waiting a' @ [x] \<and> removed a' t = Some x)"
  using assms by (cases rule: spec_step.cases) auto

text \<open>
  C5: the waiters form one list that the state word and the \<open>next\<close> pointers determine, and a
  step changes it in no other way than to put the stepping thread in front or to take the last
  one off, which is the one the thread then wakes: waiters are served in the order of arrival.
\<close>

theorem fifo:
  assumes "reach s" "valid_ptr t" "exec e t s = Next s'"
  shows "\<exists>q q'. queue_of s q \<and> queue_of s' q' \<and>
    (q' = q \<or> q' = t # q \<or> (\<exists>x. q = q' @ [x] \<and> wakes (pc s' t) = Some x))"
proof -
  obtain a where a: "simulates s a" using reach_simulates [OF assms(1)] by blast
  obtain a' where a': "spec_step t a a'" "simulates s' a'"
    using exec_ok [OF a assms(2), of e] assms(3) by (auto simp: simulates_after_def)
  have "queue_of s (waiting a)" "queue_of s' (waiting a')"
    using a a'(2) simulatesD(1) inv_queue_of by blast+
  moreover have "removed a' t = wakes (pc s' t)" using simulatesD(2) [OF a'(2)] by simp
  ultimately show ?thesis using spec_step_waiting [OF a'(1)] by auto
qed

theorem fifo_witness: "\<exists>q. queue_of held_sys q"
  using fifo [OF reach_init _ exec_held] by auto

text \<open>
  A waiter that a step removes from the queue is the oldest one, and every waiter that was
  not removed is still in the queue.
\<close>

lemma removed_is_oldest:
  assumes "reach s" "valid_ptr t" "exec e t s = Next s'"
    and "wakes (pc s t) = None" "wakes (pc s' t) = Some x"
  shows "\<exists>q. queue_of s (q @ [x]) \<and> queue_of s' q"
proof -
  obtain a where a: "simulates s a" using reach_simulates [OF assms(1)] by blast
  obtain a' where a': "spec_step t a a'" "simulates s' a'"
    using exec_ok [OF a assms(2), of e] assms(3) by (auto simp: simulates_after_def)
  have "removed a' t = Some x" "removed a t = None"
    using assms simulatesD(2) [OF a'(2)] simulatesD(2) [OF a] by simp_all
  with a'(1) have "waiting a = waiting a' @ [x]" by (cases rule: spec_step.cases) auto
  then show ?thesis using a a'(2) simulatesD(1) inv_queue_of by metis
qed

subsection \<open>No lost wake-up, no deadlock\<close>

lemma lost_wakeup:
  assumes "reach s" "asleep s x"
  shows "\<exists>t. active s t \<and> (locked (state s) \<longrightarrow> holds s t)"
proof -
  obtain a where "simulates s a" using reach_simulates [OF assms(1)] by blast
  then have I: "inv (holder a) (scanner a) (waiting a) s" by (rule simulatesD(1))
  note D = invD [OF I]
  show ?thesis
  proof (cases "locked (state s)")
    case True
    then obtain t where t: "holds s t" using D(1) by (auto simp: inv_holder_def)
    moreover have "holds_pc c \<Longrightarrow> active_pc c" for c by (cases c) auto
    moreover have "(0 :: u64) \<noteq> TOKEN_HANDOFF" by (simp add: TOKEN_HANDOFF_def TIMEOUT_BIT_def)
    ultimately have "active s t" using D(4) unfolding holds_def active_def inv_nodes_def by metis
    then show ?thesis using t by blast
  next
    case False
    consider "x \<in> set (waiting a)" | u where "wakes (pc s u) = Some x"
      using D(7) assms(2) unfolding inv_parked_def by blast
    then show ?thesis
    proof cases
      case 1
      then show ?thesis using D(10) False by (auto simp: inv_progress_def)
    next
      case 2
      then have "active_pc (pc s u)" by (cases "pc s u") auto
      then show ?thesis using False by (auto simp: active_def)
    qed
  qed
qed

text \<open>
  C4: no wake-up is lost. While a thread sleeps in \<open>park\<close>, some thread is awake: the holder, who
  will go through \<open>unlock\<close>, if the lock is held, and otherwise a thread in \<open>lock_slow\<close> or
  \<open>unlock_slow\<close> or one that has been unparked.
\<close>

theorem no_lost_wakeup:
  assumes "reach s" "asleep s x"
  shows "\<exists>t. active s t \<and> (locked (state s) \<longrightarrow> holds s t)"
  using lost_wakeup [OF assms] .

text \<open>A thread that is not idle and not asleep is never blocked.\<close>

lemma can_step:
  assumes "pc s t \<noteq> Idle" "parked (pc s t) \<Longrightarrow> \<exists>d. heap s t = Some d \<and> parker d"
  shows "exec (calm Call_unlock) t s \<noteq> Blocked"
  using assms
  by (cases "pc s t")
     (auto simp: exec_def on_critical_def calm_def unlock_def after_unlock_def lock_slow_load_def
       lock_slow_loop_def park_push_def park_return_def deref_def unlock_fair_or_def Let_def
       unlock_fair_and_def unlock_slow_check_def unlock_slow_loop_def unlock_slow_fair_loop_def
       unlock_slow_fair_clear_def link_prev_nodes_def set_tail_def take_tail_def
       unlock_slow_scanned_def unlock_slow_fair_scanned_def unlock_slow_release_def pop_retry_def
       unlock_slow_pop_last_def unlock_slow_fair_pop_last_def unlock_slow_pop_clear_def
       unlock_slow_fair_pop_clear_def unlock_slow_wake_def unlock_slow_fair_wake_def
       split: mode.splits option.splits)

subsection \<open>Schedules\<close>

primrec run :: "(env \<times> ptr) list \<Rightarrow> sys \<Rightarrow> sys outcome" where
  "run [] s = Next s"
| "run (p # ps) s = (case exec (fst p) (snd p) s of Next s' \<Rightarrow> run ps s' | r \<Rightarrow> r)"

definition solo :: "nat \<Rightarrow> env \<Rightarrow> ptr \<Rightarrow> sys \<Rightarrow> sys outcome" where
  "solo n e t = run (replicate n (e, t))"

lemma reach_run:
  "reach s \<Longrightarrow> \<forall>p \<in> set ps. valid_ptr (snd p) \<Longrightarrow> run ps s = Next s' \<Longrightarrow> reach s'"
  by (induction ps arbitrary: s) (auto split: outcome.splits intro: reach_step)

definition waiting_schedule :: "(env \<times> ptr) list" where
  "waiting_schedule = (calm Call_lock, 8) # replicate 13 (calm Call_lock, 16)"

definition removing_schedule :: "(env \<times> ptr) list" where
  "removing_schedule = waiting_schedule @ replicate 11 (calm Call_unlock, 8)"

definition handing_schedule :: "(env \<times> ptr) list" where
  "handing_schedule = waiting_schedule @
    replicate 11 (\<lparr>call = Call_unlock_fair, spurious = False, now = 1\<rparr>, 8)"

lemma outcome_case_iff:
  "(case r of Blocked \<Rightarrow> False | Fault \<Rightarrow> False | Next s \<Rightarrow> P s) \<longleftrightarrow> (\<exists>s. r = Next s \<and> P s)"
  by (cases r) auto

text \<open>The schedules really lead there: 16 is queued, and 8 removes it when it unlocks.\<close>

lemma waiting_run: "\<exists>s. run waiting_schedule (init_sys 0 1) = Next s \<and>
    heap s 16 = Some (thread_data_new\<lparr>queue_tail := 16\<rparr>) \<and> pc s 8 = Critical \<and>
    queue_head (state s) = 16 \<and> \<not> qlocked (state s) \<and> deadline (fair s) = 0"
proof -
  have "case run waiting_schedule (init_sys 0 1) of Blocked \<Rightarrow> False | Fault \<Rightarrow> False
    | Next s \<Rightarrow> heap s 16 = Some (thread_data_new\<lparr>queue_tail := 16\<rparr>) \<and> pc s 8 = Critical \<and>
      queue_head (state s) = 16 \<and> \<not> qlocked (state s) \<and> deadline (fair s) = 0"
    by code_simp
  then show ?thesis by (simp only: outcome_case_iff)
qed

lemma schedule_valid:
  "\<forall>p \<in> set waiting_schedule. valid_ptr (snd p)" "\<forall>p \<in> set (take n removing_schedule). valid_ptr (snd p)"
  "\<forall>p \<in> set (take n handing_schedule). valid_ptr (snd p)"
  by (auto simp: waiting_schedule_def removing_schedule_def handing_schedule_def dest!: in_set_takeD)

theorem no_lost_wakeup_witness: "\<exists>s. reach s \<and> asleep s 16 \<and> (\<exists>t. active s t)"
proof -
  obtain s where s: "run waiting_schedule (init_sys 0 1) = Next s"
    "heap s 16 = Some (thread_data_new\<lparr>queue_tail := 16\<rparr>)" using waiting_run by blast
  have r: "reach s" using reach_run [OF reach_init schedule_valid(1) s(1)] .
  moreover have a: "asleep s 16" using s(2) by (simp add: asleep_def thread_data_new_def)
  ultimately show ?thesis using no_lost_wakeup [OF r a] by blast
qed

text \<open>
  The lock never deadlocks by itself: as long as a thread is inside one of its operations,
  some such thread has a step, whatever the others do.
\<close>

lemma deadlock_free:
  assumes "reach s" "pc s x \<noteq> Idle"
  shows "\<exists>t e s'. pc s t \<noteq> Idle \<and> exec e t s = Next s'"
proof -
  obtain a where a: "simulates s a" using reach_simulates [OF assms(1)] by blast
  note N = invD(4) [OF simulatesD(1) [OF a], unfolded inv_nodes_def]
  have go: "\<exists>e s'. exec e t s = Next s'"
    if t: "pc s t \<noteq> Idle" "parked (pc s t) \<Longrightarrow> \<exists>d. heap s t = Some d \<and> parker d" for t
  proof -
    obtain e where e: "exec e t s \<noteq> Blocked" using can_step [OF t] by blast
    moreover have "exec e t s \<noteq> Fault" using no_dangling [OF assms(1)] N t(1) by blast
    ultimately show ?thesis by (cases "exec e t s") auto
  qed
  show ?thesis
  proof (cases "asleep s x")
    case True
    then obtain t where "active s t" using lost_wakeup [OF assms(1)] by blast
    then have "pc s t \<noteq> Idle" "parked (pc s t) \<Longrightarrow> \<exists>d. heap s t = Some d \<and> parker d"
      using N unfolding active_def by (cases "pc s t"; force)+
    then show ?thesis using go by blast
  next
    case False
    have "parker d" if "heap s x = Some d" for d
      using False N that unfolding asleep_def by blast
    then have "parked (pc s x) \<Longrightarrow> \<exists>d. heap s x = Some d \<and> parker d" using N by blast
    then show ?thesis using go assms(2) by blast
  qed
qed

subsection \<open>Hand-over\<close>

text \<open>
  When a fair unlock wakes the waiter it removed, that waiter holds the lock at once, without
  the lock having been free in between, and its next step returns from \<open>lock\<close> into the critical
  section; a plain unlock only lets the waiter compete again.
\<close>

lemma hand_over_to_waiter:
  assumes "reach s" "valid_ptr t" "pc s t = Wake m x" "exec e t s = Next s'"
  shows "(m = Fair \<longrightarrow> locked (state s) \<and> locked (state s') \<and> holds s t \<and> holds s' x) \<and>
    (\<exists>s'' w. exec e' x s' = Next s'' \<and> pc s'' x = (if m = Fair then Critical else Slow_load w))"
proof -
  obtain a where a: "simulates s a" using reach_simulates [OF assms(1)] by blast
  note I = simulatesD(1) [OF a]
  have wt: "wakes (pc s t) = Some x" using assms(3) by simp
  then have "asleep s x" using invD(6) [OF I] unfolding inv_wakers_def by blast
  then obtain d where d: "heap s x = Some d" "unpark_token d = 0" by (auto simp: asleep_def)
  have zero: "(0 :: u64) \<noteq> TOKEN_HANDOFF" by (simp add: TOKEN_HANDOFF_def TIMEOUT_BIT_def)
  obtain v where v: "pc s x = Parked v"
    using invD(4) [OF I] d(1) unfolding inv_nodes_def by (metis option.distinct(1) parked.elims(2))
  have xt: "x \<noteq> t" using v assms(3) by auto
  have "locked (state s) \<and> holds s t" if "m = Fair"
    using holder_word(1) [OF I, of t] assms(3) that by (simp add: holds_def)
  then show ?thesis
    using assms(3,4) d zero v xt
    by (cases m)
       (auto simp: exec_def unlock_slow_wake_def unlock_slow_fair_wake_def deref_def park_return_def
         holds_def)
qed

text \<open>A fair hand-over is reached by a concrete run.\<close>

lemma handing_run: "\<exists>s s'. run (take 24 handing_schedule) (init_sys 0 0) = Next s \<and>
    exec (calm Call_unlock) 8 s = Next s' \<and> pc s 8 = Wake Fair 16"
proof -
  have "case run (take 24 handing_schedule) (init_sys 0 0) of Blocked \<Rightarrow> False | Fault \<Rightarrow> False
    | Next s \<Rightarrow> (case exec (calm Call_unlock) 8 s of Blocked \<Rightarrow> False | Fault \<Rightarrow> False
      | Next s' \<Rightarrow> pc s 8 = Wake Fair 16)"
    by code_simp
  then show ?thesis unfolding outcome_case_iff by metis
qed

end
