(* ===== verification/Mutex.thy ===== *)
theory Mutex
  imports Raw_Mutex_Props
begin

section \<open>Mutex (mekong9-sync/src/mutex.rs)\<close>

text \<open>
  A \<open>Mutex<T>\<close> is a RawMutex and the data. A guard exists for a thread that is in the critical
  section; dropping it calls \<open>unlock\<close> (\<open>unlock_fair\<close> for the fair guard). The interface that the
  data relies on is the locale \<open>exclusive_lock\<close>; RawMutex is an instance of it.
\<close>

record 'd mutex =
  raw :: sys
  data :: 'd

definition mutex_new :: "instant \<Rightarrow> u32 \<Rightarrow> 'd \<Rightarrow> 'd mutex" where
  "mutex_new t r d = \<lparr>raw = init_sys t r, data = d\<rparr>"

definition into_inner :: "'d mutex \<Rightarrow> 'd" where
  "into_inner m = data m"

definition get_mut :: "('d \<Rightarrow> 'd) \<Rightarrow> 'd mutex \<Rightarrow> 'd mutex" where
  "get_mut f m = m\<lparr>data := f (data m)\<rparr>"

text \<open>\<open>data_ptr\<close>: the place of the data, as what can be read through it and what a write does.\<close>

definition data_ptr :: "'d mutex \<Rightarrow> 'd \<times> ('d \<Rightarrow> 'd mutex)" where
  "data_ptr m = (data m, \<lambda>d. m\<lparr>data := d\<rparr>)"

text \<open>A thread that has a guard, and what it may do through it.\<close>

definition guarded :: "sys \<Rightarrow> ptr \<Rightarrow> bool" where
  "guarded s t \<longleftrightarrow> pc s t = Critical"

definition guard_deref :: "ptr \<Rightarrow> 'd mutex \<Rightarrow> 'd option" where
  "guard_deref t m = (if guarded (raw m) t then Some (data m) else None)"

definition guard_deref_mut :: "ptr \<Rightarrow> ('d \<Rightarrow> 'd) \<Rightarrow> 'd mutex \<Rightarrow> 'd mutex option" where
  "guard_deref_mut t f m = (if guarded (raw m) t then Some (m\<lparr>data := f (data m)\<rparr>) else None)"

text \<open>\<open>MutexGuardFair\<close> gives the same access; only its drop differs.\<close>

definition guard_fair_deref :: "ptr \<Rightarrow> 'd mutex \<Rightarrow> 'd option" where
  "guard_fair_deref t m = (if guarded (raw m) t then Some (data m) else None)"

definition guard_fair_deref_mut :: "ptr \<Rightarrow> ('d \<Rightarrow> 'd) \<Rightarrow> 'd mutex \<Rightarrow> 'd mutex option" where
  "guard_fair_deref_mut t f m = (if guarded (raw m) t then Some (m\<lparr>data := f (data m)\<rparr>) else None)"

text \<open>One step of the lock operations, which never touch the data.\<close>

definition mutex_step :: "env \<Rightarrow> ptr \<Rightarrow> 'd mutex \<Rightarrow> 'd mutex outcome" where
  "mutex_step e t m =
    (case exec e t (raw m) of Blocked \<Rightarrow> Blocked | Fault \<Rightarrow> Fault | Next s \<Rightarrow> Next (m\<lparr>raw := s\<rparr>))"

definition mutex_lock :: "bool \<Rightarrow> ptr \<Rightarrow> 'd mutex \<Rightarrow> 'd mutex outcome" where
  "mutex_lock sp = mutex_step \<lparr>call = Call_lock, spurious = sp, now = 0\<rparr>"

definition mutex_try_lock :: "bool \<Rightarrow> ptr \<Rightarrow> 'd mutex \<Rightarrow> (bool \<times> 'd mutex) outcome" where
  "mutex_try_lock sp t m =
    (case mutex_step \<lparr>call = Call_try_lock, spurious = sp, now = 0\<rparr> t m of
       Blocked \<Rightarrow> Blocked | Fault \<Rightarrow> Fault | Next m' \<Rightarrow> Next (guarded (raw m') t, m'))"

definition guard_drop :: "bool \<Rightarrow> ptr \<Rightarrow> 'd mutex \<Rightarrow> 'd mutex outcome" where
  "guard_drop sp = mutex_step \<lparr>call = Call_unlock, spurious = sp, now = 0\<rparr>"

definition guard_fair_drop :: "bool \<Rightarrow> instant \<Rightarrow> ptr \<Rightarrow> 'd mutex \<Rightarrow> 'd mutex outcome" where
  "guard_fair_drop sp clock = mutex_step \<lparr>call = Call_unlock_fair, spurious = sp, now = clock\<rparr>"

text \<open>\<open>is_locked\<close>: a \<open>try_lock\<close>, undone by the first step of \<open>unlock\<close> when it succeeded.\<close>

definition is_locked :: "bool \<Rightarrow> ptr \<Rightarrow> 'd mutex \<Rightarrow> (bool \<times> 'd mutex) outcome" where
  "is_locked sp t m =
    (case mutex_try_lock sp t m of
       Blocked \<Rightarrow> Blocked
     | Fault \<Rightarrow> Fault
     | Next (acquired, m') \<Rightarrow>
         if acquired then
           (case guard_drop sp t m' of
              Blocked \<Rightarrow> Blocked | Fault \<Rightarrow> Fault | Next m'' \<Rightarrow> Next (\<not> acquired, m''))
         else Next (\<not> acquired, m'))"

subsection \<open>The interface of a lock that protects data\<close>

text \<open>
  Threads that increment a counter under the lock, reading and writing it in two separate steps:
  \<open>tmp t\<close> is what \<open>t\<close> has read, the last component counts the increments that were finished.
\<close>

type_synonym ('s, 't) counting = "'s \<times> nat \<times> ('t \<Rightarrow> nat option) \<times> nat"

inductive counting_reach ::
  "('t \<Rightarrow> 's \<Rightarrow> 's \<Rightarrow> bool) \<Rightarrow> ('s \<Rightarrow> 't \<Rightarrow> bool) \<Rightarrow> 's \<Rightarrow> ('s, 't) counting \<Rightarrow> bool"
  for lstep guards s0 where
  count_init: "counting_reach lstep guards s0 (s0, 0, \<lambda>_. None, 0)"
| count_lock: "counting_reach lstep guards s0 (s, d, tmp, n) \<Longrightarrow> tmp t = None \<Longrightarrow> lstep t s s' \<Longrightarrow>
    counting_reach lstep guards s0 (s', d, tmp, n)"
| count_read: "counting_reach lstep guards s0 (s, d, tmp, n) \<Longrightarrow> guards s t \<Longrightarrow>
    counting_reach lstep guards s0 (s, d, tmp(t \<mapsto> d), n)"
| count_write: "counting_reach lstep guards s0 (s, d, tmp, n) \<Longrightarrow> guards s t \<Longrightarrow> tmp t = Some v \<Longrightarrow>
    counting_reach lstep guards s0 (s, Suc v, tmp(t := None), Suc n)"

locale exclusive_lock =
  fixes good :: "'s \<Rightarrow> bool" and lstep :: "'t \<Rightarrow> 's \<Rightarrow> 's \<Rightarrow> bool" and guards :: "'s \<Rightarrow> 't \<Rightarrow> bool"
  assumes exclusive: "good s \<Longrightarrow> guards s t \<Longrightarrow> guards s u \<Longrightarrow> t = u"
    and keeps_good: "good s \<Longrightarrow> lstep t s s' \<Longrightarrow> good s'"
    and keeps_guard: "good s \<Longrightarrow> guards s t \<Longrightarrow> u \<noteq> t \<Longrightarrow> lstep u s s' \<Longrightarrow> guards s' t"
begin

lemma counting_exact:
  assumes "counting_reach lstep guards s0 c" "good s0"
  shows "case c of (s, d, tmp, n) \<Rightarrow>
    good s \<and> d = n \<and> (\<forall>t v. tmp t = Some v \<longrightarrow> guards s t \<and> v = d)"
  using assms
proof induction
  case (count_lock s d tmp n t s')
  then have IH: "good s" "d = n" "\<And>u v. tmp u = Some v \<Longrightarrow> guards s u \<and> v = d" by auto
  have "guards s' u" if "tmp u = Some v" for u v
    using IH that count_lock.hyps keeps_guard [of s u t s'] by (metis option.distinct(1))
  then show ?case using IH count_lock.hyps keeps_good by auto
next
  case (count_write s d tmp n t v)
  then have IH: "good s" "d = n" "\<And>u v. tmp u = Some v \<Longrightarrow> guards s u \<and> v = d" by auto
  have "tmp u = None" if "u \<noteq> t" for u
    using IH exclusive [of s u t] count_write.hyps(2) that by (metis not_None_eq)
  then show ?case using IH count_write.hyps by auto
qed auto

end

subsection \<open>RawMutex provides it\<close>

definition raw_step :: "ptr \<Rightarrow> sys \<Rightarrow> sys \<Rightarrow> bool" where
  "raw_step t s s' \<longleftrightarrow> valid_ptr t \<and> (\<exists>e. exec e t s = Next s')"

text \<open>A step changes the location of the stepping thread only.\<close>

lemma one_holder: "reach s \<Longrightarrow> holds s t \<Longrightarrow> holds s u \<Longrightarrow> t = u"
  using reach_simulates holder_iff simulatesD(1) option.inject by metis

interpretation raw_lock: exclusive_lock reach raw_step guarded
proof
  show "t = u" if "reach s" "guarded s t" "guarded s u" for s t u
    using that one_holder [of s t u] by (simp add: guarded_def holds_def)
  show "reach s'" if "reach s" "raw_step t s s'" for s t s'
    using that reach_step by (auto simp: raw_step_def)
  show "guarded s' t" if "reach s" "guarded s t" "u \<noteq> t" "raw_step u s s'" for s t u s'
    using that exec_other by (auto simp: raw_step_def guarded_def)
qed

subsection \<open>What the guards give\<close>

text \<open>
  Histories of a mutex, newest event first. A thread outside the lock calls \<open>lock\<close>, and takes its
  further steps until it is out of \<open>lock\<close>, or calls \<open>try_lock\<close>; a thread with a guard reads and
  writes the data through it and drops it, and then takes the rest of the steps of the unlock. The
  threads interleave freely. That \<open>lock\<close> has returned is the event \<open>Obtained\<close>, whatever the thread
  has then.
\<close>

datatype 'd guard_event =
    Obtained ptr
  | Refused ptr
  | Read_out ptr 'd
  | Changed ptr "'d \<Rightarrow> 'd"
  | Dropped ptr

text \<open>A thread whose guard is gone and that has not returned from the unlock yet.\<close>

definition unlocking :: "pc \<Rightarrow> bool" where
  "unlocking c \<longleftrightarrow> c \<noteq> Idle \<and> c \<noteq> Critical \<and> \<not> inside_lock c"

definition lock_returned :: "ptr \<Rightarrow> 'd mutex \<Rightarrow> 'd guard_event list" where
  "lock_returned t m = (if inside_lock (pc (raw m) t) then [] else [Obtained t])"

inductive mutex_history ::
  "instant \<Rightarrow> u32 \<Rightarrow> 'd \<Rightarrow> 'd guard_event list \<Rightarrow> 'd mutex \<Rightarrow> bool" for i r d where
  h_new: "mutex_history i r d [] (mutex_new i r d)"
| h_lock: "mutex_history i r d es m \<Longrightarrow> valid_ptr t \<Longrightarrow>
    pc (raw m) t = Idle \<or> inside_lock (pc (raw m) t) \<Longrightarrow> mutex_lock sp t m = Next m' \<Longrightarrow>
    mutex_history i r d (lock_returned t m' @ es) m'"
| h_try_lock: "mutex_history i r d es m \<Longrightarrow> valid_ptr t \<Longrightarrow> pc (raw m) t = Idle \<Longrightarrow>
    mutex_try_lock sp t m = Next (got, m') \<Longrightarrow>
    mutex_history i r d ((if got then Obtained t else Refused t) # es) m'"
| h_deref: "mutex_history i r d es m \<Longrightarrow> guard_deref t m = Some v \<or> guard_fair_deref t m = Some v \<Longrightarrow>
    mutex_history i r d (Read_out t v # es) m"
| h_deref_mut: "mutex_history i r d es m \<Longrightarrow>
    guard_deref_mut t f m = Some m' \<or> guard_fair_deref_mut t f m = Some m' \<Longrightarrow>
    mutex_history i r d (Changed t f # es) m'"
| h_drop: "mutex_history i r d es m \<Longrightarrow> valid_ptr t \<Longrightarrow> guarded (raw m) t \<Longrightarrow>
    guard_drop sp t m = Next m' \<or> guard_fair_drop sp clock t m = Next m' \<Longrightarrow>
    mutex_history i r d (Dropped t # es) m'"
| h_unlocking: "mutex_history i r d es m \<Longrightarrow> valid_ptr t \<Longrightarrow> unlocking (pc (raw m) t) \<Longrightarrow>
    guard_drop sp t m = Next m' \<or> guard_fair_drop sp clock t m = Next m' \<Longrightarrow>
    mutex_history i r d es m'"

text \<open>
  The specification: one cell and at most one owner. Only the owner reads it, and reads what is
  there, changes it or gives it up; the cell is obtained only when it has no owner. An event that
  this does not allow is \<^const>\<open>None\<close>.
\<close>

fun cell_step :: "'d guard_event \<Rightarrow> ptr option \<times> 'd \<Rightarrow> (ptr option \<times> 'd) option" where
  "cell_step (Obtained t) (h, d) = (if h = None then Some (Some t, d) else None)"
| "cell_step (Refused t) (h, d) = Some (h, d)"
| "cell_step (Read_out t v) (h, d) = (if h = Some t \<and> v = d then Some (h, d) else None)"
| "cell_step (Changed t f) (h, d) = (if h = Some t then Some (h, f d) else None)"
| "cell_step (Dropped t) (h, d) = (if h = Some t then Some (None, d) else None)"

primrec cell_after :: "'d \<Rightarrow> 'd guard_event list \<Rightarrow> (ptr option \<times> 'd) option" where
  "cell_after d [] = Some (None, d)"
| "cell_after d (e # es) = Option.bind (cell_after d es) (cell_step e)"

lemma mutex_step_data: "mutex_step e t m = Next m' \<Longrightarrow> exec e t (raw m) = Next (raw m') \<and> data m' = data m"
  by (auto simp: mutex_step_def split: outcome.splits)

lemmas mutex_ops = mutex_lock_def mutex_try_lock_def guard_drop_def guard_fair_drop_def

lemma unlock_op_step:
  "guard_drop sp t m = Next m' \<or> guard_fair_drop sp clock t m = Next m' \<Longrightarrow>
    \<exists>e. call e \<in> {Call_unlock, Call_unlock_fair} \<and> exec e t (raw m) = Next (raw m') \<and> data m' = data m"
  unfolding mutex_ops by (elim disjE; drule mutex_step_data; rule exI, rule conjI [rotated], assumption) simp_all

lemma reach_history: "mutex_history i r d es m \<Longrightarrow> reach (raw m)"
proof (induction rule: mutex_history.induct)
  case h_new
  then show ?case by (simp add: mutex_new_def reach_init)
next
  case (h_try_lock es m t sp got m')
  then show ?case
    by (auto simp: mutex_ops split: outcome.splits dest!: mutex_step_data intro: reach_step)
next
  case (h_drop es m t sp m' clock)
  then show ?case using unlock_op_step reach_step by blast
next
  case (h_unlocking es m t sp m' clock)
  then show ?case using unlock_op_step reach_step by blast
qed (auto simp: mutex_ops guard_deref_mut_def guard_fair_deref_mut_def split: if_splits
    dest!: mutex_step_data intro: reach_step)

text \<open>Where the steps of the three kinds of operation lead.\<close>

lemma lock_step_pc:
  assumes "exec e t s = Next s'" "call e = Call_lock" "pc s t = Idle \<or> inside_lock (pc s t)"
  shows "inside_lock (pc s' t) \<or> pc s' t = Critical"
  using assms
  by (cases "pc s t")
     (auto simp: exec_def on_idle_def lock_def lock_slow_load_def lock_slow_loop_def park_push_def
       park_return_def deref_def split: if_splits option.splits)

lemma drop_step_pc:
  assumes "exec e t s = Next s'" "pc s t = Critical \<or> unlocking (pc s t)"
    "call e \<in> {Call_unlock, Call_unlock_fair}"
  shows "pc s' t \<noteq> Critical"
  using assms
  by (cases "pc s t")
     (auto simp: unlocking_def exec_def on_critical_def unlock_def after_unlock_def unlock_fair_def
       unlock_fair_or_def unlock_fair_and_def Let_def unlock_slow_check_def unlock_slow_loop_def
       scan_from_def unlock_slow_fair_loop_def unlock_slow_fair_clear_def link_prev_nodes_def
       deref_def set_tail_def take_tail_def unlock_slow_scanned_def unlock_slow_fair_scanned_def
       unlock_slow_release_def pop_retry_def unlock_slow_pop_last_def unlock_slow_fair_pop_last_def
       unlock_slow_pop_clear_def unlock_slow_fair_pop_clear_def unlock_slow_wake_def
       unlock_slow_fair_wake_def
       split: if_splits option.splits mode.splits prod.splits)

lemma guarded_other: "exec e t s = Next s' \<Longrightarrow> u \<noteq> t \<Longrightarrow> guarded s' u = guarded s u"
  by (simp add: guarded_def exec_other)

text \<open>What the specification's owner is.\<close>

definition owner_is :: "ptr option \<Rightarrow> sys \<Rightarrow> bool" where
  "owner_is h s \<longleftrightarrow> (\<forall>t. guarded s t \<longleftrightarrow> h = Some t)"

lemma owner_obtains:
  assumes "owner_is h s" "reach s'" "exec e t s = Next s'" "\<not> guarded s t" "guarded s' t"
  shows "h = None" "owner_is (Some t) s'"
proof -
  show "h = None"
  proof (rule ccontr)
    assume "h \<noteq> None"
    then obtain u where u: "h = Some u" by blast
    then have "guarded s u" "u \<noteq> t" using assms(1,4) by (auto simp: owner_is_def)
    then show False
      using raw_lock.exclusive [OF assms(2) assms(5)] guarded_other [OF assms(3)] by metis
  qed
  then show "owner_is (Some t) s'"
    using assms(5) raw_lock.exclusive [OF assms(2)] by (auto simp: owner_is_def)
qed

lemma owner_stays:
  assumes "owner_is h s" "exec e t s = Next s'" "\<not> guarded s t" "\<not> guarded s' t"
  shows "owner_is h s'"
  using assms guarded_other [OF assms(2)] unfolding owner_is_def by metis

lemma owner_drops:
  assumes "owner_is h s" "exec e t s = Next s'" "guarded s t" "\<not> guarded s' t"
  shows "h = Some t" "owner_is None s'"
  using assms guarded_other [OF assms(2)] unfolding owner_is_def by (blast, metis option.inject option.distinct(1))

lemmas guard_access = guard_deref_def guard_fair_deref_def guard_deref_mut_def guard_fair_deref_mut_def

text \<open>
  C15: the guards make the data one atomic cell: in every interleaved history of \<open>lock\<close>, \<open>try_lock\<close>,
  accesses through guards and drops of both kinds of guard, \<open>lock\<close> returns only to a thread that
  has the guard then and when no other guard exists; every read through a guard gives the value
  that the writes before it, in order, have left; only the owner of the guard reads or writes; and
  \<open>into_inner\<close> gives the value after all writes.
\<close>

theorem guards_are_atomic:
  assumes "mutex_history i r d es m"
  shows "\<exists>h. cell_after d es = Some (h, into_inner m) \<and> (\<forall>t. guarded (raw m) t \<longleftrightarrow> h = Some t)"
proof -
  have "\<exists>h. cell_after d es = Some (h, data m) \<and> owner_is h (raw m)" using assms
  proof (induction rule: mutex_history.induct)
    case h_new
    then show ?case by (simp add: mutex_new_def owner_is_def guarded_def)
  next
    case (h_lock es m t sp m')
    then obtain h where h: "cell_after d es = Some (h, data m)" "owner_is h (raw m)" by blast
    have m': "reach (raw m')" by (rule reach_history [OF mutex_history.h_lock [OF h_lock.hyps]])
    obtain e where e: "exec e t (raw m) = Next (raw m')" "data m' = data m" "call e = Call_lock"
      using h_lock.hyps(4) by (auto simp: mutex_ops dest!: mutex_step_data)
    have out: "\<not> guarded (raw m) t" using h_lock.hyps(3) by (auto simp: guarded_def)
    show ?case
    proof (cases "inside_lock (pc (raw m') t)")
      case True
      then have "\<not> guarded (raw m') t" by (auto simp: guarded_def)
      then show ?thesis using True h owner_stays [OF h(2) e(1) out] e(2) by (simp add: lock_returned_def)
    next
      case False
      then have "guarded (raw m') t"
        using lock_step_pc [OF e(1,3) h_lock.hyps(3)] by (simp add: guarded_def)
      then show ?thesis
        using False h owner_obtains [OF h(2) m' e(1) out] e(2) by (simp add: lock_returned_def)
    qed
  next
    case (h_try_lock es m t sp got m')
    then obtain h where h: "cell_after d es = Some (h, data m)" "owner_is h (raw m)" by blast
    have m': "reach (raw m')" by (rule reach_history [OF mutex_history.h_try_lock [OF h_try_lock.hyps]])
    obtain e where e: "exec e t (raw m) = Next (raw m')" "data m' = data m" "got = guarded (raw m') t"
      using h_try_lock.hyps(4) by (auto simp: mutex_ops split: outcome.splits dest!: mutex_step_data)
    have out: "\<not> guarded (raw m) t" using h_try_lock.hyps(3) by (simp add: guarded_def)
    show ?case
      using h owner_stays [OF h(2) e(1) out] owner_obtains [OF h(2) m' e(1) out] e(2,3) by (cases got) auto
  next
    case (h_drop es m t sp m' clock)
    then obtain h where h: "cell_after d es = Some (h, data m)" "owner_is h (raw m)" by blast
    obtain e where e: "call e \<in> {Call_unlock, Call_unlock_fair}" "exec e t (raw m) = Next (raw m')"
      "data m' = data m" using unlock_op_step [OF h_drop.hyps(4)] by blast
    have "\<not> guarded (raw m') t"
      using drop_step_pc [OF e(2) _ e(1)] h_drop.hyps(3) by (simp add: guarded_def)
    then show ?case using h owner_drops [OF h(2) e(2) h_drop.hyps(3)] e(3) by simp
  next
    case (h_unlocking es m t sp m' clock)
    then obtain h where h: "cell_after d es = Some (h, data m)" "owner_is h (raw m)" by blast
    obtain e where e: "call e \<in> {Call_unlock, Call_unlock_fair}" "exec e t (raw m) = Next (raw m')"
      "data m' = data m" using unlock_op_step [OF h_unlocking.hyps(4)] by blast
    have "\<not> guarded (raw m) t" "\<not> guarded (raw m') t"
      using drop_step_pc [OF e(2) _ e(1)] h_unlocking.hyps(3) by (auto simp: guarded_def unlocking_def)
    then show ?case using h owner_stays [OF h(2) e(2)] e(3) by simp
  next
    case (h_deref es m t v)
    then obtain h where h: "cell_after d es = Some (h, data m)" "owner_is h (raw m)" by blast
    have "guarded (raw m) t" "v = data m" using h_deref.hyps(2) by (auto simp: guard_access split: if_splits)
    then show ?case using h by (simp add: owner_is_def)
  next
    case (h_deref_mut es m t f m')
    then obtain h where h: "cell_after d es = Some (h, data m)" "owner_is h (raw m)" by blast
    have "guarded (raw m) t" "m' = m\<lparr>data := f (data m)\<rparr>"
      using h_deref_mut.hyps(2) by (auto simp: guard_access split: if_splits)
    then show ?case using h by (simp add: owner_is_def)
  qed
  then show ?thesis by (simp add: owner_is_def into_inner_def)
qed

text \<open>8 takes the lock and writes; 16 tries in vain; 8 writes again and drops; 16 gets it and reads.\<close>

theorem guards_are_atomic_witness:
  "\<exists>m. mutex_history 0 1 (0 :: nat)
      [Read_out 16 2, Obtained 16, Dropped 8, Changed 8 Suc, Refused 16, Changed 8 Suc, Obtained 8] m \<and>
    into_inner m = 2 \<and> guarded (raw m) 16"
proof -
  let ?h = "mutex_history 0 1 (0 :: nat)"
  define m0 where "m0 = mutex_new 0 1 (0 :: nat)"
  define m1 where "m1 = m0\<lparr>raw := held_sys\<rparr>"
  define m2 where "m2 = m1\<lparr>data := 2\<rparr>"
  define m3 where "m3 = m2\<lparr>raw := goto 8 Idle (store IDLE held_sys)\<rparr>"
  define m4 where "m4 = m3\<lparr>raw := goto 16 Critical (store LOCKED_BIT (raw m3))\<rparr>"
  note defs = m0_def m1_def m2_def m3_def m4_def mutex_new_def guarded_def lock_returned_def
    mutex_ops mutex_step_def exec_def on_idle_def on_critical_def lock_def try_lock_def unlock_def
    after_unlock_def cas_ok_def guard_access
  have "?h [] m0" unfolding m0_def by (rule h_new)
  from h_lock [OF this, of 8 False m1] have "?h [Obtained 8] m1"
    by (simp add: defs held_sys_def)
  from h_deref_mut [OF this, of 8 Suc "m1\<lparr>data := 1\<rparr>"] have "?h [Changed 8 Suc, Obtained 8] (m1\<lparr>data := 1\<rparr>)"
    by (simp add: defs)
  from h_try_lock [OF this, of 16 False False "m1\<lparr>data := 1\<rparr>"]
  have "?h [Refused 16, Changed 8 Suc, Obtained 8] (m1\<lparr>data := 1\<rparr>)"
    by (simp add: defs goto_def fun_upd_idem LOCKED_BIT_def IDLE_def)
  from h_deref_mut [OF this, of 8 Suc m2]
  have "?h [Changed 8 Suc, Refused 16, Changed 8 Suc, Obtained 8] m2" by (simp add: defs)
  from h_drop [OF this, of 8 False m3]
  have "?h [Dropped 8, Changed 8 Suc, Refused 16, Changed 8 Suc, Obtained 8] m3"
    by (simp add: defs layout IDLE_def)
  from h_lock [OF this, of 16 False m4]
  have "?h [Obtained 16, Dropped 8, Changed 8 Suc, Refused 16, Changed 8 Suc, Obtained 8] m4"
    by (simp add: defs)
  from h_deref [OF this, of 16 2]
  have h: "?h [Read_out 16 2, Obtained 16, Dropped 8, Changed 8 Suc, Refused 16, Changed 8 Suc, Obtained 8] m4"
    by (simp add: defs)
  have "into_inner m4 = 2 \<and> guarded (raw m4) 16" using guards_are_atomic [OF h] by auto
  then show ?thesis using h by blast
qed

text \<open>
  Increments under the lock are not lost: when threads read and write a counter in separate
  steps under the guard, its value is the number of increments finished, in every interleaving.
\<close>

lemma no_lost_increment:
  assumes "counting_reach raw_step guarded (init_sys t r) (s, d, tmp, n)"
  shows "d = n"
  using raw_lock.counting_exact [OF assms reach_init] by simp

text \<open>
  What \<open>is_locked\<close> answers: \<open>false\<close> exactly when the word is \<open>IDLE\<close> and the weak exchange does
  not fail, and then the system is left as it was. A lock that nobody holds but that has waiters
  is reported as locked.
\<close>

lemma is_locked_answer:
  assumes "pc (raw m) t = Idle"
  shows "is_locked sp t m = Next (\<not> (state (raw m) = IDLE \<and> \<not> sp), m)"
proof -
  let ?s = "goto t Critical (store LOCKED_BIT (raw m))"
  have idle: "goto t Idle (raw m) = raw m" using assms by (simp add: goto_def fun_upd_idem)
  have "goto t Idle (store (LOCKED_BIT - LOCKED_BIT) ?s) = raw m" if "state (raw m) = IDLE"
    using assms that by (simp add: goto_def store_def IDLE_def fun_upd_idem)
  then show ?thesis using assms idle
    by (auto simp: is_locked_def mutex_try_lock_def mutex_step_def guard_drop_def exec_def
      on_idle_def on_critical_def try_lock_def unlock_def after_unlock_def cas_ok_def guarded_def layout)
qed

text \<open>
  There is a reachable system in which nobody holds the lock and \<open>is_locked\<close> still answers
  true, without any spurious failure: the holder has unlocked and a waiter is queued.
\<close>

lemma is_locked_wrong:
  "\<exists>s. reach s \<and> (\<forall>t. \<not> holds s t) \<and> is_locked False 24 \<lparr>raw = s, data = d\<rparr> = Next (True, \<lparr>raw = s, data = d\<rparr>)"
proof -
  have "case run (take 15 removing_schedule) (init_sys 0 1) of Blocked \<Rightarrow> False | Fault \<Rightarrow> False
    | Next s \<Rightarrow> \<not> locked (state s) \<and> state s \<noteq> IDLE \<and> pc s 24 = Idle"
    by code_simp
  then obtain s where s: "run (take 15 removing_schedule) (init_sys 0 1) = Next s"
    "\<not> locked (state s)" "state s \<noteq> IDLE" "pc s 24 = Idle"
    unfolding outcome_case_iff by blast
  have r: "reach s" using reach_run [OF reach_init schedule_valid(2) s(1)] .
  then obtain a where S: "simulates s a" using reach_simulates by blast
  have "\<forall>t. \<not> holds s t"
    using invD(1) [OF simulatesD(1) [OF S]] s(2) by (auto simp: inv_holder_def)
  moreover have "goto 24 Idle s = s" using s(4) by (simp add: goto_def fun_upd_idem)
  then have "is_locked False 24 \<lparr>raw = s, data = d\<rparr> = Next (True, \<lparr>raw = s, data = d\<rparr>)"
    using s(3,4) by (simp add: is_locked_def mutex_try_lock_def mutex_step_def exec_def on_idle_def
      try_lock_def cas_ok_def guarded_def)
  ultimately show ?thesis using r by blast
qed

end
