(* ===== verification/Raw_Mutex_Progress.thy ===== *)
theory Raw_Mutex_Progress
  imports Raw_Mutex_Props
begin

section \<open>RawMutex: unlock finishes and serves the oldest waiter\<close>

text \<open>
  Runs of one thread without interference: the walk over the queue ends, a stale local \<open>state\<close>
  costs one more round, and the oldest waiter is woken or given the lock. Then the branches that
  the code never takes and the uncontended path.
\<close>

subsection \<open>A thread running alone\<close>

definition solo_reaches :: "env \<Rightarrow> ptr \<Rightarrow> sys \<Rightarrow> sys \<Rightarrow> bool" where
  "solo_reaches e t s s' \<longleftrightarrow> (\<exists>n. solo n e t s = Next s')"

lemma run_append: "run (ps @ qs) s = (case run ps s of Next s' \<Rightarrow> run qs s' | r \<Rightarrow> r)"
  by (induction ps arbitrary: s) (auto split: outcome.splits)

lemma solo_refl: "solo_reaches e t s s"
  unfolding solo_reaches_def by (rule exI [of _ 0]) (simp add: solo_def)

lemma solo_trans:
  assumes "solo_reaches e t s s'" "solo_reaches e t s' s''"
  shows "solo_reaches e t s s''"
proof -
  obtain n m where "solo n e t s = Next s'" "solo m e t s' = Next s''"
    using assms by (auto simp: solo_reaches_def)
  then have "solo (n + m) e t s = Next s''" by (simp add: solo_def replicate_add run_append)
  then show ?thesis by (auto simp: solo_reaches_def)
qed

lemma solo_step: "exec e t s = Next s' \<Longrightarrow> solo_reaches e t s s'"
  unfolding solo_reaches_def by (rule exI [of _ 1]) (simp add: solo_def)

lemma solo_cons: "exec e t s = Next s' \<Longrightarrow> solo_reaches e t s' s'' \<Longrightarrow> solo_reaches e t s s''"
  using solo_trans solo_step by blast

text \<open>What a step of a thread that is not parked after it does to the list of waiters.\<close>

lemma quiet_step:
  assumes S: "simulates s a" and t: "valid_ptr t" and e: "exec e t s = Next s'"
    and p: "\<not> parked (pc s' t)"
  shows "wakes (pc s' t) = None \<Longrightarrow> \<exists>a'. simulates s' a' \<and> waiting a' = waiting a"
    "wakes (pc s' t) = Some x \<Longrightarrow> wakes (pc s t) = None \<Longrightarrow>
      \<exists>a'. simulates s' a' \<and> waiting a = waiting a' @ [x]"
    "wakes (pc s' t) = Some x \<Longrightarrow> wakes (pc s t) = Some x \<Longrightarrow>
      \<exists>a'. simulates s' a' \<and> waiting a' = waiting a"
proof -
  obtain a' where a': "spec_step t a a'" "simulates s' a'"
    using exec_ok [OF S t, of e] e by (auto simp: simulates_after_def)
  have r: "removed a t = wakes (pc s t)" "removed a' t = wakes (pc s' t)"
    using simulatesD(2) [OF S] simulatesD(2) [OF a'(2)] by simp_all
  have "t \<notin> set (waiting a')"
    using queue_valid(2) [OF simulatesD(1) [OF a'(2)], of t]
      heap_none [OF simulatesD(1) [OF a'(2)], of t] p by auto
  then have "waiting a' \<noteq> t # waiting a" by (metis list.set_intros(1))
  moreover have "wakes (pc s t) = Some x \<Longrightarrow> waiting a \<noteq> q @ [x]" for q x
    using invD(6) [OF simulatesD(1) [OF S]] unfolding inv_wakers_def
    by (metis in_set_conv_decomp)
  ultimately show "wakes (pc s' t) = None \<Longrightarrow> \<exists>a'. simulates s' a' \<and> waiting a' = waiting a"
    "wakes (pc s' t) = Some x \<Longrightarrow> wakes (pc s t) = None \<Longrightarrow>
      \<exists>a'. simulates s' a' \<and> waiting a = waiting a' @ [x]"
    "wakes (pc s' t) = Some x \<Longrightarrow> wakes (pc s t) = Some x \<Longrightarrow>
      \<exists>a'. simulates s' a' \<and> waiting a' = waiting a"
    using spec_step_waiting [OF a'(1)] a'(2) r by fastforce+
qed

lemma solo_scan:
  assumes "simulates s a" "valid_ptr t" "pc s t = Scan m st (waiting a ! c)"
    "links (heap s) (waiting a) i c k" "queue_head st = waiting a ! i"
  shows "\<exists>s' a'. solo_reaches e t s s' \<and> simulates s' a' \<and> waiting a' = waiting a \<and>
    pc s' t = Scanned m st (last (waiting a)) \<and> state s' = state s"
  using assms
proof (induction "k - c" arbitrary: s a c)
  case 0
  note I = simulatesD(1) [OF 0(2)]
  let ?s = "goto t (Scanned m st (last (waiting a))) s"
  have "c = k" using 0(1) links_at(2) [OF 0(5)] by simp
  then have e: "exec e t s = Next ?s" using link_step(1) [OF I 0(5)] 0(4) by (simp add: exec_def)
  then obtain a' where "simulates ?s a'" "waiting a' = waiting a"
    using quiet_step(1) [OF 0(2,3) e] by auto
  then show ?case using solo_step [OF e]
    by (intro exI [of _ ?s] exI [of _ a']) simp
next
  case (Suc d)
  note I = simulatesD(1) [OF Suc(3)]
  let ?q = "waiting a"
  have c: "c < k" using Suc(2) by simp
  have dist: "distinct ?q" using invD(5) [OF I] by (simp add: inv_queue_def)
  obtain n where n: "heap s (?q ! Suc c) = Some n" and
    e: "exec e t s =
      Next (goto t (Scan m st (?q ! Suc c)) (write_node (?q ! Suc c) (n\<lparr>prev := ?q ! c\<rparr>) s))"
    using link_step(2) [OF I Suc(6) c, of t m st] Suc(5) by (auto simp: exec_def)
  let ?s = "goto t (Scan m st (?q ! Suc c)) (write_node (?q ! Suc c) (n\<lparr>prev := ?q ! c\<rparr>) s)"
  obtain a' where a': "simulates ?s a'" "waiting a' = ?q"
    using quiet_step(1) [OF Suc(3,4) e] by auto
  have "links (heap ?s) ?q i (Suc c) k" using links_set_prev(2) [OF Suc(6) dist c n] by simp
  moreover have "d = k - Suc c" using Suc(2) by simp
  ultimately obtain s' a'' where "solo_reaches e t ?s s'" "simulates s' a''" "waiting a'' = ?q"
    "pc s' t = Scanned m st (last ?q)" "state s' = state s"
    using Suc(1) [OF _ a'(1) Suc(4), of "Suc c"] a'(2) Suc(7) by auto
  then show ?case using solo_cons [OF e] by blast
qed

lemma take_tail_cases:
  assumes "take_tail t m st qt s \<noteq> Fault"
  shows "\<exists>s'. take_tail t m st qt s = Next s' \<and>
    (pc s' t = Pop_last m st qt \<and> state s' = state s \<or> pc s' t = Pop_clear m qt)"
  using assms by (auto simp: take_tail_def set_tail_def deref_def split: option.splits)

lemma scanned_cases:
  assumes S: "simulates s a" and t: "valid_ptr t" and p: "pc s t = Scanned m st qt"
    and m: "m = Plain \<longrightarrow> \<not> locked st"
  shows "\<exists>s'. exec e t s = Next s' \<and>
    (pc s' t = Pop_last m st qt \<and> state s' = state s \<or> pc s' t = Pop_clear m qt)"
proof -
  have "exec e t s \<noteq> Fault" using exec_ok [OF S t, of e] by auto
  then show ?thesis using p m take_tail_cases
    by (cases m)
       (fastforce simp: exec_def unlock_slow_scanned_def unlock_slow_fair_scanned_def set_tail_def
         deref_def and_bit_eq_0 split: option.splits)+
qed

text \<open>From the start of a scan to the removal of the oldest waiter.\<close>

lemma solo_pop_clear:
  assumes S: "simulates s a" and t: "valid_ptr t" and p: "pc s t = Pop_clear m x"
  shows "\<exists>s' a'. solo_reaches e t s s' \<and> simulates s' a' \<and> waiting a' = waiting a \<and>
    pc s' t = Wake m x"
proof -
  obtain s' where e: "exec e t s = Next s'" and p': "pc s' t = Wake m x"
    using p by (cases m) (auto simp: exec_def unlock_slow_pop_clear_def unlock_slow_fair_pop_clear_def)
  then show ?thesis using quiet_step(3) [OF S t e] p solo_step [OF e] by force
qed

lemma solo_remove_once:
  assumes S: "simulates s a" and t: "valid_ptr t" and p: "pc s t = Scan m st cur"
    and m: "m = Plain \<longrightarrow> \<not> locked st" and sp: "\<not> spurious e"
  shows "\<exists>s' a'. solo_reaches e t s s' \<and> simulates s' a' \<and>
    ((\<exists>x. waiting a = waiting a' @ [x] \<and> pc s' t = Wake m x) \<or>
     (state s \<noteq> st \<and> waiting a' = waiting a \<and> state s' = state s \<and> pc s' t = scan_from m (state s')))"
proof -
  have o: "qlocks (pc s t)" using p by simp
  obtain i c k where L: "links (heap s) (waiting a) i c k" "queue_head st = waiting a ! i"
    "cur = waiting a ! c" using scanD [OF simulatesD(1) [OF S] o] p by auto
  obtain s1 a1 where s1: "solo_reaches e t s s1" "simulates s1 a1" "waiting a1 = waiting a"
    "pc s1 t = Scanned m st (last (waiting a))" "state s1 = state s"
    using solo_scan [OF S t _ L(1,2), of m e] p L(3) by blast
  obtain s2 where s2: "exec e t s1 = Next s2"
    and p2: "pc s2 t = Pop_last m st (last (waiting a)) \<and> state s2 = state s1 \<or>
      pc s2 t = Pop_clear m (last (waiting a))"
    using scanned_cases [OF s1(2) t s1(4) m] by blast
  note r2 = solo_trans [OF s1(1) solo_step [OF s2]]
  from p2 show ?thesis
  proof
    assume p2: "pc s2 t = Pop_clear m (last (waiting a))"
    then obtain a2 where "simulates s2 a2" "waiting a1 = waiting a2 @ [last (waiting a)]"
      using quiet_step(2) [OF s1(2) t s2] s1(4) by auto
    then show ?thesis using solo_pop_clear [OF _ t p2, of a2 e] r2 solo_trans s1(3) by metis
  next
    assume p2: "pc s2 t = Pop_last m st (last (waiting a)) \<and> state s2 = state s1"
    then obtain a2 where a2: "simulates s2 a2" "waiting a2 = waiting a"
      using quiet_step(1) [OF s1(2) t s2] s1(3) by auto
    note r3 = solo_trans [OF r2 solo_step]
    note I2 = simulatesD(1) [OF a2(1)]
    have ne: "queue_head (state s2) \<noteq> null" using empty_queue [OF I2] localD [OF I2, of t] p2 by simp
    show ?thesis
    proof (cases "state s = st")
      case True
      then obtain s3 where s3: "exec e t s2 = Next s3" "pc s3 t = Wake m (last (waiting a))"
        using p2 s1(5) sp by (cases m)
          (auto simp: exec_def unlock_slow_pop_last_def unlock_slow_fair_pop_last_def cas_ok_def)
      then obtain a3 where "simulates s3 a3" "waiting a = waiting a3 @ [last (waiting a)]"
        using quiet_step(2) [OF a2(1) t s3(1)] p2 a2(2) by auto
      then show ?thesis using r3 [OF s3(1)] s3(2) by blast
    next
      case False
      then obtain s3 where s3: "exec e t s2 = Next s3" "pc s3 t = scan_from m (state s3)"
        "state s3 = state s"
        using p2 s1(5) ne by (cases m) (auto simp: exec_def unlock_slow_pop_last_def
          unlock_slow_fair_pop_last_def cas_ok_def pop_retry_def)
      moreover have "wakes (pc s3 t) = None" "\<not> parked (pc s3 t)"
        using s3(2) by (simp_all add: scan_from_def)
      ultimately show ?thesis
        using quiet_step(1) [OF a2(1) t s3(1)] False a2(2) r3 [OF s3(1)] by metis
    qed
  qed
qed

lemma solo_remove:
  assumes S: "simulates s a" and t: "valid_ptr t" and p: "pc s t = Scan m st cur"
    and m: "m = Plain \<longrightarrow> \<not> locked st \<and> \<not> locked (state s)" and sp: "\<not> spurious e"
  shows "\<exists>s' a' x. solo_reaches e t s s' \<and> simulates s' a' \<and> waiting a = waiting a' @ [x] \<and>
    pc s' t = Wake m x"
proof -
  have m1: "m = Plain \<longrightarrow> \<not> locked st" using m by blast
  obtain s' a' where s': "solo_reaches e t s s'" "simulates s' a'"
    and c: "(\<exists>x. waiting a = waiting a' @ [x] \<and> pc s' t = Wake m x) \<or>
     (state s \<noteq> st \<and> waiting a' = waiting a \<and> state s' = state s \<and> pc s' t = scan_from m (state s'))"
    using solo_remove_once [OF S t p m1 sp] by blast
  from c show ?thesis
  proof
    assume r: "state s \<noteq> st \<and> waiting a' = waiting a \<and> state s' = state s \<and>
      pc s' t = scan_from m (state s')"
    then have p': "pc s' t = Scan m (state s') (queue_head (state s'))" by (simp add: scan_from_def)
    have "m = Plain \<longrightarrow> \<not> locked (state s')" using m r by simp
    from solo_remove_once [OF s'(2) t p' this sp] r s'(1) show ?thesis using solo_trans by metis
  qed (use s' in blast)
qed

text \<open>The removed waiter is unparked, with the hand-over token in the fair mode.\<close>

lemma solo_serve:
  assumes S: "simulates s a" and t: "valid_ptr t" and p: "pc s t = Scan m st cur"
    and m: "m = Plain \<longrightarrow> \<not> locked st \<and> \<not> locked (state s)" and sp: "\<not> spurious e"
  shows "\<exists>s' a' x. solo_reaches e t s s' \<and> simulates s' a' \<and> waiting a = waiting a' @ [x] \<and>
    pc s' t = Idle \<and> (\<exists>d. heap s' x = Some d \<and> parker d) \<and> (m = Fair \<longrightarrow> holds s' x)"
proof -
  obtain s1 a1 x where s1: "solo_reaches e t s s1" "simulates s1 a1" "waiting a = waiting a1 @ [x]"
    "pc s1 t = Wake m x" using solo_remove [OF assms] by blast
  have "exec e t s1 \<noteq> Fault" using exec_ok [OF s1(2) t, of e] by auto
  then obtain s2 where s2: "exec e t s1 = Next s2" "pc s2 t = Idle"
    "\<exists>d. heap s2 x = Some d \<and> parker d" "m = Fair \<longrightarrow> holds s2 x"
    using s1(4) by (cases m) (auto simp: exec_def unlock_slow_wake_def unlock_slow_fair_wake_def
        deref_def holds_def split: option.splits)
  then show ?thesis
    using quiet_step(1) [OF s1(2) t s2(1)] solo_trans [OF s1(1) solo_step [OF s2(1)]] s1(3) by force
qed

lemma queue_of_waiting: "simulates s a \<Longrightarrow> queue_of s q \<Longrightarrow> waiting a = q"
  using inv_queue_of simulatesD(1) queue_of_unique by blast

text \<open>
  C6: \<open>unlock\<close> finishes and does its work when it is undisturbed: if a waiter is queued and the
  queue is not locked, a holder that calls \<open>unlock\<close> and runs alone from there, with no spurious
  failure of an exchange, returns after finitely many steps, having removed exactly the oldest
  waiter and unparked it. (With the queue locked it returns at once and leaves the waking to the
  thread that has locked it.)
\<close>

theorem unlock_wakes_oldest:
  assumes "reach s" "valid_ptr t" "pc s t = Critical" "\<not> qlocked (state s)" "queue_of s (q @ [x])"
    and e: "call e = Call_unlock" "\<not> spurious e"
  shows "\<exists>n s'. solo n e t s = Next s' \<and> pc s' t = Idle \<and> queue_of s' q \<and>
    (\<exists>d. heap s' x = Some d \<and> parker d)"
proof -
  obtain a where S: "simulates s a" using reach_simulates [OF assms(1)] by blast
  note I = simulatesD(1) [OF S]
  have q: "waiting a = q @ [x]" using queue_of_waiting [OF S assms(5)] .
  have head: "queue_head (state s) \<noteq> null" using empty_queue [OF I] q by simp
  have lk: "locked (state s)" using holder_word(1) [OF I, of t] assms(3) by simp
  let ?v = "state s - LOCKED_BIT"
  let ?s1 = "goto t Unlock_load (store ?v s)"
  have e1: "exec e t s = Next ?s1"
    using assms(3,4) e head lk
    by (simp add: exec_def on_critical_def unlock_def after_unlock_def layout)
  obtain a1 where a1: "simulates ?s1 a1" "waiting a1 = waiting a"
    using quiet_step(1) [OF S assms(2) e1] by auto
  let ?s2 = "goto t (Unlock_loop ?v) ?s1"
  have e2: "exec e t ?s1 = Next ?s2"
    using assms(4) head lk by (simp add: exec_def unlock_slow_check_def layout)
  obtain a2 where a2: "simulates ?s2 a2" "waiting a2 = waiting a"
    using quiet_step(1) [OF a1(1) assms(2) e2] a1(2) by auto
  let ?s3 = "goto t (scan_from Plain ?v) (store (?v OR QUEUE_LOCKED_BIT) ?s2)"
  have e3: "exec e t ?s2 = Next ?s3" using e by (simp add: exec_def unlock_slow_loop_def cas_ok_def)
  obtain a3 where a3: "simulates ?s3 a3" "waiting a3 = waiting a"
    using quiet_step(1) [OF a2(1) assms(2) e3] a2(2) by (auto simp: scan_from_def)
  obtain s' a' y where s': "solo_reaches e t ?s3 s'" "simulates s' a'" "waiting a3 = waiting a' @ [y]"
    "pc s' t = Idle" "\<exists>d. heap s' y = Some d \<and> parker d"
    using solo_serve [OF a3(1) assms(2), of Plain ?v "queue_head ?v" e] e lk
    by (auto simp: scan_from_def layout)
  have "solo_reaches e t s s'" using s'(1) solo_cons e1 e2 e3 by blast
  moreover have "y = x" "queue_of s' q"
    using s'(3) a3(2) q inv_queue_of [OF simulatesD(1) [OF s'(2)]] by simp_all
  ultimately show ?thesis using s'(4,5) unfolding solo_reaches_def by blast
qed

text \<open>
  C7: a fair unlock whose deadline has passed finishes and hands the lock to the oldest waiter when
  it is undisturbed: if a waiter is queued and the queue is not locked, and the holder runs alone
  with no spurious failure of an exchange and not in the last millisecond of the clock, it returns
  after finitely many steps, has removed exactly the oldest waiter, and that waiter holds the lock.
\<close>

theorem unlock_fair_serves_oldest:
  assumes "reach s" "valid_ptr t" "pc s t = Critical" "\<not> qlocked (state s)" "queue_of s (q @ [x])"
    and e: "call e = Call_unlock_fair" "\<not> spurious e" "deadline (fair s) < now e"
      "int (now e) + 1000000 \<le> INSTANT_END"
  shows "\<exists>n s'. solo n e t s = Next s' \<and> pc s' t = Idle \<and> queue_of s' q \<and> holds s' x"
proof -
  obtain a where S: "simulates s a" using reach_simulates [OF assms(1)] by blast
  note I = simulatesD(1) [OF S]
  have q: "waiting a = q @ [x]" using queue_of_waiting [OF S assms(5)] .
  have head: "queue_head (state s) \<noteq> null" using empty_queue [OF I] q by simp
  obtain f where "is_timeout (now e) (fair s) = Some (True, f)" using is_timeout_fires [OF e(3,4)] by blast
  then obtain s1 where e1: "exec e t s = Next s1" and s1: "pc s1 t = Fair_or" "state s1 = state s"
    using assms(3) e(1) by (simp add: exec_def on_critical_def unlock_fair_def)
  obtain a1 where a1: "simulates s1 a1" "waiting a1 = waiting a"
    using quiet_step(1) [OF S assms(2) e1] s1 by auto
  let ?v = "state s OR TIMEOUT_BIT"
  let ?s2 = "goto t (Fair_load spin_wait_new) (store ?v s1)"
  have e2: "exec e t s1 = Next ?s2" using s1 head by (simp add: exec_def unlock_fair_or_def Let_def)
  obtain a2 where a2: "simulates ?s2 a2" "waiting a2 = waiting a"
    using quiet_step(1) [OF a1(1) assms(2) e2] a1(2) by auto
  let ?s3 = "goto t (Fair_loop spin_wait_new ?v) ?s2"
  have e3: "exec e t ?s2 = Next ?s3" by (simp add: exec_def)
  obtain a3 where a3: "simulates ?s3 a3" "waiting a3 = waiting a"
    using quiet_step(1) [OF a2(1) assms(2) e3] a2(2) by auto
  let ?s4 = "goto t (scan_from Fair ?v) (store (?v OR QUEUE_LOCKED_BIT) ?s3)"
  have e4: "exec e t ?s3 = Next ?s4"
    using e head assms(4) by (simp add: exec_def unlock_slow_fair_loop_def cas_ok_def layout)
  obtain a4 where a4: "simulates ?s4 a4" "waiting a4 = waiting a"
    using quiet_step(1) [OF a3(1) assms(2) e4] a3(2) by (auto simp: scan_from_def)
  obtain s' a' y where s': "solo_reaches e t ?s4 s'" "simulates s' a'" "waiting a4 = waiting a' @ [y]"
    "pc s' t = Idle" "holds s' y"
    using solo_serve [OF a4(1) assms(2), of Fair ?v "queue_head ?v" e] e
    by (auto simp: scan_from_def layout)
  have "solo_reaches e t s s'" using s'(1) solo_cons e1 e2 e3 e4 by blast
  moreover have "y = x" "queue_of s' q"
    using s'(3) a4(2) q inv_queue_of [OF simulatesD(1) [OF s'(2)]] by simp_all
  ultimately show ?thesis using s'(4,5) unfolding solo_reaches_def by blast
qed

text \<open>A reachable system in which 8 holds the lock and 16 is the only waiter.\<close>

lemma waiting_system:
  obtains s where "reach s" "pc s 8 = Critical" "\<not> qlocked (state s)" "queue_of s ([] @ [16])"
    "deadline (fair s) < 1"
proof -
  obtain s where s: "run waiting_schedule (init_sys 0 1) = Next s"
    "heap s 16 = Some (thread_data_new\<lparr>queue_tail := 16\<rparr>)" "pc s 8 = Critical"
    and w: "queue_head (state s) = 16" "\<not> qlocked (state s)" "deadline (fair s) = 0"
    using waiting_run by blast
  have r: "reach s" using reach_run [OF reach_init schedule_valid(1) s(1)] .
  then obtain q where q: "queue_of s q" using reach_queue_of by blast
  have hd: "q \<noteq> []" "q ! 0 = 16" using q w(1) by (auto simp: queue_of_def hd_conv_nth split: if_splits)
  obtain a where S: "simulates s a" using reach_simulates [OF r] by blast
  have "\<not> Suc 0 < length q"
  proof
    assume len: "Suc 0 < length q"
    then have "q ! 1 = field next (heap s) 16" using q hd(2) unfolding queue_of_def by fastforce
    then have "q ! 1 = null" using s(2) by (simp add: field_def thread_data_new_def)
    moreover have "valid_ptr (q ! 1)"
      using queue_valid(1) [OF simulatesD(1) [OF S]] queue_of_waiting [OF S q] len by simp
    ultimately show False using valid_ptr_not_null by blast
  qed
  with hd have "q = [16]" by (cases q) auto
  then show thesis using that [OF r s(3) w(2)] q w(3) by simp
qed

theorem unlock_wakes_oldest_witness: "\<exists>s n s'. reach s \<and> queue_of s [16] \<and>
    solo n (calm Call_unlock) 8 s = Next s' \<and> queue_of s' [] \<and> (\<exists>d. heap s' 16 = Some d \<and> parker d)"
proof -
  obtain s where s: "reach s" "pc s 8 = Critical" "\<not> qlocked (state s)" "queue_of s ([] @ [16])"
    by (rule waiting_system)
  from unlock_wakes_oldest [OF s(1) _ s(2-4), of "calm Call_unlock"] s(1,4) show ?thesis
    by (simp add: calm_def) blast
qed

theorem unlock_fair_serves_oldest_witness: "\<exists>s e n s'. reach s \<and> queue_of s [16] \<and>
    solo n e 8 s = Next s' \<and> queue_of s' [] \<and> holds s' 16"
proof -
  obtain s where s: "reach s" "pc s 8 = Critical" "\<not> qlocked (state s)" "queue_of s ([] @ [16])"
    "deadline (fair s) < 1" by (rule waiting_system)
  let ?e = "\<lparr>call = Call_unlock_fair, spurious = False, now = 1\<rparr>"
  from unlock_fair_serves_oldest [OF s(1) _ s(2-4), of ?e] s(1,4,5) show ?thesis
    by (simp add: INSTANT_END_def) blast
qed

subsection \<open>Branches, and an uncontended lock\<close>

text \<open>
  The branch of \<open>unlock_slow_fair\<close> for an empty queue is never taken: a fair unlock that found
  a waiter finds one when it has the queue lock, because only the holder can empty the queue.
\<close>

lemma fair_unlock_finds_waiter:
  assumes "reach s"
  shows "pc s t \<noteq> Fair_clear \<and>
    (\<forall>w st. pc s t = Fair_load w \<or> pc s t = Fair_loop w st \<longrightarrow> (\<exists>q x. queue_of s (q @ [x])))"
proof -
  obtain a where S: "simulates s a" using reach_simulates [OF assms] by blast
  note I = simulatesD(1) [OF S]
  have "local_ok (waiting a) (pc s t)" using localD [OF I] .
  moreover have "waiting a \<noteq> [] \<Longrightarrow> \<exists>q x. queue_of s (q @ [x])"
    using inv_queue_of [OF I] append_butlast_last_id by metis
  ultimately show ?thesis by auto
qed

text \<open>
  The word is \<open>IDLE\<close> exactly when nobody holds the lock, nobody works on the queue and nobody
  waits in it; so \<open>try_lock\<close>, and the first attempt of \<open>lock\<close>, succeed exactly in this case,
  unless the weak exchange fails spuriously.
\<close>

lemma idle_iff_free:
  assumes "reach s"
  shows "(state s = IDLE \<longleftrightarrow> (\<forall>t. \<not> holds s t) \<and> (\<forall>t. \<not> qlocks (pc s t)) \<and> queue_of s []) \<and>
    try_lock e t s =
      Next (if state s = IDLE \<and> \<not> spurious e then goto t Critical (store LOCKED_BIT s) else goto t Idle s)"
proof -
  obtain a where S: "simulates s a" using reach_simulates [OF assms] by blast
  note I = simulatesD(1) [OF S]
  note D = invD [OF I]
  have q: "queue_of s [] \<longleftrightarrow> queue_head (state s) = null"
    using empty_queue [OF I] inv_queue_of [OF I] queue_of_unique by metis
  have "locked (state s) \<longleftrightarrow> (\<exists>t. holds s t)" using D(1) by (auto simp: inv_holder_def)
  moreover have "qlocked (state s) \<longleftrightarrow> (\<exists>t. qlocks (pc s t))" using D(2) by (auto simp: inv_qowner_def)
  moreover have "timeout (state s) \<longrightarrow> locked (state s)"
    using D(1,3) by (auto simp: inv_timeout_def inv_holder_def)
  moreover have "state s = IDLE \<longleftrightarrow> \<not> locked (state s) \<and> \<not> qlocked (state s) \<and> \<not> timeout (state s) \<and>
      queue_head (state s) = null"
    using word_layout_eqI [of "state s" IDLE] by (auto simp: layout)
  ultimately show ?thesis by (auto simp: q try_lock_def cas_ok_def)
qed

text \<open>
  Without contention \<open>lock\<close> takes one exchange and \<open>unlock\<close> one subtraction, and together they
  leave the system exactly as it was.
\<close>

lemma uncontended_round_trip:
  assumes "state s = IDLE" "pc s t = Idle"
  shows "run [(calm Call_lock, t)] s = Next (goto t Critical (store LOCKED_BIT s)) \<and>
    run [(calm Call_lock, t), (calm Call_unlock, t)] s = Next s"
proof -
  let ?s = "goto t Critical (store LOCKED_BIT s)"
  have l: "exec (calm Call_lock) t s = Next ?s"
    using assms by (simp add: exec_def on_idle_def calm_def lock_def cas_ok_def)
  have "goto t Idle (store (LOCKED_BIT - LOCKED_BIT) ?s) = s"
    using assms by (simp add: goto_def store_def IDLE_def fun_upd_idem)
  then have "exec (calm Call_unlock) t ?s = Next s"
    by (simp add: exec_def on_critical_def calm_def unlock_def after_unlock_def layout)
  with l show ?thesis by simp
qed

end
