(* ===== verification/Raw_Mutex_Obtain.thy ===== *)
theory Raw_Mutex_Obtain
  imports Raw_Mutex_Progress
begin

section \<open>RawMutex: a waiting thread can always be served\<close>

text \<open>
  From every reachable system, a thread inside \<open>lock\<close> can still come to its critical section, by steps
  of the threads that are inside an operation already; none has to start another one. Each round
  lets one thread run alone until it has left its phase of the protocol: unlocking, having the lock,
  waiting. The number of phases left to all threads together gets smaller.
\<close>

subsection \<open>An unlocking thread finishes\<close>

definition finishes :: "env \<Rightarrow> ptr \<Rightarrow> sys \<Rightarrow> bool" where
  "finishes e t s \<longleftrightarrow> (\<exists>s'. solo_reaches e t s s' \<and> pc s' t = Idle)"

definition sound :: "sys \<Rightarrow> bool" where
  "sound s \<longleftrightarrow> (\<exists>a. simulates s a)"

lemma sound_step: "sound s \<Longrightarrow> valid_ptr t \<Longrightarrow> exec e t s = Next s' \<Longrightarrow> sound s'"
  using exec_ok unfolding sound_def by (metis simulates_after_def step_ok_simps(3))

lemma sound_no_fault: "sound s \<Longrightarrow> valid_ptr t \<Longrightarrow> exec e t s \<noteq> Fault"
  using exec_ok unfolding sound_def by (metis step_ok_simps(2))

lemma sound_solo:
  assumes "valid_ptr t" "solo_reaches e t s s'" "sound s"
  shows "sound s' \<and> (\<forall>u. u \<noteq> t \<longrightarrow> pc s' u = pc s u)"
proof -
  obtain n where "solo n e t s = Next s'" using assms(2) by (auto simp: solo_reaches_def)
  then show ?thesis
    using assms(3)
  proof (induction n arbitrary: s)
    case (Suc n)
    then obtain s1 where s1: "exec e t s = Next s1" "solo n e t s1 = Next s'"
      by (auto simp: solo_def split: outcome.splits)
    have "sound s1" by (rule sound_step [OF Suc.prems(2) assms(1) s1(1)])
    then show ?case using Suc.IH [OF s1(2)] exec_other [OF s1(1)] by simp
  qed (simp add: solo_def)
qed

lemma finishes_idle: "exec e t s = Next s' \<Longrightarrow> pc s' t = Idle \<Longrightarrow> finishes e t s"
  using solo_step unfolding finishes_def by blast

lemma finishes_step: "exec e t s = Next s' \<Longrightarrow> finishes e t s' \<Longrightarrow> finishes e t s"
  using solo_cons unfolding finishes_def by blast

lemma finishes_solo: "solo_reaches e t s s' \<Longrightarrow> finishes e t s' \<Longrightarrow> finishes e t s"
  using solo_trans unfolding finishes_def by blast

lemma fin_wake:
  assumes "sound s" "valid_ptr t" "pc s t = Wake m x"
  shows "finishes e t s"
proof -
  have "exec e t s \<noteq> Fault" by (rule sound_no_fault [OF assms(1,2)])
  then have "\<exists>s'. exec e t s = Next s' \<and> pc s' t = Idle"
    using assms(3)
    by (cases m) (auto simp: exec_def unlock_slow_wake_def unlock_slow_fair_wake_def deref_def split: option.splits)
  then show ?thesis using finishes_idle by blast
qed

lemma fin_pop_clear:
  assumes "sound s" "valid_ptr t" "pc s t = Pop_clear m x"
  shows "finishes e t s"
proof -
  obtain s' where s': "exec e t s = Next s'" "pc s' t = Wake m x"
    using assms(3) by (cases m) (auto simp: exec_def unlock_slow_pop_clear_def unlock_slow_fair_pop_clear_def)
  then show ?thesis using finishes_step fin_wake [OF sound_step [OF assms(1,2)] assms(2)] by blast
qed

text \<open>What comes after the walk: the thread finishes, or starts again with the state as it is now.\<close>

definition rescans :: "ptr \<Rightarrow> mode \<Rightarrow> u64 \<Rightarrow> sys \<Rightarrow> sys \<Rightarrow> bool" where
  "rescans t m st s s' \<longleftrightarrow> state s \<noteq> st \<and> state s' = state s \<and> pc s' t = scan_from m (state s)"

lemma release_step:
  assumes "pc s t = Release st" "\<not> spurious e"
  shows "\<exists>s'. exec e t s = Next s' \<and> (pc s' t = Idle \<or> rescans t Plain st s s')"
  using assms by (auto simp: exec_def unlock_slow_release_def cas_ok_def rescans_def)

lemma pop_last_step:
  assumes "sound s" "pc s t = Pop_last m st x" "\<not> spurious e"
  shows "\<exists>s'. exec e t s = Next s' \<and> (pc s' t = Wake m x \<or> rescans t m st s s')"
proof -
  obtain a where "simulates s a" using assms(1) by (auto simp: sound_def)
  note I = simulatesD(1) [OF this]
  have "queue_head (state s) \<noteq> null" using empty_queue [OF I] localD [OF I, of t] assms(2) by simp
  then show ?thesis
    using assms(2,3)
    by (cases m) (auto simp: exec_def unlock_slow_pop_last_def unlock_slow_fair_pop_last_def pop_retry_def
      cas_ok_def rescans_def)
qed

lemma scanned_step:
  assumes S: "sound s" and t: "valid_ptr t" and p: "pc s t = Scanned m st x"
  shows "\<exists>s'. exec e t s = Next s' \<and> (pc s' t = Pop_clear m x \<or>
    state s' = state s \<and> (pc s' t = Pop_last m st x \<or> m = Plain \<and> pc s' t = Release st))"
proof (cases "m = Plain \<and> locked st")
  case True
  then show ?thesis
    using p sound_no_fault [OF S t, of e]
    by (auto simp: exec_def unlock_slow_scanned_def set_tail_def deref_def and_bit_eq_0 split: option.splits)
next
  case False
  obtain a where "simulates s a" using S by (auto simp: sound_def)
  then show ?thesis using scanned_cases [OF _ t p, of a e] False by blast
qed

lemma after_scan:
  assumes "sound s" "valid_ptr t" "pc s t = Scanned m st x" "\<not> spurious e"
  shows "finishes e t s \<or> (\<exists>s1 s'. solo_reaches e t s s' \<and> state s1 = state s \<and> rescans t m st s1 s')"
proof -
  obtain s1 where s1: "exec e t s = Next s1" and c: "pc s1 t = Pop_clear m x \<or>
    state s1 = state s \<and> (pc s1 t = Pop_last m st x \<or> m = Plain \<and> pc s1 t = Release st)"
    using scanned_step [OF assms(1-3)] by blast
  have ok: "sound s1" by (rule sound_step [OF assms(1,2) s1])
  from c consider "pc s1 t = Pop_clear m x" | "state s1 = state s" "pc s1 t = Pop_last m st x"
    | "state s1 = state s" "m = Plain" "pc s1 t = Release st" by blast
  then show ?thesis
  proof cases
    case 1
    then show ?thesis using finishes_step [OF s1] fin_pop_clear [OF ok assms(2)] by blast
  next
    case 2
    obtain s2 where s2: "exec e t s1 = Next s2" "pc s2 t = Wake m x \<or> rescans t m st s1 s2"
      using pop_last_step [OF ok 2(2) assms(4)] by blast
    have "finishes e t s" if "pc s2 t = Wake m x"
      using finishes_step [OF s1 finishes_step [OF s2(1)]] fin_wake [OF sound_step [OF ok assms(2) s2(1)] assms(2)] that
      by blast
    moreover have "solo_reaches e t s s2" by (rule solo_cons [OF s1 solo_step [OF s2(1)]])
    ultimately show ?thesis using s2(2) 2(1) by blast
  next
    case 3
    obtain s2 where s2: "exec e t s1 = Next s2" "pc s2 t = Idle \<or> rescans t Plain st s1 s2"
      using release_step [OF 3(3) assms(4)] by blast
    have "finishes e t s" if "pc s2 t = Idle" using finishes_step [OF s1 finishes_idle [OF s2(1) that]] .
    moreover have "solo_reaches e t s s2" by (rule solo_cons [OF s1 solo_step [OF s2(1)]])
    ultimately show ?thesis using s2(2) 3(1,2) by blast
  qed
qed

lemma scan_once:
  assumes "sound s" "valid_ptr t" "pc s t = Scan m st cur" "\<not> spurious e"
  shows "finishes e t s \<or> (\<exists>s'. solo_reaches e t s s' \<and> state s \<noteq> st \<and> state s' = state s \<and>
    pc s' t = scan_from m (state s))"
proof -
  obtain a where S: "simulates s a" using assms(1) by (auto simp: sound_def)
  have o: "qlocks (pc s t)" using assms(3) by simp
  obtain i c k where L: "links (heap s) (waiting a) i c k" "queue_head st = waiting a ! i" "cur = waiting a ! c"
    using scanD [OF simulatesD(1) [OF S] o] assms(3) by auto
  obtain s1 a1 where s1: "solo_reaches e t s s1" "simulates s1 a1"
    "pc s1 t = Scanned m st (last (waiting a))" "state s1 = state s"
    using solo_scan [OF S assms(2) _ L(1,2), of m e] assms(3) L(3) by blast
  have "sound s1" using s1(2) by (auto simp: sound_def)
  from after_scan [OF this assms(2) s1(3) assms(4)] show ?thesis
    using finishes_solo [OF s1(1)] solo_trans [OF s1(1)] s1(4) unfolding rescans_def by metis
qed

lemma fin_scan:
  assumes "sound s" "valid_ptr t" "pc s t = Scan m st cur" "\<not> spurious e"
  shows "finishes e t s"
proof (rule ccontr)
  assume no: "\<not> finishes e t s"
  then obtain s' where s': "solo_reaches e t s s'" "state s' = state s" "pc s' t = scan_from m (state s)"
    using scan_once [OF assms] by blast
  then have p: "pc s' t = Scan m (state s') (queue_head (state s'))" by (simp add: scan_from_def)
  have "sound s'" using sound_solo [OF assms(2) s'(1) assms(1)] by blast
  then have "finishes e t s'" using scan_once [OF _ assms(2) p assms(4)] by blast
  then show False using finishes_solo [OF s'(1)] no by blast
qed

text \<open>Whoever has the queue lock finishes.\<close>

lemma fin_rescan:
  assumes "sound s" "valid_ptr t" "solo_reaches e t s s'" "rescans t m st s1 s'" "\<not> spurious e"
  shows "finishes e t s"
proof -
  have "sound s'" using sound_solo [OF assms(2,3,1)] by blast
  moreover have "pc s' t = Scan m (state s') (queue_head (state s'))"
    using assms(4) by (simp add: rescans_def scan_from_def)
  ultimately show ?thesis using fin_scan assms(2,5) finishes_solo [OF assms(3)] by blast
qed

lemma fin_queue_owner:
  assumes "sound s" "valid_ptr t" "qlocks (pc s t)" "\<not> spurious e"
  shows "finishes e t s"
proof (cases "pc s t")
  case Fair_clear
  then have "exec e t s = Next (goto t Idle (store (state s AND QUEUE_MASK) s))"
    by (simp add: exec_def unlock_slow_fair_clear_def)
  then show ?thesis by (rule finishes_idle) simp
next
  case (Scan m st cur)
  then show ?thesis by (rule fin_scan [OF assms(1,2) _ assms(4)])
next
  case (Scanned m st x)
  from after_scan [OF assms(1,2) this assms(4)] show ?thesis
    using fin_rescan [OF assms(1,2) _ _ assms(4)] by blast
next
  case (Release st)
  then show ?thesis
    using release_step [OF Release assms(4)] finishes_idle solo_step fin_rescan [OF assms(1,2) _ _ assms(4)] by blast
next
  case (Pop_last m st x)
  then obtain s' where s': "exec e t s = Next s'" "pc s' t = Wake m x \<or> rescans t m st s s'"
    using pop_last_step [OF assms(1) _ assms(4)] by blast
  then show ?thesis
    using finishes_step [OF s'(1)] fin_wake [OF sound_step [OF assms(1,2) s'(1)] assms(2)]
      solo_step [OF s'(1)] fin_rescan [OF assms(1,2) _ _ assms(4)] by blast
next
  case (Pop_clear m x)
  then show ?thesis by (rule fin_pop_clear [OF assms(1,2)])
qed (use assms(3) in simp_all)

text \<open>With the queue unlocked, every other unlocking thread gets the queue lock, or has nothing to do.\<close>

lemma fin_unlock_loop_fresh:
  assumes "sound s" "valid_ptr t" "pc s t = Unlock_loop (state s)" "\<not> spurious e"
  shows "finishes e t s"
proof -
  let ?s = "goto t (scan_from Plain (state s)) (store (state s OR QUEUE_LOCKED_BIT) s)"
  have e: "exec e t s = Next ?s" using assms(3,4) by (simp add: exec_def unlock_slow_loop_def cas_ok_def)
  have "sound ?s" by (rule sound_step [OF assms(1,2) e])
  then show ?thesis
    using finishes_step [OF e] fin_queue_owner [OF _ assms(2) _ assms(4)] by (simp add: scan_from_def)
qed

lemma fin_unlock_check:
  assumes "sound s" "valid_ptr t" "exec e t s = unlock_slow_check t (state s) s" "\<not> spurious e"
  shows "finishes e t s"
proof (cases "is_queue_locked (state s) \<or> queue_head (state s) = null")
  case True
  then show ?thesis using assms(3) finishes_idle by (simp add: unlock_slow_check_def)
next
  case False
  let ?s = "goto t (Unlock_loop (state s)) s"
  have e: "exec e t s = Next ?s" using assms(3) False by (simp add: unlock_slow_check_def)
  then show ?thesis
    using finishes_step [OF e] fin_unlock_loop_fresh [OF sound_step [OF assms(1,2) e] assms(2) _ assms(4)] by simp
qed

lemma fin_unlock_load:
  assumes "sound s" "valid_ptr t" "pc s t = Unlock_load" "\<not> spurious e"
  shows "finishes e t s"
  by (rule fin_unlock_check [OF assms(1,2) _ assms(4)]) (simp add: exec_def assms(3))

lemma fin_unlock_loop:
  assumes "sound s" "valid_ptr t" "pc s t = Unlock_loop st" "\<not> spurious e"
  shows "finishes e t s"
proof (cases "state s = st")
  case True
  then show ?thesis using fin_unlock_loop_fresh [OF assms(1,2) _ assms(4)] assms(3) by simp
next
  case False
  then show ?thesis
    using fin_unlock_check [OF assms(1,2) _ assms(4)] assms(3) by (simp add: exec_def unlock_slow_loop_def cas_ok_def)
qed

lemma fin_after_unlock:
  assumes "sound s" "valid_ptr t" "exec e t s = after_unlock t old (store v s)" "\<not> spurious e"
  shows "finishes e t s"
proof (cases "is_queue_locked old \<or> queue_head old = null")
  case True
  then show ?thesis using assms(3) finishes_idle by (simp add: after_unlock_def)
next
  case False
  then have e: "exec e t s = Next (goto t Unlock_load (store v s))" using assms(3) by (simp add: after_unlock_def)
  show ?thesis
    using finishes_step [OF e] fin_unlock_load [OF sound_step [OF assms(1,2) e] assms(2) _ assms(4)] by simp
qed

lemma fin_fair_loop_fresh:
  assumes "sound s" "valid_ptr t" "pc s t = Fair_loop w (state s)" "\<not> qlocked (state s)" "\<not> spurious e"
  shows "finishes e t s"
proof -
  let ?s = "goto t (if queue_head (state s) = null then Fair_clear else scan_from Fair (state s))
    (store (state s OR QUEUE_LOCKED_BIT) s)"
  have e: "exec e t s = Next ?s"
    using assms(3-5) by (simp add: exec_def unlock_slow_fair_loop_def cas_ok_def layout)
  have "sound ?s" by (rule sound_step [OF assms(1,2) e])
  then show ?thesis
    using finishes_step [OF e] fin_queue_owner [OF _ assms(2) _ assms(5)] by (simp add: scan_from_def)
qed

lemma fin_to_fair_loop:
  assumes "sound s" "valid_ptr t" "exec e t s = Next (goto t (Fair_loop w (state s)) s)" "\<not> qlocked (state s)"
    "\<not> spurious e"
  shows "finishes e t s"
  using finishes_step [OF assms(3)] fin_fair_loop_fresh [OF sound_step [OF assms(1-3)] assms(2) _ _ assms(5)] assms(4)
  by simp

lemma fin_fair_load:
  assumes "sound s" "valid_ptr t" "pc s t = Fair_load w" "\<not> qlocked (state s)" "\<not> spurious e"
  shows "finishes e t s"
  by (rule fin_to_fair_loop [OF assms(1,2) _ assms(4,5)]) (simp add: exec_def assms(3))

lemma fin_fair_loop:
  assumes "sound s" "valid_ptr t" "pc s t = Fair_loop w st" "\<not> qlocked (state s)" "\<not> spurious e"
  shows "finishes e t s"
proof (cases "state s = st")
  case True
  then show ?thesis using fin_fair_loop_fresh [OF assms(1,2) _ assms(4,5)] assms(3) by simp
next
  case False
  then have "\<exists>w. exec e t s = Next (goto t (Fair_loop w (state s)) s)"
    using assms(3) by (auto simp: exec_def unlock_slow_fair_loop_def cas_ok_def Let_def)
  then show ?thesis using fin_to_fair_loop [OF assms(1,2) _ assms(4,5)] by blast
qed

lemma fin_fair_or:
  assumes "sound s" "valid_ptr t" "pc s t = Fair_or" "\<not> qlocked (state s)" "\<not> spurious e"
  shows "finishes e t s"
proof -
  let ?v = "state s OR TIMEOUT_BIT"
  let ?s = "goto t (if queue_head (state s) \<noteq> null then Fair_load spin_wait_new
    else Fair_and (LOCKED_BIT OR TIMEOUT_BIT)) (store ?v s)"
  have e: "exec e t s = Next ?s" using assms(3) by (simp add: exec_def unlock_fair_or_def Let_def)
  have ok: "sound ?s" by (rule sound_step [OF assms(1,2) e])
  have "finishes e t ?s"
  proof (cases "queue_head (state s) = null")
    case True
    then show ?thesis
      by (intro fin_after_unlock [OF ok assms(2) _ assms(5)]) (simp add: exec_def unlock_fair_and_def)
  next
    case False
    then show ?thesis using fin_fair_load [OF ok assms(2) _ _ assms(5)] assms(4) by (simp add: layout)
  qed
  then show ?thesis by (rule finishes_step [OF e])
qed

text \<open>The phases of a thread: 1 unlocking or holding the lock, 2 contending for it, 3 parked.\<close>

fun phase :: "pc \<Rightarrow> nat" where
  "phase Idle = 0"
| "phase (Slow_load w) = 2"
| "phase (Slow_loop w st) = 2"
| "phase (Parked w) = 3"
| "phase _ = 1"

lemma fin_phase_1:
  assumes "sound s" "valid_ptr t" "phase (pc s t) = 1"
    and free: "qlocks (pc s t) \<or> \<not> qlocked (state s)"
  shows "finishes (calm Call_unlock) t s"
proof (cases "qlocks (pc s t)")
  case True
  then show ?thesis using fin_queue_owner [OF assms(1,2)] by (simp add: calm_def)
next
  case False
  then have q: "\<not> qlocked (state s)" using free by blast
  have sp: "\<not> spurious (calm Call_unlock)" by (simp add: calm_def)
  show ?thesis
  proof (cases "pc s t")
    case Critical
    show ?thesis
      by (rule fin_after_unlock [OF assms(1,2) _ sp]) (simp add: exec_def Critical on_critical_def calm_def unlock_def)
  next
    case (Fair_and b)
    show ?thesis
      by (rule fin_after_unlock [OF assms(1,2) _ sp]) (simp add: exec_def Fair_and unlock_fair_and_def)
  qed (use assms False q sp fin_unlock_load fin_unlock_loop fin_fair_load fin_fair_loop fin_fair_or fin_wake
    in \<open>auto\<close>)
qed

subsection \<open>Contending and parked threads\<close>

text \<open>A thread in \<open>lock_slow\<close> that runs alone takes a free lock.\<close>

lemma takes_fresh:
  assumes "pc s t = Slow_loop w (state s)" "\<not> locked (state s)" "\<not> spurious e"
  shows "\<exists>s'. solo_reaches e t s s' \<and> pc s' t = Critical"
proof -
  have "exec e t s = Next (goto t Critical (store (state s OR LOCKED_BIT) s))"
    using assms by (simp add: exec_def lock_slow_loop_def cas_ok_def and_bit_eq_0)
  then show ?thesis using solo_step by fastforce
qed

lemma takes_free_lock:
  assumes "phase (pc s t) = 2" "\<not> locked (state s)" "\<not> spurious e"
  shows "\<exists>s'. solo_reaches e t s s' \<and> pc s' t = Critical"
proof -
  have again: ?thesis if e: "exec e t s = Next (goto t (Slow_loop w (state s)) s)" for w
    using takes_fresh [of "goto t (Slow_loop w (state s)) s" t w e] assms(2,3) solo_cons [OF e] by auto
  show ?thesis
  proof (cases "pc s t")
    case (Slow_load w)
    then show ?thesis using again [of w] by (simp add: exec_def lock_slow_load_def)
  next
    case (Slow_loop w st)
    show ?thesis
    proof (cases "st = state s")
      case True
      then show ?thesis using takes_fresh [OF _ assms(2,3)] Slow_loop by simp
    next
      case False
      then have "\<exists>w. exec e t s = Next (goto t (Slow_loop w (state s)) s)"
        using Slow_loop by (auto simp: exec_def lock_slow_loop_def cas_ok_def park_push_def)
      then show ?thesis using again by blast
    qed
  qed (use assms(1) in simp_all)
qed

lemma parked_phase: "parked c \<longleftrightarrow> phase c = 3"
  by (cases c) simp_all

lemma unparked_leaves:
  assumes "parked (pc s t)" "heap s t = Some d" "parker d"
  shows "\<exists>s'. solo_reaches e t s s' \<and> (pc s' t = Critical \<or> phase (pc s' t) = 2)"
proof -
  have "\<exists>s'. exec e t s = Next s' \<and> (pc s' t = Critical \<or> phase (pc s' t) = 2)"
    using assms by (cases "pc s t") (auto simp: exec_def park_return_def deref_def)
  then show ?thesis using solo_step by blast
qed

subsection \<open>Serving one thread\<close>

text \<open>One round: \<open>v\<close> runs alone until it is in a later phase, or has the lock.\<close>

definition round_of :: "ptr \<Rightarrow> sys \<Rightarrow> sys \<Rightarrow> bool" where
  "round_of v s s' \<longleftrightarrow> valid_ptr v \<and> solo_reaches (calm Call_unlock) v s s' \<and> phase (pc s' v) < phase (pc s v) \<and>
    (2 \<le> phase (pc s v) \<longrightarrow> pc s' v = Critical \<or> phase (pc s' v) = 2)"

lemma calm_not_spurious [simp]: "\<not> spurious (calm c)"
  by (simp add: calm_def)

lemma sound_valid:
  assumes "sound s" "0 < phase (pc s t)"
  shows "valid_ptr t"
proof -
  have "pc s t \<noteq> Idle" using assms(2) by auto
  then show ?thesis using assms(1) simulatesD(1) invD(4) unfolding sound_def inv_nodes_def by blast
qed

lemma round_1:
  assumes "sound s" "phase (pc s v) = 1" "qlocks (pc s v) \<or> \<not> qlocked (state s)"
  shows "\<exists>s'. round_of v s s'"
proof -
  have v: "valid_ptr v" using sound_valid [OF assms(1), of v] assms(2) by simp
  then show ?thesis
    using fin_phase_1 [OF assms(1) _ assms(2,3)] assms(2) by (auto simp: finishes_def round_of_def)
qed

text \<open>A thread that unlocks or has the lock may have to wait for the owner of the queue lock.\<close>

lemma round_1_or_owner:
  assumes "sound s" "phase (pc s v) = 1"
  shows "\<exists>u s'. round_of u s s' \<and> phase (pc s u) = 1"
proof (cases "qlocked (state s)")
  case True
  obtain a where "simulates s a" using assms(1) by (auto simp: sound_def)
  from invD(2) [OF simulatesD(1) [OF this]] True obtain u where u: "qlocks (pc s u)"
    by (auto simp: inv_qowner_def)
  then have "phase (pc s u) = 1" by (cases "pc s u") auto
  then show ?thesis using round_1 [OF assms(1)] u by blast
next
  case False
  then show ?thesis using round_1 [OF assms] assms(2) by blast
qed

lemma round_2:
  assumes "sound s" "phase (pc s v) = 2" "\<not> locked (state s)"
  shows "\<exists>s'. round_of v s s'"
proof -
  have "valid_ptr v" using sound_valid [OF assms(1), of v] assms(2) by simp
  then show ?thesis
    using takes_free_lock [OF assms(2,3), of "calm Call_unlock"] assms(2) by (force simp: round_of_def)
qed

lemma round_3:
  assumes "sound s" "heap s v = Some d" "parker d" "parked (pc s v)"
  shows "\<exists>s'. round_of v s s'"
proof -
  have "valid_ptr v" using sound_valid [OF assms(1), of v] assms(4) by (simp add: parked_phase)
  then show ?thesis
    using unparked_leaves [OF assms(4,2,3), of "calm Call_unlock"] assms(4) by (force simp: round_of_def parked_phase)
qed

text \<open>Somebody always has a round to run, and if it is the thread to be served, it comes nearer.\<close>

lemma some_round:
  assumes S: "sound s" and t: "2 \<le> phase (pc s t)"
  shows "\<exists>v s'. round_of v s s'"
proof -
  obtain a where "simulates s a" using S by (auto simp: sound_def)
  note I = simulatesD(1) [OF this]
  note D = invD [OF I]
  have node: "parked (pc s v) \<longleftrightarrow> heap s v \<noteq> None" for v using D(4) by (auto simp: inv_nodes_def)
  have awake: "\<exists>v s'. round_of v s s'" if active: "active s v" and free: "\<not> locked (state s)" for v
  proof -
    consider "phase (pc s v) = 1" | "phase (pc s v) = 2" | d where "parked (pc s v)" "heap s v = Some d" "parker d"
    proof (cases "active_pc (pc s v)")
      case True
      then have "phase (pc s v) = 1 \<or> phase (pc s v) = 2" by (cases "pc s v") auto
      then show ?thesis using that by blast
    next
      case False
      then obtain d where "heap s v = Some d" "parker d" using active by (auto simp: active_def)
      then show ?thesis using that node [of v] by blast
    qed
    then show ?thesis
      by cases (use round_1_or_owner [OF S] round_2 [OF S _ free] round_3 [OF S] in blast)+
  qed
  show ?thesis
  proof (cases "locked (state s)")
    case True
    then obtain h where h: "holds s h" using D(1) by (auto simp: inv_holder_def)
    show ?thesis
    proof (cases "holds_pc (pc s h)")
      case True
      then have "phase (pc s h) = 1" by (cases "pc s h") auto
      then show ?thesis using round_1_or_owner [OF S] by blast
    next
      case False
      then obtain d where d: "heap s h = Some d" "unpark_token d = TOKEN_HANDOFF" using h by (auto simp: holds_def)
      have "(0 :: u64) \<noteq> TOKEN_HANDOFF" by (simp add: TOKEN_HANDOFF_def TIMEOUT_BIT_def)
      then have "parker d" using D(4) d unfolding inv_nodes_def by metis
      then show ?thesis using round_3 [OF S d(1)] node [of h] d(1) by auto
    qed
  next
    case False
    show ?thesis
    proof (cases "asleep s t")
      case True
      then consider "t \<in> set (waiting a)" | u where "wakes (pc s u) = Some t"
        using D(7) unfolding inv_parked_def by blast
      then show ?thesis
      proof cases
        case 1
        then obtain v where "active s v" using D(10) False by (auto simp: inv_progress_def)
        then show ?thesis using awake False by blast
      next
        case 2
        then have "phase (pc s u) = 1" by (cases "pc s u") auto
        then show ?thesis using round_1_or_owner [OF S] by blast
      qed
    next
      case False
      have "active s t"
      proof (cases "parked (pc s t)")
        case True
        then obtain d where d: "heap s t = Some d" using node by blast
        then have "parker d" using False D(4) unfolding inv_nodes_def asleep_def by metis
        then show ?thesis using d by (auto simp: active_def)
      next
        case False
        then show ?thesis using t by (cases "pc s t") (auto simp: active_def)
      qed
      then show ?thesis using awake \<open>\<not> locked (state s)\<close> by blast
    qed
  qed
qed

text \<open>Runs in which nobody starts an operation: the client only calls \<open>unlock\<close>.\<close>

definition serve_run :: "ptr list \<Rightarrow> sys \<Rightarrow> sys outcome" where
  "serve_run ts = run (map (Pair (calm Call_unlock)) ts)"

lemma serve_run_solo:
  "solo_reaches (calm Call_unlock) v s s' \<Longrightarrow> \<exists>n. serve_run (replicate n v) s = Next s'"
  by (auto simp: solo_reaches_def solo_def serve_run_def)

lemma serve_run_append: "serve_run ts s = Next s' \<Longrightarrow> serve_run (ts @ us) s = serve_run us s'"
  by (simp add: serve_run_def run_append)

lemma finite_busy:
  assumes "reach s"
  shows "finite {u. pc s u \<noteq> Idle}"
  using assms
proof induction
  case (reach_step s t e s')
  have "{u. pc s' u \<noteq> Idle} \<subseteq> insert t {u. pc s u \<noteq> Idle}" using exec_other [OF reach_step.hyps(3)] by auto
  then show ?case using reach_step.IH finite_subset by blast
qed simp

lemma phases_left:
  assumes "finite A" "v \<in> A" "\<And>u. u \<noteq> v \<Longrightarrow> f u = g u" "(f v :: nat) < g v"
  shows "sum f A < sum g A"
proof (rule sum_strict_mono_ex1 [OF assms(1)])
  show "\<forall>u\<in>A. f u \<le> g u"
  proof
    show "f u \<le> g u" for u using assms(3) [of u] assms(4) by (cases "u = v") simp_all
  qed
  show "\<exists>u\<in>A. f u < g u" using assms(2,4) by blast
qed

lemma obtain_sound:
  assumes "finite A" "sound s" "2 \<le> phase (pc s t)" "\<forall>u. u \<notin> A \<longrightarrow> pc s u = Idle"
  shows "\<exists>ts s'. serve_run ts s = Next s' \<and> pc s' t = Critical"
  using assms(2-)
proof (induction "\<Sum>u\<in>A. phase (pc s u)" arbitrary: s rule: less_induct)
  case less
  obtain v s1 where v: "round_of v s s1" using some_round [OF less.prems(1,2)] by blast
  then have solo: "valid_ptr v" "solo_reaches (calm Call_unlock) v s s1" by (simp_all add: round_of_def)
  have s1: "sound s1" "\<And>u. u \<noteq> v \<Longrightarrow> pc s1 u = pc s u"
    using sound_solo [OF solo less.prems(1)] by blast+
  obtain n where n: "serve_run (replicate n v) s = Next s1" using serve_run_solo [OF solo(2)] by blast
  show ?case
  proof (cases "pc s1 t = Critical")
    case True
    then show ?thesis using n by blast
  next
    case False
    have "pc s v \<noteq> Idle" using v by (auto simp: round_of_def)
    then have A: "v \<in> A" using less.prems(3) by blast
    have "2 \<le> phase (pc s1 t)"
      using less.prems(2) v s1(2) False by (cases "t = v") (auto simp: round_of_def)
    moreover have "\<forall>u. u \<notin> A \<longrightarrow> pc s1 u = Idle" using less.prems(3) s1(2) A by metis
    moreover have "(\<Sum>u\<in>A. phase (pc s1 u)) < (\<Sum>u\<in>A. phase (pc s u))"
      using v s1(2) by (intro phases_left [OF assms(1) A]) (auto simp: round_of_def)
    ultimately obtain ts s' where "serve_run ts s1 = Next s'" "pc s' t = Critical"
      using less.hyps s1(1) by blast
    then show ?thesis using serve_run_append [OF n, of ts] by auto
  qed
qed

lemma lock_served:
  assumes "reach s" "inside_lock (pc s t)"
  shows "\<exists>ts s'. serve_run ts s = Next s' \<and> pc s' t = Critical"
proof -
  have "sound s" using reach_simulates [OF assms(1)] by (simp add: sound_def)
  moreover have "2 \<le> phase (pc s t)" using assms(2) by (cases "pc s t") simp_all
  ultimately show ?thesis using obtain_sound [OF finite_busy [OF assms(1)]] by simp
qed

text \<open>
  C8: a thread that waits for the lock can always still be served: from every reachable system in which
  it is inside \<open>lock\<close>, contending or asleep, some finite interleaving of the threads that are inside
  an operation now takes it into its critical section, and nobody has to call \<open>lock\<close> again.
\<close>

theorem lock_obtainable:
  assumes "reach s" "inside_lock (pc s t)"
  shows "\<exists>ts s'. serve_run ts s = Next s' \<and> pc s' t = Critical"
  by (rule lock_served [OF assms])

text \<open>16 sleeps behind the holder 8.\<close>

theorem lock_obtainable_witness:
  "\<exists>s ts s'. reach s \<and> asleep s 16 \<and> serve_run ts s = Next s' \<and> pc s' 16 = Critical"
proof -
  obtain s where s: "run waiting_schedule (init_sys 0 1) = Next s"
    "heap s 16 = Some (thread_data_new\<lparr>queue_tail := 16\<rparr>)" using waiting_run by blast
  have r: "reach s" using reach_run [OF reach_init schedule_valid(1) s(1)] .
  then obtain a where "simulates s a" using reach_simulates by blast
  from invD(4) [OF simulatesD(1) [OF this]] s(2) have "parked (pc s 16)" unfolding inv_nodes_def by blast
  then have "inside_lock (pc s 16)" by (cases "pc s 16") simp_all
  from lock_obtainable [OF r this] obtain ts s' where "serve_run ts s = Next s'" "pc s' 16 = Critical" by blast
  moreover have "asleep s 16" using s(2) by (simp add: asleep_def thread_data_new_def)
  ultimately show ?thesis using r by blast
qed

end
