(* ===== verification/Parker.thy ===== *)
theory Parker
  imports Prelude
begin

section \<open>The contract of ThreadParker (mekong9-parker)\<close>

text \<open>
  What the queue code relies on: \<open>unpark\<close> leaves a token, any number of them are one, and
  \<open>park\<close> returns only by taking it. A parker is a transition system whose steps are labelled with
  what its users see. The locale states the contract once for all implementations.
\<close>

datatype event = Internal | Unparked | Returned | Timed_out

text \<open>Runs of a parker: the events so far, newest first.\<close>

inductive parker_run :: "'s \<Rightarrow> ('s \<Rightarrow> event \<Rightarrow> 's \<Rightarrow> bool) \<Rightarrow> event list \<Rightarrow> 's \<Rightarrow> bool"
  for s0 step where
  run_init: "parker_run s0 step [] s0"
| run_step: "parker_run s0 step es s \<Longrightarrow> step s e s' \<Longrightarrow> parker_run s0 step (e # es) s'"

inductive_cases parker_runE: "parker_run s0 step (e # es) s"

locale parker =
  fixes s0 :: 's and step :: "'s \<Rightarrow> event \<Rightarrow> 's \<Rightarrow> bool" and ok token :: "'s \<Rightarrow> bool"
  assumes init: "ok s0" "\<not> token s0"
    and keeps: "ok s \<Longrightarrow> step s e s' \<Longrightarrow> ok s'"
    and internal: "ok s \<Longrightarrow> step s Internal s' \<Longrightarrow> token s' = token s"
    and unparked: "ok s \<Longrightarrow> step s Unparked s' \<Longrightarrow> token s'"
    and returned: "ok s \<Longrightarrow> step s Returned s' \<Longrightarrow> token s \<and> \<not> token s'"
    and timed_out: "ok s \<Longrightarrow> step s Timed_out s' \<Longrightarrow> \<not> token s \<and> \<not> token s'"
begin

lemma run_ok: "parker_run s0 step es s \<Longrightarrow> ok s"
  by (induction rule: parker_run.induct) (auto intro: init keeps)

text \<open>The token is there iff an unpark came after the last return.\<close>

lemma token_iff:
  "parker_run s0 step es s \<Longrightarrow>
    token s \<longleftrightarrow> Unparked \<in> set (takeWhile (\<lambda>e. e \<noteq> Returned \<and> e \<noteq> Timed_out) es)"
proof (induction rule: parker_run.induct)
  case (run_step es s e s')
  note ok = run_ok [OF run_step.hyps(1)]
  show ?case
    using run_step internal [OF ok] unparked [OF ok] returned [OF ok] timed_out [OF ok]
    by (cases e) auto
qed (simp add: init)

text \<open>No return without an unpark of its own.\<close>

lemma returns_le_unparks:
  "parker_run s0 step es s \<Longrightarrow>
    count_list es Returned + (if token s then 1 else 0) \<le> count_list es Unparked"
proof (induction rule: parker_run.induct)
  case (run_step es s e s')
  note ok = run_ok [OF run_step.hyps(1)]
  show ?case
    using run_step internal [OF ok] unparked [OF ok] returned [OF ok] timed_out [OF ok]
    by (cases e) (auto split: if_splits)
qed (simp add: init)

lemma return_has_unpark:
  assumes "parker_run s0 step (Returned # es) s"
  shows "Unparked \<in> set (takeWhile (\<lambda>e. e \<noteq> Returned \<and> e \<noteq> Timed_out) es)"
proof -
  from assms obtain s1 where s1: "parker_run s0 step es s1" "step s1 Returned s"
    by (rule parker_runE)
  then show ?thesis using token_iff [OF s1(1)] returned [OF run_ok] by blast
qed

lemma timeout_has_no_unpark:
  assumes "parker_run s0 step (Timed_out # es) s"
  shows "Unparked \<notin> set (takeWhile (\<lambda>e. e \<noteq> Returned \<and> e \<noteq> Timed_out) es)"
proof -
  from assms obtain s1 where s1: "parker_run s0 step es s1" "step s1 Timed_out s"
    by (rule parker_runE)
  then show ?thesis using token_iff [OF s1(1)] timed_out [OF run_ok] by blast
qed

end

subsection \<open>A parker as a component of a larger machine\<close>

text \<open>
  The same contract for machines that run the steps inside \<open>park\<close> and \<open>unpark\<close> themselves.
  \<open>park_op\<close> is the next access of the owner inside \<open>park\<close>: \<^const>\<open>None\<close> when it is blocked, otherwise
  whether \<open>park\<close> returns and the parker after it; the flag is a choice of the system, a wake-up for
  no reason. \<open>unpark_op\<close> is the access of \<open>unpark\<close>, true when it goes on to a system call, and \<open>call_op\<close>
  that call. \<open>renewed\<close> is a new parker at the address of an old one that is gone.
\<close>

record 'f parker_ops =
  new_parker :: 'f
  renewed :: "'f \<Rightarrow> 'f"
  park_op :: "bool \<Rightarrow> 'f \<Rightarrow> (bool \<times> 'f) option"
  unpark_op :: "'f \<Rightarrow> bool \<times> 'f"
  call_op :: "'f \<Rightarrow> 'f"
  has_token :: "'f \<Rightarrow> bool"

text \<open>
  \<open>good n f\<close>: the invariant of a parker to which \<open>n\<close> system calls are under way; \<open>entered f\<close>: its owner is
  inside \<open>park\<close>. An owner with a token that is blocked is waiting for such a call, and \<open>rank\<close> bounds the
  steps until it returns.
\<close>

locale parker_impl =
  fixes P :: "'f parker_ops" and good :: "nat \<Rightarrow> 'f \<Rightarrow> bool" and entered :: "'f \<Rightarrow> bool" and rank :: "'f \<Rightarrow> nat"
  assumes new_good: "good 0 (new_parker P)" "\<not> entered (new_parker P)"
    and new_token: "\<not> has_token P (new_parker P)"
    and renewed_good: "good n f \<Longrightarrow> \<not> entered f \<Longrightarrow> good n (renewed P f)" "\<not> entered (renewed P f)"
    and renewed_token: "\<not> has_token P (renewed P f)"
    and park_good: "good n f \<Longrightarrow> park_op P sp f = Some (r, f') \<Longrightarrow> good n f'"
    and park_entered: "good n f \<Longrightarrow> park_op P sp f = Some (r, f') \<Longrightarrow> entered f' = (\<not> r)"
    and park_token: "good n f \<Longrightarrow> park_op P sp f = Some (False, f') \<Longrightarrow> has_token P f' = has_token P f"
    and park_returns: "good n f \<Longrightarrow> park_op P sp f = Some (True, f') \<Longrightarrow> has_token P f"
    and unpark_good: "good n f \<Longrightarrow> unpark_op P f = (c, f') \<Longrightarrow> good (if c then Suc n else n) f'"
    and unpark_token: "unpark_op P f = (c, f') \<Longrightarrow> has_token P f' \<and> entered f' = entered f"
    and call_good: "good (Suc n) f \<Longrightarrow> good n (call_op P f)"
    and call_token: "has_token P (call_op P f) = has_token P f" "entered (call_op P f) = entered f"
    and awaits_call: "good n f \<Longrightarrow> has_token P f \<Longrightarrow> park_op P False f = None \<Longrightarrow>
      0 < n \<and> rank (call_op P f) < rank f"
    and nears_return: "good n f \<Longrightarrow> has_token P f \<Longrightarrow> park_op P False f = Some (False, f') \<Longrightarrow> rank f' < rank f"

text \<open>A parker whose calls are only made while its owner is inside \<open>park\<close>.\<close>

locale waiting_parker = parker_impl P good entered rank
  for P :: "'f parker_ops" and good entered rank +
  assumes call_waited: "good (Suc n) f \<Longrightarrow> entered f"

end
