(* ===== verification/Parker_Client.thy ===== *)
theory Parker_Client
  imports Parker Raw_Mutex
begin

section \<open>A queue on parkers\<close>

text \<open>
  \<open>Raw_Mutex\<close> and \<open>Parking_Queue\<close> take the parker of a node as a token. Here the nodes of such a
  machine have the parkers of an implementation instead: \<open>park\<close> is its several steps, and \<open>unpark\<close> is
  its access to the state, after which the thread may still have to make a system call. The locale
  \<open>parker_client\<close> says what the machine has to provide, \<open>parker_impl\<close> what the parker does; then the
  machine with parkers refines the one with tokens.
\<close>

subsection \<open>The machine\<close>

text \<open>
  The client of the parkers: its step; which threads are at \<open>park\<close>; whom a thread is about to
  unpark; which threads have their node in memory; and the same nodes with other tokens.
\<close>

record ('e, 's) park_client =
  cstep :: "'e \<Rightarrow> ptr \<Rightarrow> 's \<Rightarrow> 's outcome"
  parks :: "'s \<Rightarrow> ptr \<Rightarrow> bool"
  unparks :: "'s \<Rightarrow> ptr \<Rightarrow> ptr option"
  has_node :: "'s \<Rightarrow> ptr \<Rightarrow> bool"
  with_tokens :: "(ptr \<Rightarrow> bool) \<Rightarrow> 's \<Rightarrow> 's"

text \<open>
  \<open>base\<close> is the client, whose tokens are not used; \<open>parker_at p\<close> the parker at address \<open>p\<close> with the
  place of its owner in \<open>park\<close>; \<open>calling t = Some p\<close> when \<open>t\<close> is between its access to the state and
  the system call for \<open>p\<close>.
\<close>

record ('f, 's) psys =
  base :: 's
  parker_at :: "ptr \<Rightarrow> 'f"
  calling :: "ptr \<Rightarrow> ptr option"

definition pstart :: "'f parker_ops \<Rightarrow> 's \<Rightarrow> ('f, 's) psys" where
  "pstart P s = \<lparr>base = s, parker_at = (\<lambda>_. new_parker P), calling = (\<lambda>_. None)\<rparr>"

definition set_parker :: "ptr \<Rightarrow> 'f \<Rightarrow> ('f, 's) psys \<Rightarrow> ('f, 's) psys" where
  "set_parker p f c = c\<lparr>parker_at := (parker_at c)(p := f)\<rparr>"

text \<open>A new node has a new parker; system calls still under way to its address stay so.\<close>

definition fresh_parker :: "'f parker_ops \<Rightarrow> ptr \<Rightarrow> ('f, 's) psys \<Rightarrow> ('f, 's) psys" where
  "fresh_parker P t c = set_parker t (renewed P (parker_at c t)) c"

definition with_base :: "('f, 's) psys \<Rightarrow> 's outcome \<Rightarrow> ('f, 's) psys outcome" where
  "with_base c r = (case r of Blocked \<Rightarrow> Blocked | Fault \<Rightarrow> Fault | Next s \<Rightarrow> Next (c\<lparr>base := s\<rparr>))"

text \<open>\<open>park\<close> has returned: the client goes on as if it had found its token.\<close>

definition park_returns ::
    "('e, 's) park_client \<Rightarrow> 'e \<Rightarrow> ptr \<Rightarrow> ('f, 's) psys \<Rightarrow> ('f, 's) psys outcome" where
  "park_returns K e t c = with_base c (cstep K e t (with_tokens K (\<lambda>_. True) (base c)))"

definition park_step ::
    "('e, 's) park_client \<Rightarrow> 'f parker_ops \<Rightarrow> bool \<Rightarrow> 'e \<Rightarrow> ptr \<Rightarrow> ('f, 's) psys \<Rightarrow> ('f, 's) psys outcome" where
  "park_step K P sp e t c =
    (case park_op P sp (parker_at c t) of
       None \<Rightarrow> Blocked
     | Some (r, f) \<Rightarrow> if r then park_returns K e t (set_parker t f c) else Next (set_parker t f c))"

definition unpark_step ::
    "('e, 's) park_client \<Rightarrow> 'f parker_ops \<Rightarrow> 'e \<Rightarrow> ptr \<Rightarrow> ptr \<Rightarrow> ('f, 's) psys \<Rightarrow> ('f, 's) psys outcome" where
  "unpark_step K P e t q c =
    (let (was_parked, f) = unpark_op P (parker_at c q) in
     with_base (set_parker q f (c\<lparr>calling := (calling c)(t := if was_parked then Some q else None)\<rparr>))
       (cstep K e t (base c)))"

definition wake_call :: "'f parker_ops \<Rightarrow> ptr \<Rightarrow> ptr \<Rightarrow> ('f, 's) psys \<Rightarrow> ('f, 's) psys" where
  "wake_call P t p c = set_parker p (call_op P (parker_at c p)) (c\<lparr>calling := (calling c)(t := None)\<rparr>)"

definition client_move ::
    "('e, 's) park_client \<Rightarrow> 'f parker_ops \<Rightarrow> 'e \<Rightarrow> ptr \<Rightarrow> ('f, 's) psys \<Rightarrow> ('f, 's) psys outcome" where
  "client_move K P e t c =
    (case cstep K e t (base c) of
       Next s \<Rightarrow> Next ((if has_node K s t \<and> \<not> has_node K (base c) t then fresh_parker P t c else c)\<lparr>base := s\<rparr>)
     | r \<Rightarrow> with_base c r)"

text \<open>One step of a thread; \<open>sp\<close>: the system wakes it for no reason.\<close>

definition pexec ::
    "('e, 's) park_client \<Rightarrow> 'f parker_ops \<Rightarrow> bool \<Rightarrow> 'e \<Rightarrow> ptr \<Rightarrow> ('f, 's) psys \<Rightarrow> ('f, 's) psys outcome" where
  "pexec K P sp e t c =
    (case calling c t of
       Some p \<Rightarrow> Next (wake_call P t p c)
     | None \<Rightarrow>
        if parks K (base c) t then park_step K P sp e t c
        else (case unparks K (base c) t of
            Some q \<Rightarrow> unpark_step K P e t q c
          | None \<Rightarrow> client_move K P e t c))"

lemma psys_simps [simp]:
  "base (set_parker p f c) = base c" "parker_at (set_parker p f c) = (parker_at c)(p := f)"
  "calling (set_parker p f c) = calling c"
  "base (fresh_parker P t c) = base c" "calling (fresh_parker P t c) = calling c"
  "parker_at (fresh_parker P t c) = (parker_at c)(t := renewed P (parker_at c t))"
  "base (wake_call P t p c) = base c" "calling (wake_call P t p c) = (calling c)(t := None)"
  "parker_at (wake_call P t p c) = (parker_at c)(p := call_op P (parker_at c p))"
  "base (pstart P s) = s" "parker_at (pstart P s) p = new_parker P" "calling (pstart P s) p = None"
  by (simp_all add: set_parker_def fresh_parker_def wake_call_def pstart_def)

lemma with_base_simps [simp]:
  "with_base c Blocked = Blocked" "with_base c Fault = Fault" "with_base c (Next s) = Next (c\<lparr>base := s\<rparr>)"
  by (simp_all add: with_base_def)

lemma with_base_Next: "with_base c r = Next c' \<longleftrightarrow> (\<exists>s. r = Next s \<and> c' = c\<lparr>base := s\<rparr>)"
  by (cases r) auto

text \<open>Which step of the client a step contains.\<close>

lemma pexec_base:
  assumes "pexec K P sp e t c = Next c'"
  shows "base c' = base c \<or> cstep K e t (base c) = Next (base c') \<or>
    cstep K e t (with_tokens K (\<lambda>_. True) (base c)) = Next (base c')"
  using assms
  by (auto simp: pexec_def park_step_def park_returns_def unpark_step_def client_move_def with_base_Next Let_def
    split: option.splits if_splits prod.splits outcome.splits)

text \<open>Schedules, and those in which no thread wakes for no reason.\<close>

primrec prun ::
    "('e, 's) park_client \<Rightarrow> 'f parker_ops \<Rightarrow> (bool \<times> 'e \<times> ptr) list \<Rightarrow> ('f, 's) psys \<Rightarrow> ('f, 's) psys outcome" where
  "prun K P [] c = Next c"
| "prun K P (p # ps) c = (case p of (sp, e, t) \<Rightarrow>
    (case pexec K P sp e t c of Next c' \<Rightarrow> prun K P ps c' | r \<Rightarrow> r))"

definition alone_run ::
    "('e, 's) park_client \<Rightarrow> 'f parker_ops \<Rightarrow> 'e \<Rightarrow> ptr list \<Rightarrow> ('f, 's) psys \<Rightarrow> ('f, 's) psys outcome" where
  "alone_run K P e ts = prun K P (map (\<lambda>t. (False, e, t)) ts)"

lemma alone_run_simps [simp]:
  "alone_run K P e [] c = Next c"
  "alone_run K P e (t # ts) c = (case pexec K P False e t c of Next c' \<Rightarrow> alone_run K P e ts c' | r \<Rightarrow> r)"
  by (simp_all add: alone_run_def cong: outcome.case_cong)

lemma alone_run_append:
  "alone_run K P e ts c = Next c1 \<Longrightarrow> alone_run K P e (ts @ us) c = alone_run K P e us c1"
  by (induction ts arbitrary: c) (auto split: outcome.splits)

text \<open>Only its own steps start or make a thread's system call.\<close>

lemma pexec_calling: "pexec K P sp e t c = Next c' \<Longrightarrow> x \<noteq> t \<Longrightarrow> calling c' x = calling c x"
  by (auto simp: pexec_def park_step_def park_returns_def unpark_step_def client_move_def with_base_Next Let_def
    split: option.splits if_splits prod.splits outcome.splits)

lemma alone_run_calling: "alone_run K P e ts c = Next c' \<Longrightarrow> x \<notin> set ts \<Longrightarrow> calling c' x = calling c x"
proof (induction ts arbitrary: c)
  case (Cons t ts)
  then show ?case using pexec_calling by (fastforce split: outcome.splits)
qed simp

subsection \<open>The tokens of the abstract machine\<close>

definition token_sys :: "('e, 's) park_client \<Rightarrow> 'f parker_ops \<Rightarrow> ('f, 's) psys \<Rightarrow> 's" where
  "token_sys K P c = with_tokens K (\<lambda>p. has_token P (parker_at c p)) (base c)"

fun map_outcome :: "('a \<Rightarrow> 'b) \<Rightarrow> 'a outcome \<Rightarrow> 'b outcome" where
  "map_outcome f (Next s) = Next (f s)"
| "map_outcome f Blocked = Blocked"
| "map_outcome f Fault = Fault"

definition callers :: "('f, 's) psys \<Rightarrow> ptr \<Rightarrow> ptr set" where
  "callers c p = {u. calling c u = Some p}"

text \<open>
  Each parker keeps its own invariant, for the calls that threads have still to make to it; only a
  thread at \<open>park\<close> is inside its parker; who has to make a call, does not park.
\<close>

definition parkers_ok ::
    "('e, 's) park_client \<Rightarrow> (nat \<Rightarrow> 'f \<Rightarrow> bool) \<Rightarrow> ('f \<Rightarrow> bool) \<Rightarrow> ('f, 's) psys \<Rightarrow> bool" where
  "parkers_ok K good entered c \<longleftrightarrow> (\<forall>p. finite (callers c p) \<and> good (card (callers c p)) (parker_at c p) \<and>
    (entered (parker_at c p) \<longrightarrow> parks K (base c) p) \<and>
    (calling c p \<noteq> None \<longrightarrow> \<not> parks K (base c) p))"

lemma parkers_okD:
  assumes "parkers_ok K good entered c"
  shows "finite (callers c p)" "good (card (callers c p)) (parker_at c p)"
    "entered (parker_at c p) \<Longrightarrow> parks K (base c) p" "calling c p \<noteq> None \<Longrightarrow> \<not> parks K (base c) p"
  using assms by (simp_all add: parkers_ok_def)

lemma parkers_okI:
  assumes "\<And>p. finite (callers c p) \<and> good (card (callers c p)) (parker_at c p)"
    "\<And>p. entered (parker_at c p) \<Longrightarrow> parks K (base c) p"
    "\<And>p. calling c p \<noteq> None \<Longrightarrow> \<not> parks K (base c) p"
  shows "parkers_ok K good entered c"
  using assms by (simp add: parkers_ok_def)

text \<open>\<open>r\<close>: what a step of \<open>t\<close> led to.\<close>

fun refines_after ::
    "('e, 's) park_client \<Rightarrow> 'f parker_ops \<Rightarrow> (('f, 's) psys \<Rightarrow> bool) \<Rightarrow> 'e \<Rightarrow> ptr \<Rightarrow>
      ('f, 's) psys \<Rightarrow> ('f, 's) psys outcome \<Rightarrow> bool" where
  "refines_after K P ok e t c (Next c') =
    (ok c' \<and> (token_sys K P c' = token_sys K P c \<or> cstep K e t (token_sys K P c) = Next (token_sys K P c')))"
| "refines_after K P ok e t c Blocked = True"
| "refines_after K P ok e t c Fault = (cstep K e t (token_sys K P c) = Fault)"

text \<open>A step that is the step of \<open>t\<close> in the abstract machine, and not one inside its parker.\<close>

definition follows ::
    "('e, 's) park_client \<Rightarrow> 'f parker_ops \<Rightarrow> (('f, 's) psys \<Rightarrow> bool) \<Rightarrow> 'e \<Rightarrow> ptr \<Rightarrow>
      ('f, 's) psys \<Rightarrow> ('f, 's) psys outcome \<Rightarrow> bool" where
  "follows K P ok e t c r \<longleftrightarrow>
    cstep K e t (token_sys K P c) = map_outcome (token_sys K P) r \<and> (\<forall>c'. r = Next c' \<longrightarrow> ok c')"

lemma follows_refines: "follows K P ok e t c r \<Longrightarrow> refines_after K P ok e t c r"
  by (cases r) (simp_all add: follows_def)

subsection \<open>What the client has to provide\<close>

text \<open>
  A thread moves only itself; the tokens matter only to a thread that is at \<open>park\<close>, whose node
  goes when it has returned; \<open>unpark\<close> sets one; a new node has none.
\<close>

locale parker_client =
  fixes K :: "('e, 's) park_client"
  assumes parks_node: "parks K s t \<Longrightarrow> has_node K s t"
    and unparks_awake: "unparks K s t = Some q \<Longrightarrow> \<not> parks K s t"
    and unparks_stays: "unparks K s t = Some q \<Longrightarrow> cstep K e t s = Next s' \<Longrightarrow> \<not> parks K s' t"
    and moves_self: "cstep K e t s = Next s' \<Longrightarrow> p \<noteq> t \<Longrightarrow> parks K s' p = parks K s p"
    and parks_tokens: "parks K (with_tokens K b s) t = parks K s t"
    and park_step_tokens: "parks K s t \<Longrightarrow> b t \<Longrightarrow>
      cstep K e t (with_tokens K b s) =
        map_outcome (with_tokens K b) (cstep K e t (with_tokens K (\<lambda>_. True) s))"
    and park_needs_token: "parks K s t \<Longrightarrow> cstep K e t (with_tokens K b s) = Next s' \<Longrightarrow> b t"
    and park_step_frees: "parks K s t \<Longrightarrow> cstep K e t s = Next s' \<Longrightarrow>
      with_tokens K (b(t := v)) s' = with_tokens K b s'"
    and unpark_tokens: "unparks K s t = Some q \<Longrightarrow>
      cstep K e t (with_tokens K b s) = map_outcome (with_tokens K (b(q := True))) (cstep K e t s)"
    and other_tokens: "\<not> parks K s t \<Longrightarrow> unparks K s t = None \<Longrightarrow>
      cstep K e t (with_tokens K b s) = map_outcome (\<lambda>s'. with_tokens K
        (if has_node K s' t \<and> \<not> has_node K s t then b(t := False) else b) s') (cstep K e t s)"

text \<open>Such a client on such parkers.\<close>

locale queue_on_parkers = parker_client K + parker_impl P good entered rank
  for K :: "('e, 's) park_client" and P :: "'f parker_ops" and good entered rank
begin

lemma start_ok: "\<forall>p. \<not> parks K s p \<Longrightarrow> parkers_ok K good entered (pstart P s)"
  using new_good by (auto intro!: parkers_okI simp: callers_def)

lemma set_ok:
  assumes "parkers_ok K good entered c" "good (card (callers c t)) f" "entered f \<Longrightarrow> parks K s t"
    "calling c t = None" "\<And>p. p \<noteq> t \<Longrightarrow> parks K s p = parks K (base c) p"
  shows "parkers_ok K good entered ((set_parker t f c)\<lparr>base := s\<rparr>)"
proof -
  note ok = parkers_okD [OF assms(1)]
  have callers: "callers ((set_parker t f c)\<lparr>base := s\<rparr>) p = callers c p" for p by (simp add: callers_def)
  have "parks K s p" if "entered (((parker_at c)(t := f)) p)" for p
    using that assms(3,5) ok(3) [of p] by (cases "p = t") auto
  moreover have "\<not> parks K s p" if "calling c p \<noteq> None" for p
    using that assms(4,5) ok(4) by (cases "p = t") auto
  ultimately show ?thesis using assms(2) ok(1,2) by (intro parkers_okI) (auto simp: callers)
qed

text \<open>A step inside \<open>park\<close> leaves the token and so the abstract machine as they are.\<close>

lemma park_internal_ok:
  assumes "parkers_ok K good entered c" "parks K (base c) t" "park_op P sp (parker_at c t) = Some (False, f)"
  shows "parkers_ok K good entered (set_parker t f c)" "token_sys K P (set_parker t f c) = token_sys K P c"
proof -
  note ok = parkers_okD [OF assms(1)]
  have free: "calling c t = None" using ok(4) assms(2) by blast
  have same: "(set_parker t f c)\<lparr>base := base c\<rparr> = set_parker t f c" by (simp add: set_parker_def)
  have "parkers_ok K good entered ((set_parker t f c)\<lparr>base := base c\<rparr>)"
    using assms(2) free park_good [OF ok(2) assms(3)] by (intro set_ok [OF assms(1)]) auto
  then show "parkers_ok K good entered (set_parker t f c)" unfolding same .
  have "(\<lambda>p. has_token P (parker_at (set_parker t f c) p)) = (\<lambda>p. has_token P (parker_at c p))"
    using park_token [OF ok(2) assms(3)] by auto
  then show "token_sys K P (set_parker t f c) = token_sys K P c" by (simp add: token_sys_def)
qed

text \<open>Its last step is the client's step from a node that has its token.\<close>

lemma park_returns_ok:
  assumes "parkers_ok K good entered c" "parks K (base c) t" "park_op P sp (parker_at c t) = Some (True, f)"
  shows "follows K P (parkers_ok K good entered) e t c (park_returns K e t (set_parker t f c))"
proof -
  note ok = parkers_okD [OF assms(1)]
  let ?b = "\<lambda>p. has_token P (parker_at c p)"
  have free: "calling c t = None" using ok(4) assms(2) by blast
  let ?s = "with_tokens K (\<lambda>_. True) (base c)"
  have step: "cstep K e t (token_sys K P c) = map_outcome (with_tokens K ?b) (cstep K e t ?s)"
    unfolding token_sys_def
    by (rule park_step_tokens [OF assms(2)]) (rule park_returns [OF ok(2) assms(3)])
  show ?thesis
  proof (cases "cstep K e t ?s")
    case (Next s)
    have "with_tokens K (?b(t := has_token P f)) s = with_tokens K ?b s"
      by (rule park_step_frees [OF _ Next]) (simp add: parks_tokens assms(2))
    moreover have "(\<lambda>p. has_token P (parker_at (set_parker t f c) p)) = ?b(t := has_token P f)" by auto
    ultimately have "token_sys K P ((set_parker t f c)\<lparr>base := s\<rparr>) = with_tokens K ?b s"
      by (simp add: token_sys_def)
    moreover have "parkers_ok K good entered ((set_parker t f c)\<lparr>base := s\<rparr>)"
      using assms(2) free park_good [OF ok(2) assms(3)] park_entered [OF ok(2) assms(3)] moves_self [OF Next]
      by (intro set_ok [OF assms(1)]) (auto simp: parks_tokens)
    ultimately show ?thesis using step Next by (simp add: park_returns_def follows_def)
  qed (use step in \<open>simp_all add: park_returns_def follows_def\<close>)
qed

lemma park_step_ok:
  assumes "parkers_ok K good entered c" "parks K (base c) t"
  shows "refines_after K P (parkers_ok K good entered) e t c (park_step K P sp e t c)"
  using park_internal_ok [OF assms] follows_refines [OF park_returns_ok [OF assms]]
  by (auto simp: park_step_def split: option.splits)

lemma wake_call_ok:
  assumes "parkers_ok K good entered c" "calling c t = Some p"
  shows "parkers_ok K good entered (wake_call P t p c)" "token_sys K P (wake_call P t p c) = token_sys K P c"
proof -
  note ok = parkers_okD [OF assms(1)]
  let ?c = "wake_call P t p c"
  have callers: "callers ?c q = callers c q - {t}" for q by (auto simp: callers_def)
  have "t \<in> callers c p" using assms(2) by (simp add: callers_def)
  then have p: "card (callers c p) = Suc (card (callers ?c p))"
    unfolding callers by (rule card.remove [OF ok(1)])
  show "parkers_ok K good entered ?c"
  proof (rule parkers_okI)
    fix q
    show "finite (callers ?c q) \<and> good (card (callers ?c q)) (parker_at ?c q)"
    proof (cases "q = p")
      case True
      then show ?thesis using ok(1,2) [of p] p call_good by (simp add: callers)
    next
      case False
      then have "t \<notin> callers c q" using assms(2) by (simp add: callers_def)
      then show ?thesis using ok(1,2) [of q] False by (simp add: callers)
    qed
    show "parks K (base ?c) q" if "entered (parker_at ?c q)"
      using that ok(3) [of q] call_token by (auto split: if_splits)
    show "\<not> parks K (base ?c) q" if "calling ?c q \<noteq> None"
      using that ok(4) [of q] by (auto split: if_splits)
  qed
  have "(\<lambda>q. has_token P (parker_at ?c q)) = (\<lambda>q. has_token P (parker_at c q))"
    using call_token(1) by auto
  then show "token_sys K P ?c = token_sys K P c" by (simp add: token_sys_def)
qed

lemma unpark_step_ok:
  assumes "parkers_ok K good entered c" "calling c t = None" "unparks K (base c) t = Some q"
  shows "follows K P (parkers_ok K good entered) e t c (unpark_step K P e t q c)"
proof -
  note ok = parkers_okD [OF assms(1)]
  obtain r f where op: "unpark_op P (parker_at c q) = (r, f)" by fastforce
  define c1 where "c1 = set_parker q f (c\<lparr>calling := (calling c)(t := if r then Some q else None)\<rparr>)"
  have step: "unpark_step K P e t q c = with_base c1 (cstep K e t (base c))"
    by (simp add: unpark_step_def c1_def op)
  have token: "(\<lambda>p. has_token P (parker_at c1 p)) = (\<lambda>p. has_token P (parker_at c p))(q := True)"
    using unpark_token [OF op] by (auto simp: c1_def)
  have abstract: "cstep K e t (token_sys K P c) =
      map_outcome (with_tokens K (\<lambda>p. has_token P (parker_at c1 p))) (cstep K e t (base c))"
    unfolding token token_sys_def by (rule unpark_tokens [OF assms(3)])
  show ?thesis
  proof (cases "cstep K e t (base c)")
    case (Next s)
    let ?c = "c1\<lparr>base := s\<rparr>"
    have callers: "callers ?c p = (if p = q \<and> r then insert t (callers c p) else callers c p)" for p
      using assms(2) by (auto simp: callers_def c1_def)
    have new: "t \<notin> callers c p" for p using assms(2) by (simp add: callers_def)
    have asleep: "parks K s p = parks K (base c) p" for p
      using moves_self [OF Next, of p] unparks_stays [OF assms(3) Next] unparks_awake [OF assms(3)] by metis
    have "parkers_ok K good entered ?c"
    proof (rule parkers_okI)
      fix p
      show "finite (callers ?c p) \<and> good (card (callers ?c p)) (parker_at ?c p)"
        unfolding callers using ok(1,2) [of p] new [of p] unpark_good [OF ok(2) op] by (auto simp: c1_def)
      show "parks K (base ?c) p" if "entered (parker_at ?c p)"
        using that ok(3) [of p] unpark_token [OF op] by (auto simp: c1_def asleep split: if_splits)
      show "\<not> parks K (base ?c) p" if "calling ?c p \<noteq> None"
        using that ok(4) [of p] unparks_awake [OF assms(3)] by (auto simp: c1_def asleep split: if_splits)
    qed
    then show ?thesis using abstract Next by (simp add: step token_sys_def follows_def)
  qed (use abstract in \<open>simp_all add: step follows_def\<close>)
qed

lemma client_move_ok:
  assumes "parkers_ok K good entered c" "calling c t = None" "\<not> parks K (base c) t" "unparks K (base c) t = None"
  shows "follows K P (parkers_ok K good entered) e t c (client_move K P e t c)"
proof (cases "cstep K e t (base c)")
  case (Next s)
  note ok = parkers_okD [OF assms(1)]
  define new where "new \<longleftrightarrow> has_node K s t \<and> \<not> has_node K (base c) t"
  define c' where "c' = (if new then fresh_parker P t c else c)\<lparr>base := s\<rparr>"
  have step: "client_move K P e t c = Next c'" using Next by (simp add: client_move_def c'_def new_def)
  have outside: "\<not> entered (parker_at c t)" using ok(3) assms(3) by blast
  have at: "parker_at c' p = (if new \<and> p = t then renewed P (parker_at c t) else parker_at c p)" for p
    by (simp add: c'_def)
  have callers: "callers c' p = callers c p" for p by (simp add: callers_def c'_def)
  have calling: "calling c' = calling c" by (simp add: c'_def)
  have base: "base c' = s" by (simp add: c'_def)
  have "parkers_ok K good entered c'"
  proof (rule parkers_okI)
    fix p
    show "finite (callers c' p) \<and> good (card (callers c' p)) (parker_at c' p)"
      using ok(1,2) [of p] renewed_good(1) [OF ok(2) outside] by (auto simp: callers at)
    show "parks K (base c') p" if "entered (parker_at c' p)"
      using that ok(3) [of p] outside renewed_good(2) moves_self [OF Next, of p]
      by (cases "p = t") (auto simp: at base split: if_splits)
    show "\<not> parks K (base c') p" if "calling c' p \<noteq> None"
      using that ok(4) [of p] assms(2) moves_self [OF Next, of p] by (cases "p = t") (auto simp: calling base)
  qed
  moreover have "(\<lambda>p. has_token P (parker_at c' p)) =
      (if new then (\<lambda>p. has_token P (parker_at c p))(t := False) else (\<lambda>p. has_token P (parker_at c p)))"
    using renewed_token by (auto simp: at)
  then have "cstep K e t (token_sys K P c) = Next (token_sys K P c')"
    using other_tokens [OF assms(3,4), of e] Next by (simp add: token_sys_def new_def base)
  ultimately show ?thesis by (simp add: step follows_def)
qed (use other_tokens [OF assms(3,4), of e] in \<open>simp_all add: client_move_def token_sys_def follows_def\<close>)

text \<open>The main step: whatever happens is a step of the thread in the machine with tokens, or none.\<close>

lemma pexec_ok:
  assumes "parkers_ok K good entered c"
  shows "refines_after K P (parkers_ok K good entered) e t c (pexec K P sp e t c)"
  using wake_call_ok [OF assms] park_step_ok [OF assms] follows_refines [OF unpark_step_ok [OF assms]]
    follows_refines [OF client_move_ok [OF assms]]
  by (auto simp: pexec_def split: option.splits)

text \<open>Who is blocked in \<open>park\<close> with its token set has a caller.\<close>

lemma token_caller:
  assumes "parkers_ok K good entered c" "has_token P (parker_at c x)" "park_op P False (parker_at c x) = None"
  obtains t where "calling c t = Some x"
proof -
  have "callers c x \<noteq> {}" using awaits_call [OF parkers_okD(2) [OF assms(1)] assms(2,3)] by auto
  then show ?thesis using that by (auto simp: callers_def)
qed

text \<open>
  Whoever is at \<open>park\<close> with its token set gets out within the steps that \<open>rank\<close> allows, its own and the
  calls that are under way to it, and goes on as the client's step says.
\<close>

lemma unparked_returns:
  assumes "parkers_ok K good entered c" "parks K (base c) t" "has_token P (parker_at c t)"
    "cstep K e t (with_tokens K (\<lambda>_. True) (base c)) = Next s"
  shows "\<exists>ts c'. set ts \<subseteq> insert t (callers c t) \<and> length ts \<le> Suc (rank (parker_at c t)) \<and>
    alone_run K P e ts c = Next c' \<and> base c' = s \<and> calling c' t = None \<and>
    parkers_ok K good entered c' \<and> cstep K e t (token_sys K P c) = Next (token_sys K P c')"
  using assms
proof (induction "rank (parker_at c t)" arbitrary: c rule: less_induct)
  case less
  note ok = parkers_okD [OF less.prems(1)]
  have free: "calling c t = None" using ok(4) less.prems(2) by blast
  have more: ?case
    if d: "pexec K P False e x c = Next d" "x \<in> insert t (callers c t)" "base d = base c"
      "parkers_ok K good entered d" "has_token P (parker_at d t)" "callers d t \<subseteq> callers c t"
      "token_sys K P d = token_sys K P c"
      "rank (parker_at d t) < rank (parker_at c t)" for x d
  proof -
    obtain ts c' where r: "set ts \<subseteq> insert t (callers d t)" "length ts \<le> Suc (rank (parker_at d t))"
      "alone_run K P e ts d = Next c'" "base c' = s" "calling c' t = None"
      "parkers_ok K good entered c'" "cstep K e t (token_sys K P d) = Next (token_sys K P c')"
      using less.hyps [OF d(8,4)] less.prems(2,4) d(3,5) by auto
    then show ?thesis using d(1,2,6-8) by (intro exI [of _ "x # ts"] exI [of _ c']) auto
  qed
  have park: "pexec K P False e t c = park_step K P False e t c"
    using free less.prems(2) by (simp add: pexec_def)
  show ?case
  proof (cases "park_op P False (parker_at c t)")
    case None
    then obtain x where x: "calling c x = Some t" using token_caller [OF less.prems(1,3)] by blast
    let ?d = "wake_call P x t c"
    have "pexec K P False e x c = Next ?d" using x by (simp add: pexec_def)
    moreover have "callers ?d t \<subseteq> callers c t" by (auto simp: callers_def)
    moreover have "has_token P (parker_at ?d t)" using less.prems(3) call_token by simp
    moreover have "rank (parker_at ?d t) < rank (parker_at c t)"
      using awaits_call [OF ok(2) less.prems(3) None] by simp
    moreover have "x \<in> insert t (callers c t)" using x by (simp add: callers_def)
    ultimately show ?thesis using wake_call_ok [OF less.prems(1) x] by (intro more [of x ?d]) auto
  next
    case (Some rf)
    obtain r f where rf: "rf = (r, f)" by fastforce
    show ?thesis
    proof (cases r)
      case True
      then have "pexec K P False e t c = Next ((set_parker t f c)\<lparr>base := s\<rparr>)"
        using Some rf less.prems(4) by (simp add: park park_step_def park_returns_def)
      moreover have "follows K P (parkers_ok K good entered) e t c (Next ((set_parker t f c)\<lparr>base := s\<rparr>))"
        using park_returns_ok [OF less.prems(1,2), of False f e] Some rf True less.prems(4)
        by (simp add: park_returns_def)
      ultimately show ?thesis using free by (intro exI [of _ "[t]"]) (auto simp: follows_def)
    next
      case False
      then have op: "park_op P False (parker_at c t) = Some (False, f)" using Some rf by simp
      then have "pexec K P False e t c = Next (set_parker t f c)" by (simp add: park park_step_def)
      moreover have "callers (set_parker t f c) t \<subseteq> callers c t" by (simp add: callers_def)
      ultimately show ?thesis
        using park_internal_ok [OF less.prems(1,2) op] nears_return [OF ok(2) less.prems(3) op]
          park_token [OF ok(2) op] less.prems(3) by (intro more [of t "set_parker t f c"]) auto
    qed
  qed
qed

text \<open>
  The other direction of the refinement: what a thread can do in the abstract machine, it can do in this
  one, after its own system call and the steps of its parker.
\<close>

lemma step_matched:
  assumes "parkers_ok K good entered c" "cstep K e t (token_sys K P c) = Next s'"
  shows "\<exists>ts c'. set ts \<subseteq> insert t {u. calling c u \<noteq> None} \<and> alone_run K P e ts c = Next c' \<and>
    parkers_ok K good entered c' \<and> token_sys K P c' = s'"
proof -
  have free: "\<exists>ts c'. set ts \<subseteq> insert t {u. calling d u \<noteq> None} \<and> alone_run K P e ts d = Next c' \<and>
      parkers_ok K good entered c' \<and> token_sys K P c' = s'"
    if d: "parkers_ok K good entered d" "token_sys K P d = token_sys K P c" "calling d t = None" for d
  proof (cases "parks K (base d) t")
    case True
    have step: "cstep K e t (with_tokens K (\<lambda>p. has_token P (parker_at d p)) (base d)) = Next s'"
      using assms(2) d(2) by (simp add: token_sys_def)
    then have token: "has_token P (parker_at d t)" by (rule park_needs_token [OF True])
    obtain s where "cstep K e t (with_tokens K (\<lambda>_. True) (base d)) = Next s"
      using step park_step_tokens [where b = "\<lambda>p. has_token P (parker_at d p)", OF True token, of e]
      by (cases "cstep K e t (with_tokens K (\<lambda>_. True) (base d))") auto
    from unparked_returns [OF d(1) True token this] obtain ts c' where
      "set ts \<subseteq> insert t (callers d t)" "alone_run K P e ts d = Next c'" "parkers_ok K good entered c'"
      "token_sys K P c' = s'" using assms(2) d(2) by auto
    moreover have "insert t (callers d t) \<subseteq> insert t {u. calling d u \<noteq> None}" by (auto simp: callers_def)
    ultimately show ?thesis by blast
  next
    case False
    define r where "r = pexec K P False e t d"
    have "follows K P (parkers_ok K good entered) e t d r"
      using unpark_step_ok [OF d(1,3), of _ e] client_move_ok [OF d(1,3) False, of e] d(3) False
      by (auto simp: r_def pexec_def split: option.splits)
    then obtain c' where "r = Next c'" "parkers_ok K good entered c'" "token_sys K P c' = s'"
      using assms(2) d(2) by (cases r) (auto simp: follows_def)
    then show ?thesis by (intro exI [of _ "[t]"] exI [of _ c']) (simp add: r_def)
  qed
  show ?thesis
  proof (cases "calling c t")
    case (Some p)
    let ?d = "wake_call P t p c"
    have "pexec K P False e t c = Next ?d" using Some by (simp add: pexec_def)
    then have run: "alone_run K P e (t # ts) c = alone_run K P e ts ?d" for ts by simp
    obtain ts c' where "set ts \<subseteq> insert t {u. calling ?d u \<noteq> None}" "alone_run K P e ts ?d = Next c'"
      "parkers_ok K good entered c'" "token_sys K P c' = s'"
      using free [of ?d] wake_call_ok [OF assms(1) Some] by auto
    then show ?thesis using run [of ts] by (intro exI [of _ "t # ts"] exI [of _ c']) auto
  qed (use free [of c] assms(1) in simp)
qed

text \<open>A parked thread that is not blocked in its parker has a step, if the client has one after \<open>park\<close>.\<close>

lemma awake_in_park_steps:
  assumes "parkers_ok K good entered c" "parks K (base c) t" "park_op P False (parker_at c t) \<noteq> None"
    "cstep K e t (with_tokens K (\<lambda>_. True) (base c)) \<noteq> Blocked"
  shows "pexec K P False e t c \<noteq> Blocked"
proof -
  have "calling c t = None" using parkers_okD(4) [OF assms(1)] assms(2) by blast
  moreover have "park_returns K e t d \<noteq> Blocked" if "base d = base c" for d :: "('f, 's) psys"
    using assms(4) that
    by (cases "cstep K e t (with_tokens K (\<lambda>_. True) (base c))") (simp_all add: park_returns_def)
  ultimately show ?thesis
    using assms(2,3) by (auto simp: pexec_def park_step_def split: prod.splits if_splits)
qed

end

text \<open>On parkers whose calls are waited for, a call finds the node of its thread still in memory.\<close>

locale queue_on_waiting_parkers = queue_on_parkers K P good entered rank + waiting_parker P good entered rank
  for K :: "('e, 's) park_client" and P :: "'f parker_ops" and good entered rank
begin

lemma call_finds_node:
  assumes "parkers_ok K good entered c" "calling c t = Some p"
  shows "parks K (base c) p \<and> has_node K (base c) p"
proof -
  note ok = parkers_okD [OF assms(1)]
  have "t \<in> callers c p" using assms(2) by (simp add: callers_def)
  then obtain n where "card (callers c p) = Suc n" using ok(1) by (metis card_gt_0_iff empty_iff gr0_implies_Suc)
  then have "entered (parker_at c p)" using ok(2) [of p] call_waited by simp
  then show ?thesis using ok(3) parks_node by blast
qed

end

end
