(* ===== verification/Mutex_Parkers.thy ===== *)
theory Mutex_Parkers
  imports Mutex Raw_Mutex_Obtain Parker_Client
begin

section \<open>RawMutex on parkers\<close>

text \<open>
  \<open>Raw_Mutex\<close> as a client of \<open>Parker_Client\<close>: its steps, with the nodes' parker flags as the tokens. On
  every implementation of \<open>parker_impl\<close> the machine refines the one with tokens, so that everything
  proved there holds for it; absence of deadlock, the return from \<open>park\<close> and the guards' exclusion are
  proved for its own steps, with the system calls of \<open>unpark\<close>. The implementations follow in
  \<open>Mutex_Futex\<close> and \<open>Mutex_Semaphore\<close>.
\<close>

subsection \<open>The mutex as a client\<close>

text \<open>\<open>flags b s\<close>: the nodes of \<open>s\<close> with the parker flags \<open>b\<close>.\<close>

definition flags :: "(ptr \<Rightarrow> bool) \<Rightarrow> sys \<Rightarrow> sys" where
  "flags b s = s\<lparr>heap := (\<lambda>p. map_option (\<lambda>d. d\<lparr>parker := b p\<rparr>) (heap s p))\<rparr>"

fun wake_of :: "pc \<Rightarrow> ptr option" where
  "wake_of (Wake m q) = Some q"
| "wake_of _ = None"

definition mutex_client :: "(env, sys) park_client" where
  "mutex_client = \<lparr>cstep = exec, parks = (\<lambda>s t. parked (pc s t)), unparks = (\<lambda>s t. wake_of (pc s t)),
    has_node = (\<lambda>s t. parked (pc s t)), with_tokens = flags\<rparr>"

lemma mutex_client_simps [simp]:
  "cstep mutex_client = exec" "parks mutex_client s t = parked (pc s t)"
  "unparks mutex_client s t = wake_of (pc s t)" "has_node mutex_client s t = parked (pc s t)"
  "with_tokens mutex_client = flags"
  by (simp_all add: mutex_client_def)

text \<open>A step of a thread; the system's spurious wake-up goes with the environment's choice.\<close>

definition mexec :: "'f parker_ops \<Rightarrow> env \<Rightarrow> ptr \<Rightarrow> ('f, sys) psys \<Rightarrow> ('f, sys) psys outcome" where
  "mexec P e = pexec mutex_client P (spurious e) e"

definition minit :: "'f parker_ops \<Rightarrow> instant \<Rightarrow> u32 \<Rightarrow> ('f, sys) psys" where
  "minit P t r = pstart P (init_sys t r)"

inductive mreach :: "'f parker_ops \<Rightarrow> ('f, sys) psys \<Rightarrow> bool" for P where
  mreach_init: "mreach P (minit P t r)"
| mreach_step: "mreach P c \<Longrightarrow> valid_ptr t \<Longrightarrow> mexec P e t c = Next c' \<Longrightarrow> mreach P c'"

subsection \<open>Steps and tokens\<close>

lemma flags_simps [simp]:
  "state (flags b s) = state s" "pc (flags b s) = pc s" "fair (flags b s) = fair s"
  "heap (flags b s) p = map_option (\<lambda>d. d\<lparr>parker := b p\<rparr>) (heap s p)"
  "goto t k (flags b s) = flags b (goto t k s)" "store v (flags b s) = flags b (store v s)"
  "(flags b s)\<lparr>fair := f\<rparr> = flags b (s\<lparr>fair := f\<rparr>)"
  "free_node t (flags b s) = flags b (free_node t s)"
  by (simp_all add: flags_def goto_def store_def free_node_def fun_eq_iff)

lemma flags_flags [simp]: "flags b (flags b' s) = flags b s"
  by (simp add: flags_def option.map_comp comp_def)

lemma write_flags:
  "d' = d\<lparr>parker := b p\<rparr> \<Longrightarrow> write_node p d' (flags b s) = flags b (write_node p d s)"
  by (simp add: flags_def write_node_def fun_eq_iff)

lemma write_flags_fields:
  "write_node p (d\<lparr>parker := b p, queue_tail := q\<rparr>) (flags b s) = flags b (write_node p (d\<lparr>queue_tail := q\<rparr>) s)"
  "write_node p (d\<lparr>parker := b p, prev := q\<rparr>) (flags b s) = flags b (write_node p (d\<lparr>prev := q\<rparr>) s)"
  by (rule write_flags, simp)+

lemma deref_flags:
  "deref (flags b s) p k = deref s p (\<lambda>d. k (d\<lparr>parker := b p\<rparr>))"
  by (simp add: deref_def split: option.splits)

lemma deref_map: "map_outcome f (deref s p k) = deref s p (\<lambda>d. map_outcome f (k d))"
  by (simp add: deref_def split: option.splits)

lemma cas_ok_flags [simp]: "cas_ok e (flags b s) v = cas_ok e s v"
  by (simp add: cas_ok_def)

lemma is_timeout_flags [simp]: "is_timeout n (fair (flags b s)) = is_timeout n (fair s)"
  by simp

text \<open>A step that neither parks nor unparks does the same whatever the flags; a push clears one.\<close>

lemma set_tail_flags:
  assumes "\<And>s. k (flags b s) = map_outcome (flags b) (k s)"
  shows "set_tail p q k (flags b s) = map_outcome (flags b) (set_tail p q k s)"
  by (simp add: set_tail_def deref_flags deref_map assms write_flags_fields)

lemma take_tail_flags:
  "take_tail t m st qt (flags b s) = map_outcome (flags b) (take_tail t m st qt s)"
  by (auto simp: take_tail_def deref_flags deref_def set_tail_flags split: option.splits)

lemma link_flags:
  "link_prev_nodes t m st cur (flags b s) = map_outcome (flags b) (link_prev_nodes t m st cur s)"
  by (auto simp: link_prev_nodes_def deref_def write_flags_fields split: option.splits)

lemma push_flags:
  "write_node t (park_node t st) (flags b s) = flags (b(t := False)) (write_node t (park_node t st) s)"
  by (simp add: flags_def write_node_def fun_eq_iff park_node_def Let_def thread_data_new_def)

lemmas op_defs = exec_def on_idle_def on_critical_def lock_def try_lock_def unlock_def after_unlock_def
  lock_slow_load_def unlock_fair_def unlock_fair_or_def unlock_fair_and_def Let_def
  unlock_slow_check_def unlock_slow_loop_def unlock_slow_fair_loop_def unlock_slow_fair_clear_def
  unlock_slow_scanned_def unlock_slow_fair_scanned_def unlock_slow_release_def pop_retry_def
  unlock_slow_pop_last_def unlock_slow_fair_pop_last_def unlock_slow_pop_clear_def
  unlock_slow_fair_pop_clear_def

lemmas op_splits = mode.splits call.splits prod.splits option.splits if_splits

lemma exec_flags_other:
  assumes "\<not> parked (pc s t)" "\<forall>m p. pc s t \<noteq> Wake m p" "\<forall>w st. pc s t \<noteq> Slow_loop w st"
  shows "exec e t (flags b s) = map_outcome (flags b) (exec e t s)"
  using assms
  by (cases "pc s t")
     (auto simp: op_defs link_flags set_tail_flags take_tail_flags
       split: mode.splits call.splits prod.splits option.splits)

text \<open>A step parks its thread only where it pushes a node.\<close>

lemma exec_parks:
  assumes "exec e t s = Next s'" "\<not> parked (pc s t)" "\<forall>w st. pc s t \<noteq> Slow_loop w st"
  shows "\<not> parked (pc s' t)"
  using assms
  by (cases "pc s t")
     (auto simp: op_defs link_prev_nodes_def set_tail_def take_tail_def deref_def scan_from_def
        unlock_slow_wake_def unlock_slow_fair_wake_def
        split: op_splits)

lemma exec_flags:
  assumes "\<not> parked (pc s t)" "wake_of (pc s t) = None"
  shows "exec e t (flags b s) =
    map_outcome (\<lambda>s'. flags (if parked (pc s' t) then b(t := False) else b) s') (exec e t s)"
proof (cases "\<exists>w st. pc s t = Slow_loop w st")
  case True
  then show ?thesis
    by (auto simp: exec_def lock_slow_loop_def push_flags park_push_def)
next
  case False
  then have "exec e t (flags b s) = map_outcome (flags b) (exec e t s)"
    using exec_flags_other assms by fastforce
  also have "\<dots> = map_outcome (\<lambda>s'. flags (if parked (pc s' t) then b(t := False) else b) s') (exec e t s)"
    using exec_parks [of e t s] assms(1) False by (cases "exec e t s") auto
  finally show ?thesis .
qed

lemma park_flags:
  assumes "parked (pc s t)" "b t"
  shows "exec e t (flags b s) = map_outcome (flags b) (exec e t (flags (\<lambda>_. True) s))"
  using assms by (cases "pc s t") (auto simp: exec_def park_return_def deref_def split: option.splits)

lemma park_frees:
  assumes "parked (pc s t)" "exec e t s = Next s'"
  shows "flags (b(t := v)) s' = flags b s'"
proof -
  have "heap s' t = None"
    using assms by (cases "pc s t") (auto simp: exec_def park_return_def deref_def split: option.splits if_splits)
  then show ?thesis unfolding flags_def by (intro arg_cong [where f = "\<lambda>h. heap_update (\<lambda>_. h) s'"]) auto
qed

lemma wake_flags:
  assumes "wake_of (pc s t) = Some q"
  shows "exec e t (flags b s) = map_outcome (flags (b(q := True))) (exec e t s)"
    "exec e t s = Next s' \<Longrightarrow> pc s' t = Idle"
proof -
  obtain m where m: "pc s t = Wake m q" using assms by (cases "pc s t") auto
  have "write_node q d (flags b s) = flags (b(q := True)) (write_node q d s)" if "thread_data.parker d" for d
    using that by (auto simp: flags_def write_node_def fun_eq_iff)
  then show "exec e t (flags b s) = map_outcome (flags (b(q := True))) (exec e t s)"
    using m by (cases m; auto simp: exec_def unlock_slow_wake_def unlock_slow_fair_wake_def deref_def
      split: option.splits)
  show "exec e t s = Next s' \<Longrightarrow> pc s' t = Idle"
    using m by (cases m; auto simp: exec_def unlock_slow_wake_def unlock_slow_fair_wake_def deref_def
      split: option.splits)
qed

interpretation mutex_tokens: parker_client mutex_client
proof (unfold_locales, unfold mutex_client_simps)
  show "\<not> parked (pc s t)" if "wake_of (pc s t) = Some q" for s t q
    using that by (cases "pc s t") auto
  show "\<not> parked (pc s' t)" if "wake_of (pc s t) = Some q" "exec e t s = Next s'" for s t q e s'
    using wake_flags(2) [OF that] by simp
  show "parked (pc s' p) = parked (pc s p)" if "exec e t s = Next s'" "p \<noteq> t" for e t s s' p
    using exec_other [OF that] by simp
  show "exec e t (flags b s) = map_outcome (flags (b(q := True))) (exec e t s)"
    if "wake_of (pc s t) = Some q" for e t b s q
    using wake_flags(1) [OF that] .
  show "b t" if "parked (pc s t)" "exec e t (flags b s) = Next s'" for e b t s s'
    using that by (cases "pc s t") (auto simp: exec_def park_return_def deref_def split: option.splits if_splits)
  show "flags (b(t := v)) s' = flags b s'" if "parked (pc s t)" "exec e t s = Next s'" for b t v s s' e
    using park_frees [OF that] .
  show "exec e t (flags b s) = map_outcome (flags b) (exec e t (flags (\<lambda>_. True) s))"
    if "parked (pc s t)" "b t" for e t b s
    using park_flags [where b = b, OF that] .
  show "exec e t (flags b s) = map_outcome (\<lambda>s'. flags
      (if parked (pc s' t) \<and> \<not> parked (pc s t) then b(t := False) else b) s') (exec e t s)"
    if "\<not> parked (pc s t)" "wake_of (pc s t) = None" for e t b s
    using exec_flags [OF that, of e b] that(1) by simp
qed simp_all

subsection \<open>Runs\<close>

abbreviation abs_sys :: "'f parker_ops \<Rightarrow> ('f, sys) psys \<Rightarrow> sys" where
  "abs_sys P \<equiv> token_sys mutex_client P"

lemma abs_sys_simps [simp]:
  "pc (abs_sys P c) = pc (base c)" "state (abs_sys P c) = state (base c)" "fair (abs_sys P c) = fair (base c)"
  "heap (abs_sys P c) p = map_option (\<lambda>d. d\<lparr>parker := has_token P (parker_at c p)\<rparr>) (heap (base c) p)"
  by (simp_all add: token_sys_def)

lemma holds_abs_sys: "holds (abs_sys P c) t = holds (base c) t"
  by (auto simp: holds_def)

lemma mexec_other: "mexec P e u c = Next c' \<Longrightarrow> t \<noteq> u \<Longrightarrow> pc (base c') t = pc (base c) t"
  using pexec_base [of mutex_client P "spurious e" e u c c'] exec_other [of e u _ "base c'" t]
  by (fastforce simp: mexec_def)

primrec mrun :: "'f parker_ops \<Rightarrow> (env \<times> ptr) list \<Rightarrow> ('f, sys) psys \<Rightarrow> ('f, sys) psys outcome" where
  "mrun P [] c = Next c"
| "mrun P (p # ps) c = (case mexec P (fst p) (snd p) c of Next c' \<Rightarrow> mrun P ps c' | r \<Rightarrow> r)"

lemma mreach_run:
  "mreach P c \<Longrightarrow> \<forall>p \<in> set ps. valid_ptr (snd p) \<Longrightarrow> mrun P ps c = Next c' \<Longrightarrow> mreach P c'"
  by (induction ps arbitrary: c) (auto split: outcome.splits intro: mreach_step)

text \<open>8 takes the free lock.\<close>

lemma mexec_held: "mexec P (calm Call_lock) 8 (minit P 0 1) = Next ((minit P 0 1)\<lparr>base := held_sys\<rparr>)"
  using exec_held by (simp add: mexec_def minit_def pstart_def pexec_def client_move_def calm_def)

lemma mreach_held: "mreach P ((minit P 0 1)\<lparr>base := held_sys\<rparr>)"
  by (rule mreach_step [OF mreach_init _ mexec_held]) simp

text \<open>A thread that has a step of its own: not idle and not blocked in its parker.\<close>

definition runnable :: "'f parker_ops \<Rightarrow> ('f, sys) psys \<Rightarrow> ptr \<Rightarrow> bool" where
  "runnable P c t \<longleftrightarrow> calling c t \<noteq> None \<or> active_pc (pc (base c) t) \<or>
    parked (pc (base c) t) \<and> park_op P False (parker_at c t) \<noteq> None"

text \<open>Where \<open>park\<close> returns to: the critical section after a hand-over, else the loop of \<open>lock_slow\<close>.\<close>

definition out_of_park :: "('f, sys) psys \<Rightarrow> ptr \<Rightarrow> ('f, sys) psys \<Rightarrow> bool" where
  "out_of_park c t c' \<longleftrightarrow> heap (base c') t = None \<and>
    (if holds (base c) t then pc (base c') t = Critical
     else \<exists>w. pc (base c') t = Slow_load (spin_wait_reset w))"

text \<open>After \<open>park\<close> the thread goes on: into the critical section or back into \<open>lock_slow\<close>.\<close>

lemma after_park:
  assumes "parked (pc s t)" "heap s t = Some d"
  shows "\<exists>s'. exec e t (flags (\<lambda>_. True) s) = Next s' \<and> heap s' t = None \<and>
    (if unpark_token d = TOKEN_HANDOFF then pc s' t = Critical else \<exists>w. pc s' t = Slow_load (spin_wait_reset w))"
  using assms by (cases "pc s t") (auto simp: exec_def park_return_def deref_def)

text \<open>The guards of \<open>Mutex\<close> on this machine.\<close>

definition mstep :: "'f parker_ops \<Rightarrow> ptr \<Rightarrow> ('f, sys) psys \<Rightarrow> ('f, sys) psys \<Rightarrow> bool" where
  "mstep P t c c' \<longleftrightarrow> valid_ptr t \<and> (\<exists>e. mexec P e t c = Next c')"

definition mguarded :: "('f, sys) psys \<Rightarrow> ptr \<Rightarrow> bool" where
  "mguarded c t \<longleftrightarrow> guarded (base c) t"

subsection \<open>What holds on every parker\<close>

locale mutex_on_parkers = queue_on_parkers mutex_client P good entered rank
  for P :: "'f parker_ops" and good entered rank
begin

lemma mexec_ok:
  "parkers_ok mutex_client good entered c \<Longrightarrow>
    refines_after mutex_client P (parkers_ok mutex_client good entered) e t c (mexec P e t c)"
  unfolding mexec_def by (rule pexec_ok)

lemma mreach_ok: "mreach P c \<Longrightarrow> parkers_ok mutex_client good entered c"
proof (induction rule: mreach.induct)
  case (mreach_step c t e c')
  then show ?case using mexec_ok [of c e t] by simp
qed (simp add: minit_def start_ok)

lemma abs_sys_init: "abs_sys P (minit P t r) = init_sys t r"
  by (simp add: token_sys_def minit_def flags_def)

lemma mreach_reach: "mreach P c \<Longrightarrow> reach (abs_sys P c)"
proof (induction rule: mreach.induct)
  case (mreach_step c t e c')
  then show ?case using mexec_ok [OF mreach_ok, of c e t] by (auto intro: reach_step)
qed (simp add: abs_sys_init reach_init)

lemma mutex_refines:
  assumes "mreach P c" "valid_ptr t"
  shows "mexec P e t c \<noteq> Fault \<and> reach (abs_sys P c) \<and>
    (mexec P e t c = Next c' \<longrightarrow>
      abs_sys P c' = abs_sys P c \<or> exec e t (abs_sys P c) = Next (abs_sys P c')) \<and>
    (holds (base c) t \<and> holds (base c) u \<longrightarrow> t = u)"
proof -
  have r: "reach (abs_sys P c)" by (rule mreach_reach [OF assms(1)])
  have step: "refines_after mutex_client P (parkers_ok mutex_client good entered) e t c (mexec P e t c)"
    by (rule mexec_ok [OF mreach_ok [OF assms(1)]])
  obtain a where "simulates (abs_sys P c) a" using reach_simulates [OF r] by blast
  then have "holds (base c) t \<and> holds (base c) u \<longrightarrow> t = u"
    using holder_iff simulatesD(1) unfolding holds_abs_sys [of P, symmetric] by (metis option.inject)
  moreover have "mexec P e t c \<noteq> Fault" using step no_dangling [OF r assms(2), of e] by auto
  ultimately show ?thesis using r step by auto
qed

lemma mreach_nodes: "mreach P c \<Longrightarrow> inv_nodes (abs_sys P c)"
  using reach_simulates [OF mreach_reach] simulatesD(1) invD(4) by blast

lemma token_node:
  assumes "mreach P c" "parked (pc (base c) t)"
  obtains d where "heap (base c) t = Some d"
    "\<not> has_token P (parker_at c t) \<Longrightarrow> asleep (abs_sys P c) t"
proof -
  have n: "inv_nodes (abs_sys P c)" by (rule mreach_nodes [OF assms(1)])
  then obtain d where d: "heap (base c) t = Some d"
    using assms(2) unfolding inv_nodes_def by (metis not_None_eq option.map_disc_iff abs_sys_simps(1,4))
  moreover have "asleep (abs_sys P c) t" if "\<not> has_token P (parker_at c t)"
  proof -
    have node: "heap (abs_sys P c) t = Some (d\<lparr>parker := False\<rparr>)" using d that by simp
    then have "unpark_token (d\<lparr>parker := False\<rparr>) = 0" using n unfolding inv_nodes_def by fastforce
    then show ?thesis using node by (simp add: asleep_def del: abs_sys_simps)
  qed
  ultimately show ?thesis using that by blast
qed

lemma runnable_steps:
  assumes "mreach P c" "runnable P c t"
  shows "\<exists>c'. mexec P (calm Call_unlock) t c = Next c'"
proof (cases "calling c t")
  case (Some p)
  then show ?thesis by (simp add: mexec_def pexec_def)
next
  case None
  have idle: "pc (base c) t \<noteq> Idle" using assms(2) None by (auto simp: runnable_def)
  then have "valid_ptr t" using mreach_nodes [OF assms(1)] by (simp add: inv_nodes_def)
  then have "mexec P (calm Call_unlock) t c \<noteq> Fault" using mutex_refines [OF assms(1)] by blast
  moreover have "mexec P (calm Call_unlock) t c \<noteq> Blocked"
  proof (cases "parked (pc (base c) t)")
    case True
    then obtain d where "heap (base c) t = Some d" using token_node [OF assms(1)] by blast
    then have "exec (calm Call_unlock) t (flags (\<lambda>_. True) (base c)) \<noteq> Blocked"
      using after_park [OF True, of d "calm Call_unlock"] by auto
    moreover have "park_op P False (parker_at c t) \<noteq> None"
      using assms(2) None True by (cases "pc (base c) t") (auto simp: runnable_def)
    ultimately show ?thesis
      using awake_in_park_steps [OF mreach_ok [OF assms(1)], of t] True
      by (simp add: mexec_def calm_def)
  next
    case False
    then have "exec (calm Call_unlock) t (base c) \<noteq> Blocked" using can_step idle by blast
    then show ?thesis using None False
      by (cases "exec (calm Call_unlock) t (base c)")
         (auto simp: mexec_def pexec_def unpark_step_def client_move_def Let_def split: option.splits prod.splits)
  qed
  ultimately show ?thesis by (cases "mexec P (calm Call_unlock) t c") auto
qed

lemma active_runnable:
  assumes "mreach P c" "active (abs_sys P c) t"
  shows "\<exists>t. runnable P c t"
proof (cases "active_pc (pc (base c) t)")
  case True
  then show ?thesis by (auto simp: runnable_def)
next
  case False
  then have token: "has_token P (parker_at c t)" "heap (base c) t \<noteq> None"
    using assms(2) by (auto simp: active_def)
  then have "parked (pc (base c) t)" using mreach_nodes [OF assms(1)] by (auto simp: inv_nodes_def)
  then show ?thesis
    using token_caller [OF mreach_ok [OF assms(1)] token(1)] unfolding runnable_def
    by (metis option.distinct(1))
qed

lemma mutex_live:
  assumes "mreach P c" "pc (base c) x \<noteq> Idle"
  shows "\<exists>t c'. runnable P c t \<and> mexec P (calm Call_unlock) t c = Next c'"
proof -
  have "\<exists>t. runnable P c t"
  proof (cases "parked (pc (base c) x) \<and> \<not> has_token P (parker_at c x)")
    case True
    then obtain t where "active (abs_sys P c) t"
      using token_node [OF assms(1)] lost_wakeup [OF mreach_reach [OF assms(1)]] by metis
    then show ?thesis by (rule active_runnable [OF assms(1)])
  next
    case False
    have "active (abs_sys P c) x"
    proof (cases "parked (pc (base c) x)")
      case True
      then obtain d where "heap (base c) x = Some d" using token_node [OF assms(1)] by blast
      then show ?thesis using True False by (simp add: active_def)
    next
      case False
      then show ?thesis using assms(2) by (cases "pc (base c) x") (auto simp: active_def)
    qed
    then show ?thesis by (rule active_runnable [OF assms(1)])
  qed
  then show ?thesis using runnable_steps [OF assms(1)] by blast
qed

lemma mutex_unparked_returns:
  assumes "mreach P c" "parked (pc (base c) t)" "has_token P (parker_at c t)"
  shows "\<exists>ts c'. set ts \<subseteq> insert t (callers c t) \<and> length ts \<le> Suc (rank (parker_at c t)) \<and>
    alone_run mutex_client P (calm Call_unlock) ts c = Next c' \<and> out_of_park c t c'"
proof -
  obtain d where d: "heap (base c) t = Some d" using token_node [OF assms(1,2)] by blast
  obtain s where s: "exec (calm Call_unlock) t (flags (\<lambda>_. True) (base c)) = Next s" "heap s t = None"
    "if unpark_token d = TOKEN_HANDOFF then pc s t = Critical else \<exists>w. pc s t = Slow_load (spin_wait_reset w)"
    using after_park [OF assms(2) d] by blast
  have "holds (base c) t \<longleftrightarrow> unpark_token d = TOKEN_HANDOFF"
    using assms(2) d by (cases "pc (base c) t") (auto simp: holds_def)
  then have "out_of_park c t c'" if "base c' = s" for c' using s(2,3) that by (simp add: out_of_park_def)
  then show ?thesis
    using unparked_returns [OF mreach_ok [OF assms(1)], of t "calm Call_unlock" s] assms(2,3) s(1)
    by (metis mutex_client_simps(1,2,5))
qed

text \<open>What the mutex can do on tokens, it can do here: a waiting thread can always be served.\<close>

lemma serve_matched:
  "parkers_ok mutex_client good entered c \<Longrightarrow> serve_run ts (abs_sys P c) = Next s' \<Longrightarrow>
    \<exists>us c'. alone_run mutex_client P (calm Call_unlock) us c = Next c' \<and> abs_sys P c' = s'"
proof (induction ts arbitrary: c)
  case Nil
  then show ?case by (intro exI [of _ "[]"] exI [of _ c]) (simp add: serve_run_def)
next
  case (Cons t ts)
  then obtain s1 where s1: "exec (calm Call_unlock) t (abs_sys P c) = Next s1" "serve_run ts s1 = Next s'"
    by (auto simp: serve_run_def split: outcome.splits)
  then obtain us c1 where c1: "alone_run mutex_client P (calm Call_unlock) us c = Next c1"
    "parkers_ok mutex_client good entered c1" "abs_sys P c1 = s1"
    using step_matched [OF Cons.prems(1), of "calm Call_unlock" t s1] by auto
  then show ?case using Cons.IH [OF c1(2)] s1(2) alone_run_append [OF c1(1)] by metis
qed

lemma mutex_obtainable:
  assumes "mreach P c" "inside_lock (pc (base c) t)"
  shows "\<exists>ts c'. alone_run mutex_client P (calm Call_unlock) ts c = Next c' \<and> pc (base c') t = Critical"
proof -
  obtain ts s' where "serve_run ts (abs_sys P c) = Next s'" "pc s' t = Critical"
    using lock_served [OF mreach_reach [OF assms(1)], of t] assms(2) by auto
  then show ?thesis using serve_matched [OF mreach_ok [OF assms(1)]] by (metis abs_sys_simps(1))
qed

sublocale mutex_lock: exclusive_lock "mreach P" "mstep P" mguarded
proof
  show "t = u" if "mreach P c" "mguarded c t" "mguarded c u" for c t u
    using that one_holder [OF mreach_reach, of c t u]
    by (simp add: mguarded_def guarded_def holds_def)
  show "mreach P c'" if "mreach P c" "mstep P t c c'" for c t c'
    using that mreach_step by (auto simp: mstep_def)
  show "mguarded c' t" if "mreach P c" "mguarded c t" "u \<noteq> t" "mstep P u c c'" for c t u c'
    using that mexec_other [of P _ u c c' t] by (auto simp: mstep_def mguarded_def guarded_def)
qed

end

text \<open>And on parkers whose calls are waited for.\<close>

locale mutex_on_waiting_parkers = mutex_on_parkers P good entered rank + waiting_parker P good entered rank
  for P :: "'f parker_ops" and good entered rank
begin

sublocale queue_on_waiting_parkers mutex_client P good entered rank
  by unfold_locales

lemma mutex_call_finds_node:
  assumes "mreach P c" "calling c t = Some p"
  shows "parked (pc (base c) p) \<and> (\<exists>d. heap (base c) p = Some d)"
  using call_finds_node [OF mreach_ok [OF assms(1)] assms(2)] token_node [OF assms(1)]
  by auto

end

end
