(* ===== verification/Futex.thy ===== *)
theory Futex
  imports Parker
begin

section \<open>The futex parker (mekong9-parker/src/futex.rs)\<close>

text \<open>
  One parker, its owner inside \<open>park\<close> or \<open>park_until\<close>, and any number of threads in \<open>unpark\<close>.
  The kernel's contract: \<open>wait\<close> sleeps only if the word has the expected value, a sleeping owner
  may wake up at any time, and a wake-up call wakes it. The atomic operations of the code are
  the functions; the step relation interleaves them.
\<close>

definition PARKED :: u32 where "PARKED = - 1"
definition EMPTY :: u32 where "EMPTY = 0"
definition NOTIFIED :: u32 where "NOTIFIED = 1"

text \<open>Where the owner is; the flag says whether it is in \<open>park_until\<close>.\<close>

datatype flocation =
    F_idle
  | F_wait bool
  | F_asleep bool
  | F_woken bool
  | F_check
  | F_panic

text \<open>\<open>wakers\<close>: threads between the swap of \<open>unpark\<close> and the wake-up call.\<close>

record futex =
  fstate :: u32
  floc :: flocation
  wakers :: nat

definition futex_new :: futex where
  "futex_new = \<lparr>fstate = EMPTY, floc = F_idle, wakers = 0\<rparr>"

text \<open>The first access of \<open>park\<close> and \<open>park_until\<close>; true when they return at once.\<close>

definition futex_park :: "futex \<Rightarrow> bool \<times> futex" where
  "futex_park f =
    (let old = fstate f; f = f\<lparr>fstate := fstate f - 1\<rparr> in
     if old = NOTIFIED then (True, f) else (False, f\<lparr>floc := F_wait False\<rparr>))"

definition futex_park_until :: "futex \<Rightarrow> bool \<times> futex" where
  "futex_park_until f =
    (let old = fstate f; f = f\<lparr>fstate := fstate f - 1\<rparr> in
     if old = NOTIFIED then (True, f) else (False, f\<lparr>floc := F_check\<rparr>))"

text \<open>The clock test at the head of the loop of \<open>park_until\<close>: \<open>None\<close> goes on waiting.\<close>

definition futex_deadline :: "bool \<Rightarrow> futex \<Rightarrow> bool option \<times> futex" where
  "futex_deadline expired f =
    (if expired then
       (let old = fstate f; f = f\<lparr>fstate := EMPTY\<rparr> in
        if old = NOTIFIED then (Some True, f\<lparr>floc := F_idle\<rparr>)
        else if old = PARKED then (Some False, f\<lparr>floc := F_idle\<rparr>)
        else (None, f\<lparr>floc := F_panic\<rparr>))
     else (None, f\<lparr>floc := F_wait True\<rparr>))"

text \<open>\<open>wait(&self.state, PARKED)\<close>: sleep or return at once.\<close>

definition futex_wait :: "bool \<Rightarrow> futex \<Rightarrow> futex" where
  "futex_wait until f =
    (if fstate f = PARKED then f\<lparr>floc := F_asleep until\<rparr> else f\<lparr>floc := F_woken until\<rparr>)"

text \<open>The exchange after the wait; true when the parker returns.\<close>

definition futex_take :: "bool \<Rightarrow> futex \<Rightarrow> bool \<times> futex" where
  "futex_take until f =
    (if fstate f = NOTIFIED then (True, f\<lparr>fstate := EMPTY, floc := F_idle\<rparr>)
     else (False, f\<lparr>floc := if until then F_check else F_wait False\<rparr>))"

definition futex_unpark :: "futex \<Rightarrow> futex" where
  "futex_unpark f =
    (let old = fstate f; f = f\<lparr>fstate := NOTIFIED\<rparr> in
     if old = PARKED then f\<lparr>wakers := Suc (wakers f)\<rparr> else f)"

definition futex_wake_one :: "futex \<Rightarrow> futex" where
  "futex_wake_one f =
    (let f = f\<lparr>wakers := wakers f - 1\<rparr> in
     case floc f of F_asleep until \<Rightarrow> f\<lparr>floc := F_woken until\<rparr> | _ \<Rightarrow> f)"

inductive futex_step :: "futex \<Rightarrow> event \<Rightarrow> futex \<Rightarrow> bool" where
  f_park: "floc f = F_idle \<Longrightarrow> futex_park f = (r, f') \<Longrightarrow>
    futex_step f (if r then Returned else Internal) f'"
| f_park_until: "floc f = F_idle \<Longrightarrow> futex_park_until f = (r, f') \<Longrightarrow>
    futex_step f (if r then Returned else Internal) f'"
| f_deadline: "floc f = F_check \<Longrightarrow> futex_deadline expired f = (r, f') \<Longrightarrow>
    futex_step f (case r of None \<Rightarrow> Internal | Some b \<Rightarrow> if b then Returned else Timed_out) f'"
| f_wait: "floc f = F_wait until \<Longrightarrow> futex_step f Internal (futex_wait until f)"
| f_spurious: "floc f = F_asleep until \<Longrightarrow> futex_step f Internal (f\<lparr>floc := F_woken until\<rparr>)"
| f_take: "floc f = F_woken until \<Longrightarrow> futex_take until f = (r, f') \<Longrightarrow>
    futex_step f (if r then Returned else Internal) f'"
| f_unpark: "futex_step f Unparked (futex_unpark f)"
| f_wake: "0 < wakers f \<Longrightarrow> futex_step f Internal (futex_wake_one f)"

text \<open>
  The word is \<open>EMPTY\<close> or \<open>NOTIFIED\<close> while the owner is outside and \<open>PARKED\<close> or \<open>NOTIFIED\<close> while it
  is inside; an owner that sleeps on a \<open>NOTIFIED\<close> word has a wake-up coming.
\<close>

definition futex_ok :: "futex \<Rightarrow> bool" where
  "futex_ok f \<longleftrightarrow> floc f \<noteq> F_panic \<and>
    (if floc f = F_idle then fstate f = EMPTY \<or> fstate f = NOTIFIED
     else fstate f = PARKED \<or> fstate f = NOTIFIED) \<and>
    (\<forall>until. floc f = F_asleep until \<longrightarrow> fstate f = NOTIFIED \<longrightarrow> 0 < wakers f)"

definition futex_token :: "futex \<Rightarrow> bool" where
  "futex_token f \<longleftrightarrow> fstate f = NOTIFIED"

lemma futex_values: "EMPTY \<noteq> NOTIFIED" "NOTIFIED \<noteq> EMPTY" "PARKED \<noteq> NOTIFIED" "NOTIFIED \<noteq> PARKED"
    "PARKED \<noteq> EMPTY" "EMPTY \<noteq> PARKED" "EMPTY - 1 = PARKED" "NOTIFIED - 1 = EMPTY"
  by (simp_all add: EMPTY_def NOTIFIED_def PARKED_def)

lemmas futex_defs = futex_park_def futex_park_until_def futex_deadline_def futex_wait_def
  futex_take_def futex_unpark_def futex_wake_one_def futex_ok_def futex_token_def Let_def

lemma futex_step_ok:
  assumes "futex_step f e f'" "futex_ok f"
  shows "futex_ok f'" "e = Internal \<Longrightarrow> futex_token f' = futex_token f"
    "e = Unparked \<Longrightarrow> futex_token f'" "e = Returned \<Longrightarrow> futex_token f \<and> \<not> futex_token f'"
    "e = Timed_out \<Longrightarrow> \<not> futex_token f \<and> \<not> futex_token f'"
  using assms
  by (cases rule: futex_step.cases;
      auto simp: futex_defs futex_values
        split: if_splits flocation.splits)+

interpretation futex: parker futex_new futex_step futex_ok futex_token
proof
  show "futex_ok futex_new" "\<not> futex_token futex_new"
    by (auto simp: futex_defs futex_new_def futex_values)
qed (use futex_step_ok in blast)+

subsection \<open>What the parker guarantees\<close>

text \<open>
  The state word is never anything but its three values, the \<open>unreachable!\<close> of \<open>park_until\<close>
  is unreachable, and no wake-up is lost: an owner that sleeps in the kernel while the word is
  \<open>NOTIFIED\<close> will be woken by a thread that is about to make the call.
\<close>

lemma futex_no_lost_wakeup:
  assumes "parker_run futex_new futex_step es f"
  shows "fstate f \<in> {EMPTY, NOTIFIED, PARKED} \<and> floc f \<noteq> F_panic \<and>
    (floc f = F_asleep until \<and> fstate f = NOTIFIED \<longrightarrow> 0 < wakers f)"
  using futex.run_ok [OF assms] by (auto simp: futex_ok_def split: if_splits)

text \<open>An owner goes to sleep and is unparked; the waker has not made its call yet.\<close>

definition unparked_futex :: futex where
  "unparked_futex = \<lparr>fstate = NOTIFIED, floc = F_asleep False, wakers = 1\<rparr>"

lemma unparked_run:
  "parker_run futex_new futex_step [Unparked, Internal, Internal] unparked_futex"
proof -
  let ?f1 = "\<lparr>fstate = PARKED, floc = F_wait False, wakers = 0\<rparr>"
  let ?f2 = "\<lparr>fstate = PARKED, floc = F_asleep False, wakers = 0\<rparr>"
  have "futex_step futex_new Internal ?f1"
    using f_park [of futex_new False ?f1] by (simp add: futex_new_def futex_park_def Let_def futex_values)
  moreover have "futex_step ?f1 Internal ?f2"
    using f_wait [of ?f1 False] by (simp add: futex_wait_def)
  moreover have "futex_step ?f2 Unparked unparked_futex"
    using f_unpark [of ?f2] by (simp add: futex_unpark_def Let_def unparked_futex_def)
  ultimately show ?thesis by (blast intro: parker_run.intros)
qed

text \<open>
  C31: \<open>park\<close> and \<open>park_until\<close> return true only when an \<open>unpark\<close> came since the last return, so
  returns never outnumber unparks, and \<open>park_until\<close> returns false only when none came.
\<close>

theorem futex_returns_justified:
  assumes "parker_run futex_new futex_step (e # es) f"
  shows "count_list (e # es) Returned \<le> count_list (e # es) Unparked \<and>
    (e = Returned \<longrightarrow> Unparked \<in> set (takeWhile (\<lambda>e. e \<noteq> Returned \<and> e \<noteq> Timed_out) es)) \<and>
    (e = Timed_out \<longrightarrow> Unparked \<notin> set (takeWhile (\<lambda>e. e \<noteq> Returned \<and> e \<noteq> Timed_out) es))"
proof -
  have "count_list (e # es) Returned + (if futex_token f then 1 else 0) \<le> count_list (e # es) Unparked"
    using futex.returns_le_unparks [OF assms] .
  then have "count_list (e # es) Returned \<le> count_list (e # es) Unparked" by (simp split: if_splits)
  then show ?thesis
    using assms futex.return_has_unpark [of es f] futex.timeout_has_no_unpark [of es f] by blast
qed

theorem futex_returns_justified_witness:
  "count_list [Unparked, Internal, Internal] Returned \<le> count_list [Unparked, Internal, Internal] Unparked"
  using futex_returns_justified [OF unparked_run] by blast

lemma take_returns:
  assumes "fstate f = NOTIFIED" "floc f = F_woken until"
  shows "parker_run f futex_step [Returned] (f\<lparr>fstate := EMPTY, floc := F_idle\<rparr>)"
proof -
  have "futex_step f Returned (f\<lparr>fstate := EMPTY, floc := F_idle\<rparr>)"
    using f_take [OF assms(2), of True] assms(1) by (simp add: futex_take_def)
  then show ?thesis by (blast intro: parker_run.intros)
qed

lemma run_cons:
  "parker_run f' step es s \<Longrightarrow> step f e f' \<Longrightarrow> parker_run f step (es @ [e]) s"
  by (induction rule: parker_run.induct) (auto intro: parker_run.intros)

lemma wait_returns:
  assumes "fstate f = NOTIFIED" "floc f = F_wait until"
  shows "\<exists>f'. parker_run f futex_step [Returned, Internal] f'"
proof -
  have "futex_step f Internal (f\<lparr>floc := F_woken until\<rparr>)"
    using f_wait [OF assms(2)] assms(1) by (simp add: futex_wait_def futex_values)
  from run_cons [where step = futex_step, OF take_returns this] assms(1) show ?thesis by auto
qed

text \<open>
  An unparked owner gets out: from any reachable state in which it is inside \<open>park\<close> or
  \<open>park_until\<close> with a token there, at most three steps of its own and of the pending wake-up
  call make it return.
\<close>

lemma futex_unparked_returns:
  assumes "parker_run futex_new futex_step es f" "fstate f = NOTIFIED" "floc f \<noteq> F_idle"
  shows "\<exists>n f'. n \<le> 2 \<and> parker_run f futex_step (Returned # replicate n Internal) f'"
proof -
  have ok: "futex_ok f" by (rule futex.run_ok [OF assms(1)])
  show ?thesis
  proof (cases "floc f")
    case (F_wait until)
    then have "\<exists>f'. parker_run f futex_step (Returned # replicate 1 Internal) f'"
      using wait_returns [OF assms(2)] by simp
    then show ?thesis by (intro exI [of _ 1]) simp
  next
    case (F_asleep until)
    then have "0 < wakers f" using ok assms(2) by (auto simp: futex_ok_def)
    then have "futex_step f Internal (f\<lparr>wakers := wakers f - 1, floc := F_woken until\<rparr>)"
      using f_wake [of f] F_asleep by (simp add: futex_wake_one_def Let_def)
    from run_cons [where step = futex_step, OF take_returns this] assms(2)
    have "\<exists>f'. parker_run f futex_step (Returned # replicate 1 Internal) f'" by auto
    then show ?thesis by (intro exI [of _ 1]) simp
  next
    case (F_woken until)
    then have "\<exists>f'. parker_run f futex_step (Returned # replicate 0 Internal) f'"
      using take_returns [OF assms(2)] by auto
    then show ?thesis by (intro exI [of _ 0]) simp
  next
    case F_check
    have step: "futex_step f Internal (f\<lparr>floc := F_wait True\<rparr>)"
      using f_deadline [OF F_check, of False None] by (simp add: futex_deadline_def)
    obtain f' where "parker_run (f\<lparr>floc := F_wait True\<rparr>) futex_step [Returned, Internal] f'"
      using wait_returns [of "f\<lparr>floc := F_wait True\<rparr>" True] assms(2) by auto
    from run_cons [where step = futex_step, OF this step]
    have "\<exists>f'. parker_run f futex_step (Returned # replicate 2 Internal) f'"
      by (auto simp: numeral_2_eq_2)
    then show ?thesis by (intro exI [of _ 2]) simp
  qed (use ok assms(3) in \<open>auto simp: futex_ok_def\<close>)
qed

subsection \<open>The parker inside a machine\<close>

text \<open>
  The next access of an owner that uses \<open>park\<close>, by its place; the kernel may let a sleeper go at any
  time. A call that comes when its parker is gone is to the address alone, and stays under way to the
  next parker there.
\<close>

definition futex_park_op :: "bool \<Rightarrow> futex \<Rightarrow> (bool \<times> futex) option" where
  "futex_park_op sp f =
    (case floc f of
       F_idle \<Rightarrow> if sp then None else Some (futex_park f)
     | F_wait u \<Rightarrow> if sp then None else Some (False, futex_wait u f)
     | F_asleep u \<Rightarrow> if sp then Some (False, f\<lparr>floc := F_woken u\<rparr>) else None
     | F_woken u \<Rightarrow> if sp then None else Some (futex_take u f)
     | _ \<Rightarrow> None)"

definition futex_ops :: "futex parker_ops" where
  "futex_ops = \<lparr>new_parker = futex_new, renewed = (\<lambda>f. futex_new\<lparr>wakers := wakers f\<rparr>),
    park_op = futex_park_op, unpark_op = (\<lambda>f. (fstate f = PARKED, futex_unpark f)),
    call_op = futex_wake_one, has_token = futex_token\<rparr>"

lemma futex_ops_simps [simp]:
  "new_parker futex_ops = futex_new" "renewed futex_ops f = futex_new\<lparr>wakers := wakers f\<rparr>"
  "park_op futex_ops = futex_park_op" "unpark_op futex_ops f = (fstate f = PARKED, futex_unpark f)"
  "call_op futex_ops = futex_wake_one" "has_token futex_ops = futex_token"
  by (simp_all add: futex_ops_def)

text \<open>The owner is outside, or inside \<open>park\<close> rather than \<open>park_until\<close>.\<close>

fun inside_park :: "flocation \<Rightarrow> bool" where
  "inside_park (F_wait u) = (\<not> u)"
| "inside_park (F_asleep u) = (\<not> u)"
| "inside_park (F_woken u) = (\<not> u)"
| "inside_park _ = False"

definition futex_good :: "nat \<Rightarrow> futex \<Rightarrow> bool" where
  "futex_good n f \<longleftrightarrow> futex_ok f \<and> wakers f = n \<and> (floc f = F_idle \<or> inside_park (floc f))"

definition futex_entered :: "futex \<Rightarrow> bool" where
  "futex_entered f \<longleftrightarrow> floc f \<noteq> F_idle"

definition futex_rank :: "futex \<Rightarrow> nat" where
  "futex_rank f = (case floc f of F_wait u \<Rightarrow> 1 | F_asleep u \<Rightarrow> 1 | _ \<Rightarrow> 0)"

lemma futex_park_op_ok:
  assumes "futex_good n f" "futex_park_op sp f = Some (r, f')"
  shows "futex_good n f'" "futex_entered f' = (\<not> r)" "if r then futex_token f else futex_token f' = futex_token f"
    "\<not> sp \<Longrightarrow> futex_token f \<Longrightarrow> \<not> r \<Longrightarrow> futex_rank f' < futex_rank f"
  using assms
  by (cases "floc f"; auto simp: futex_park_op_def futex_good_def futex_entered_def futex_rank_def
    futex_defs futex_values split: if_splits)+

lemma futex_blocked:
  assumes "futex_good n f" "futex_token f" "futex_park_op False f = None"
  shows "0 < n \<and> futex_rank (futex_wake_one f) < futex_rank f"
  using assms
  by (cases "floc f") (auto simp: futex_park_op_def futex_good_def futex_rank_def futex_defs)

interpretation futex_impl: parker_impl futex_ops futex_good futex_entered futex_rank
proof
  note defs = futex_good_def futex_entered_def futex_ok_def futex_new_def futex_token_def futex_values
  show "futex_good 0 (new_parker futex_ops)" "\<not> futex_entered (new_parker futex_ops)"
    "\<not> has_token futex_ops (new_parker futex_ops)"
    by (simp_all add: defs)
  show "futex_good n (renewed futex_ops f)" if "futex_good n f" "\<not> futex_entered f" for n f
    using that by (simp add: defs)
  show "\<not> futex_entered (renewed futex_ops f)" "\<not> has_token futex_ops (renewed futex_ops f)" for f
    by (simp_all add: defs)
  show "futex_good n f'" "futex_entered f' = (\<not> r)"
    if "futex_good n f" "park_op futex_ops sp f = Some (r, f')" for n sp r f f'
    using that futex_park_op_ok(1,2) by simp_all
  show "has_token futex_ops f' = has_token futex_ops f"
    if "futex_good n f" "park_op futex_ops sp f = Some (False, f')" for n sp f f'
    using that futex_park_op_ok(3) by fastforce
  show "has_token futex_ops f" if "futex_good n f" "park_op futex_ops sp f = Some (True, f')" for n sp f f'
    using that futex_park_op_ok(3) by fastforce
  show "futex_good (if c then Suc n else n) f'" if "futex_good n f" "unpark_op futex_ops f = (c, f')"
    for n f c f'
    using that by (auto simp: futex_good_def futex_defs futex_values split: flocation.splits)
  show "has_token futex_ops f' \<and> futex_entered f' = futex_entered f" if "unpark_op futex_ops f = (c, f')"
    for f c f'
    using that by (auto simp: futex_entered_def futex_token_def futex_unpark_def Let_def)
  show "futex_good n (call_op futex_ops f)" if "futex_good (Suc n) f" for n f
    using that by (auto simp: futex_good_def futex_defs split: flocation.splits)
  show "has_token futex_ops (call_op futex_ops f) = has_token futex_ops f"
    "futex_entered (call_op futex_ops f) = futex_entered f" for f
    by (simp_all add: futex_wake_one_def futex_token_def futex_entered_def Let_def split: flocation.splits)
  show "0 < n \<and> futex_rank (call_op futex_ops f) < futex_rank f"
    if "futex_good n f" "has_token futex_ops f" "park_op futex_ops False f = None" for n f
    using that futex_blocked by simp
  show "futex_rank f' < futex_rank f"
    if "futex_good n f" "has_token futex_ops f" "park_op futex_ops False f = Some (False, f')" for n f f'
    using futex_park_op_ok(4) [of n f False False] that by simp
qed

end
