(* ===== verification/Mutex_Futex.thy ===== *)
theory Mutex_Futex
  imports Mutex_Parkers Futex
begin

section \<open>RawMutex on futex parkers\<close>

text \<open>
  The machine of \<open>Mutex_Parkers\<close> with the parkers of \<open>Futex\<close>: the code on Linux, Android, the BSDs and
  Windows. What holds on every parker holds here; the schedules at the end show what is special to
  the futex, wake-up calls that come too late.
\<close>

interpretation futex_mutex: mutex_on_parkers futex_ops futex_good futex_entered futex_rank
  by unfold_locales

text \<open>
  C16: the mutex on futex parkers refines the mutex on tokens: each step of a thread, of the
  kernel or of a late wake-up call either leaves the abstract system as it is or is a step of
  that thread in it. So the lock excludes, and no step touches a node that is gone, with the
  parker of the code in place of its contract.
\<close>

theorem futex_mutex_refines:
  assumes "mreach futex_ops c" "valid_ptr t"
  shows "mexec futex_ops e t c \<noteq> Fault \<and> reach (abs_sys futex_ops c) \<and>
    (mexec futex_ops e t c = Next c' \<longrightarrow> abs_sys futex_ops c' = abs_sys futex_ops c \<or>
      exec e t (abs_sys futex_ops c) = Next (abs_sys futex_ops c')) \<and>
    (holds (base c) t \<and> holds (base c) u \<longrightarrow> t = u)"
  by (rule futex_mutex.mutex_refines [OF assms])

theorem futex_mutex_refines_witness:
  "abs_sys futex_ops ((minit futex_ops 0 1)\<lparr>base := held_sys\<rparr>) = abs_sys futex_ops (minit futex_ops 0 1) \<or>
    exec (calm Call_lock) 8 (abs_sys futex_ops (minit futex_ops 0 1)) =
      Next (abs_sys futex_ops ((minit futex_ops 0 1)\<lparr>base := held_sys\<rparr>))"
  using futex_mutex_refines [OF mreach_init, of 8 "calm Call_lock" 0 1
    "(minit futex_ops 0 1)\<lparr>base := held_sys\<rparr>"] mexec_held [of futex_ops] by simp

text \<open>The system of mutex and parkers never comes to rest with a thread inside.\<close>

lemma futex_mutex_live:
  assumes "mreach futex_ops c" "pc (base c) x \<noteq> Idle"
  shows "\<exists>t c'. runnable futex_ops c t \<and> mexec futex_ops (calm Call_unlock) t c = Next c'"
  by (rule futex_mutex.mutex_live [OF assms])

text \<open>
  C17: from \<open>lock\<close> down to the futex, a waiting thread can always be served: from every reachable system in
  which it is inside \<open>lock\<close>, also asleep in the kernel, some finite interleaving of the threads that are
  inside an operation now and of the wake-up calls under way takes it into its critical section. No
  spurious wake-up is needed, and nobody has to call \<open>lock\<close> again.
\<close>

theorem futex_lock_obtainable:
  assumes "mreach futex_ops c" "inside_lock (pc (base c) t)"
  shows "\<exists>ts c'. alone_run mutex_client futex_ops (calm Call_unlock) ts c = Next c' \<and> pc (base c') t = Critical"
  by (rule futex_mutex.mutex_obtainable [OF assms])

text \<open>16 sleeps in the kernel behind the holder 8.\<close>

theorem futex_lock_obtainable_witness:
  "\<exists>c ts c'. mreach futex_ops c \<and> floc (parker_at c 16) = F_asleep False \<and> pc (base c) 8 = Critical \<and>
    alone_run mutex_client futex_ops (calm Call_unlock) ts c = Next c' \<and> pc (base c') 16 = Critical"
proof -
  let ?ps = "waiting_schedule @ replicate 2 (calm Call_lock, 16)"
  have "case mrun futex_ops ?ps (minit futex_ops 0 1) of Blocked \<Rightarrow> False | Fault \<Rightarrow> False
    | Next c \<Rightarrow> floc (parker_at c 16) = F_asleep False \<and> pc (base c) 8 = Critical \<and> inside_lock (pc (base c) 16)"
    by code_simp
  then obtain c where c: "mrun futex_ops ?ps (minit futex_ops 0 1) = Next c"
    "floc (parker_at c 16) = F_asleep False" "pc (base c) 8 = Critical" "inside_lock (pc (base c) 16)"
    unfolding outcome_case_iff by blast
  have "mreach futex_ops c"
    by (rule mreach_run [OF mreach_init _ c(1)]) (use schedule_valid(1) in auto)
  from futex_lock_obtainable [OF this c(4)] show ?thesis using \<open>mreach futex_ops c\<close> c(2,3) by blast
qed

text \<open>
  C18: whoever was unparked gets out of \<open>park\<close>: from any reachable state in which a thread waits
  with its token set, two steps, its own or the wake-up call that is under way to it, take it out, and
  into the critical section if the lock was handed to it.
\<close>

theorem unparked_thread_returns:
  assumes "mreach futex_ops c" "parked (pc (base c) t)" "fstate (parker_at c t) = NOTIFIED"
  shows "\<exists>ts c'. set ts \<subseteq> insert t (callers c t) \<and> length ts \<le> 2 \<and>
    alone_run mutex_client futex_ops (calm Call_unlock) ts c = Next c' \<and> out_of_park c t c'"
proof -
  have "futex_rank (parker_at c t) \<le> 1" by (simp add: futex_rank_def split: flocation.splits)
  then show ?thesis
    using futex_mutex.mutex_unparked_returns [OF assms(1,2)] assms(3)
    by (fastforce simp: futex_token_def)
qed

subsection \<open>Late wake-up calls\<close>

text \<open>
  \<open>early_schedule\<close>: 16 has pushed its node, and 8 has removed it when 16 has not begun to park.
  \<open>late_schedule\<close>: 16 sleeps when it is unparked, wakes by itself and returns before 8 calls.
\<close>

definition early_schedule :: "(env \<times> ptr) list" where
  "early_schedule = waiting_schedule @ replicate 9 (calm Call_unlock, 8)"

definition late_schedule :: "(env \<times> ptr) list" where
  "late_schedule = waiting_schedule @ replicate 2 (calm Call_lock, 16) @
    replicate 10 (calm Call_unlock, 8) @
    [((calm Call_lock)\<lparr>spurious := True\<rparr>, 16), (calm Call_lock, 16)]"

lemma late_valid:
  "\<forall>p \<in> set early_schedule. valid_ptr (snd p)" "\<forall>p \<in> set late_schedule. valid_ptr (snd p)"
  using schedule_valid(1) by (auto simp: early_schedule_def late_schedule_def)

lemma early_run: "\<exists>c. mrun futex_ops early_schedule (minit futex_ops 0 1) = Next c \<and>
    pc (base c) 8 = Wake Plain 16 \<and> floc (parker_at c 16) = F_idle \<and> fstate (parker_at c 16) = EMPTY"
proof -
  have "case mrun futex_ops early_schedule (minit futex_ops 0 1) of Blocked \<Rightarrow> False | Fault \<Rightarrow> False
    | Next c \<Rightarrow> pc (base c) 8 = Wake Plain 16 \<and> floc (parker_at c 16) = F_idle \<and> fstate (parker_at c 16) = EMPTY"
    by code_simp
  then show ?thesis by (simp only: outcome_case_iff)
qed

lemma late_run: "\<exists>c. mrun futex_ops late_schedule (minit futex_ops 0 1) = Next c \<and>
    calling c 8 = Some 16 \<and> heap (base c) 16 = None \<and> pc (base c) 16 = Slow_load spin_wait_new"
proof -
  have "case mrun futex_ops late_schedule (minit futex_ops 0 1) of Blocked \<Rightarrow> False | Fault \<Rightarrow> False
    | Next c \<Rightarrow> calling c 8 = Some 16 \<and> heap (base c) 16 = None \<and> pc (base c) 16 = Slow_load spin_wait_new"
    by code_simp
  then show ?thesis by (simp only: outcome_case_iff)
qed

text \<open>
  The comment before \<open>unpark\<close> says that the removed thread is sleeping right now. It need not
  be: it may not have begun to park, and it may wake and be gone, its node with it, when the
  wake-up call to its address is made.
\<close>

lemma unpark_races:
  "(\<exists>c. mreach futex_ops c \<and> pc (base c) 8 = Wake Plain 16 \<and> floc (parker_at c 16) = F_idle) \<and>
   (\<exists>c. mreach futex_ops c \<and> calling c 8 = Some 16 \<and> heap (base c) 16 = None)"
  using early_run late_run mreach_run [OF mreach_init] late_valid by metis

text \<open>16 sleeps and is unparked; the call is under way.\<close>

lemma unparked_run_mutex: "\<exists>c. mrun futex_ops (take 26 late_schedule) (minit futex_ops 0 1) = Next c \<and>
    parked (pc (base c) 16) \<and> fstate (parker_at c 16) = NOTIFIED"
proof -
  have "case mrun futex_ops (take 26 late_schedule) (minit futex_ops 0 1) of Blocked \<Rightarrow> False | Fault \<Rightarrow> False
    | Next c \<Rightarrow> parked (pc (base c) 16) \<and> fstate (parker_at c 16) = NOTIFIED"
    by code_simp
  then show ?thesis by (simp only: outcome_case_iff)
qed

theorem unparked_thread_returns_witness:
  "\<exists>c ts c'. mreach futex_ops c \<and> parked (pc (base c) 16) \<and> fstate (parker_at c 16) = NOTIFIED \<and>
    length ts \<le> 2 \<and> alone_run mutex_client futex_ops (calm Call_unlock) ts c = Next c' \<and> out_of_park c 16 c'"
proof -
  obtain c where c: "mrun futex_ops (take 26 late_schedule) (minit futex_ops 0 1) = Next c"
    "parked (pc (base c) 16)" "fstate (parker_at c 16) = NOTIFIED"
    using unparked_run_mutex by blast
  have "mreach futex_ops c"
    by (rule mreach_run [OF mreach_init _ c(1)]) (use late_valid(2) in \<open>auto dest: in_set_takeD\<close>)
  then show ?thesis using unparked_thread_returns [OF _ c(2,3)] c by blast
qed

subsection \<open>The guards of Mutex on this machine\<close>

text \<open>
  C19: increments under the lock are not lost, from \<open>Mutex::lock\<close> down to the futex: threads read
  and write a counter in separate steps under their guards, in any interleaving with the steps of
  the lock, of the parkers and of the kernel, and its value is the number of increments finished.
\<close>

theorem futex_no_lost_increment:
  assumes "counting_reach (mstep futex_ops) mguarded (minit futex_ops t r) (c, d, tmp, n)"
  shows "d = n"
  using futex_mutex.mutex_lock.counting_exact [OF assms mreach_init] by simp

theorem futex_no_lost_increment_witness:
  "\<exists>c. counting_reach (mstep futex_ops) mguarded (minit futex_ops 0 1) (c, 1, (\<lambda>_. None), 1) \<and> (1 :: nat) = 1"
proof -
  let ?c = "(minit futex_ops 0 1)\<lparr>base := held_sys\<rparr>"
  let ?reach = "counting_reach (mstep futex_ops) mguarded (minit futex_ops 0 1)"
  have g: "mguarded ?c 8" by (simp add: mguarded_def guarded_def)
  have "mstep futex_ops 8 (minit futex_ops 0 1) ?c" using mexec_held by (auto simp: mstep_def)
  from count_lock [where lstep = "mstep futex_ops", OF count_init _ this, of mguarded]
  have "?reach (?c, 0, \<lambda>_. None, 0)" by simp
  from count_read [OF this g] have "?reach (?c, 0, [8 \<mapsto> 0], 0)" by simp
  from count_write [OF this g, of 0]
  have r: "?reach (?c, 1, (\<lambda>_. None), 1)"
    by (simp add: fun_upd_idem)
  then show ?thesis using futex_no_lost_increment [OF r] by blast
qed

end
