(* ===== verification/Semaphore.thy ===== *)
theory Semaphore
  imports Parker
begin

section \<open>The semaphore parker (mekong9-parker/src/semaphore.rs)\<close>

text \<open>
  The Apple implementation: an \<open>i8\<close> state and a dispatch semaphore. The semaphore is the library's
  contract: \<open>signal\<close> adds one, a \<open>wait\<close> that returns zero has taken one, a \<open>wait\<close> that returns
  something else has taken none. \<open>signals\<close> counts the threads between the swap of \<open>unpark\<close> and
  their call of \<open>signal\<close>.
\<close>

definition S_EMPTY :: "8 word" where "S_EMPTY = 0"
definition S_NOTIFIED :: "8 word" where "S_NOTIFIED = 1"
definition S_PARKED :: "8 word" where "S_PARKED = - 1"

text \<open>Where the owner is: \<open>S_drain\<close> is the inner wait of \<open>park_until\<close>, the flag of \<open>S_swap\<close> \<open>is_timeout\<close>.\<close>

datatype slocation = S_idle | S_wait | S_reset | S_check | S_wait_until | S_swap bool | S_drain

record semaphore =
  sstate :: "8 word"
  sloc :: slocation
  sem_count :: nat
  signals :: nat

definition fresh_semaphore :: semaphore where
  "fresh_semaphore = \<lparr>sstate = S_EMPTY, sloc = S_idle, sem_count = 0, signals = 0\<rparr>"

text \<open>
  \<open>new\<close> asserts that \<open>dispatch_semaphore_create\<close> has returned a semaphore. A thread whose \<open>new\<close>
  panics never gets as far as the queue; the parkers below are those that exist.
\<close>

definition semaphore_new :: "u64 \<Rightarrow> semaphore option" where
  "semaphore_new created = (if created = 0 then None else Some fresh_semaphore)"

text \<open>The first access of \<open>park\<close> and \<open>park_until\<close>; true when they return at once.\<close>

definition semaphore_park :: "semaphore \<Rightarrow> bool \<times> semaphore" where
  "semaphore_park s =
    (let old = sstate s; s = s\<lparr>sstate := sstate s - 1\<rparr> in
     if old = S_NOTIFIED then (True, s) else (False, s\<lparr>sloc := S_wait\<rparr>))"

definition semaphore_park_until :: "semaphore \<Rightarrow> bool \<times> semaphore" where
  "semaphore_park_until s =
    (let old = sstate s; s = s\<lparr>sstate := sstate s - 1\<rparr> in
     if old = S_NOTIFIED then (True, s) else (False, s\<lparr>sloc := S_check\<rparr>))"

text \<open>A successful wait, and the swap that ends \<open>park\<close>.\<close>

definition semaphore_wait :: "slocation \<Rightarrow> semaphore \<Rightarrow> semaphore" where
  "semaphore_wait l s = s\<lparr>sem_count := sem_count s - 1, sloc := l\<rparr>"

definition semaphore_reset :: "semaphore \<Rightarrow> semaphore" where
  "semaphore_reset s = s\<lparr>sstate := S_EMPTY, sloc := S_idle\<rparr>"

text \<open>The loop of \<open>park_until\<close>: the clock test (true when it gives up), and the swap after the wait.\<close>

definition semaphore_check :: "bool \<Rightarrow> semaphore \<Rightarrow> bool \<times> semaphore" where
  "semaphore_check expired s =
    (if expired then (True, s\<lparr>sloc := S_idle\<rparr>) else (False, s\<lparr>sloc := S_wait_until\<rparr>))"

definition semaphore_swap :: "bool \<Rightarrow> semaphore \<Rightarrow> semaphore" where
  "semaphore_swap is_timeout s =
    (let old = sstate s; s = s\<lparr>sstate := S_EMPTY\<rparr> in
     if old = S_NOTIFIED \<and> is_timeout then s\<lparr>sloc := S_drain\<rparr> else s\<lparr>sloc := S_check\<rparr>)"

definition semaphore_unpark :: "semaphore \<Rightarrow> semaphore" where
  "semaphore_unpark s =
    (let old = sstate s; s = s\<lparr>sstate := S_NOTIFIED\<rparr> in
     if old = S_PARKED then s\<lparr>signals := Suc (signals s)\<rparr> else s)"

definition semaphore_signal :: "semaphore \<Rightarrow> semaphore" where
  "semaphore_signal s = s\<lparr>signals := signals s - 1, sem_count := Suc (sem_count s)\<rparr>"

text \<open>The steps of an owner that only uses \<open>park\<close>, and of the threads that unpark it.\<close>

inductive semaphore_step :: "semaphore \<Rightarrow> event \<Rightarrow> semaphore \<Rightarrow> bool" where
  s_park: "sloc s = S_idle \<Longrightarrow> semaphore_park s = (r, s') \<Longrightarrow>
    semaphore_step s (if r then Returned else Internal) s'"
| s_wait: "sloc s = S_wait \<Longrightarrow> 0 < sem_count s \<Longrightarrow> semaphore_step s Internal (semaphore_wait S_reset s)"
| s_retry: "sloc s = S_wait \<Longrightarrow> semaphore_step s Internal s"
| s_reset: "sloc s = S_reset \<Longrightarrow> semaphore_step s Returned (semaphore_reset s)"
| s_unpark: "semaphore_step s Unparked (semaphore_unpark s)"
| s_signal: "0 < signals s \<Longrightarrow> semaphore_step s Internal (semaphore_signal s)"

text \<open>With \<open>park_until\<close> as well.\<close>

inductive semaphore_until_step :: "semaphore \<Rightarrow> event \<Rightarrow> semaphore \<Rightarrow> bool" where
  s_plain: "semaphore_step s e s' \<Longrightarrow> semaphore_until_step s e s'"
| s_park_until: "sloc s = S_idle \<Longrightarrow> semaphore_park_until s = (r, s') \<Longrightarrow>
    semaphore_until_step s (if r then Returned else Internal) s'"
| s_check: "sloc s = S_check \<Longrightarrow> semaphore_check expired s = (r, s') \<Longrightarrow>
    semaphore_until_step s (if r then Timed_out else Internal) s'"
| s_taken: "sloc s = S_wait_until \<Longrightarrow> 0 < sem_count s \<Longrightarrow>
    semaphore_until_step s Internal (semaphore_wait (S_swap False) s)"
| s_expired: "sloc s = S_wait_until \<Longrightarrow> semaphore_until_step s Internal (s\<lparr>sloc := S_swap True\<rparr>)"
| s_swap: "sloc s = S_swap to \<Longrightarrow> semaphore_until_step s Internal (semaphore_swap to s)"
| s_drain: "sloc s = S_drain \<Longrightarrow> 0 < sem_count s \<Longrightarrow>
    semaphore_until_step s Returned (semaphore_wait S_idle s)"

text \<open>
  The count and the pending signals together are one exactly while the owner waits on a state
  that has been set to \<open>NOTIFIED\<close>, and zero otherwise.
\<close>

definition semaphore_ok :: "semaphore \<Rightarrow> bool" where
  "semaphore_ok s \<longleftrightarrow>
    (case sloc s of
       S_idle \<Rightarrow> (sstate s = S_EMPTY \<or> sstate s = S_NOTIFIED) \<and> sem_count s + signals s = 0
     | S_wait \<Rightarrow> (sstate s = S_PARKED \<and> sem_count s + signals s = 0) \<or>
                 (sstate s = S_NOTIFIED \<and> sem_count s + signals s = 1)
     | S_reset \<Rightarrow> sstate s = S_NOTIFIED \<and> sem_count s + signals s = 0
     | _ \<Rightarrow> False)"

definition semaphore_token :: "semaphore \<Rightarrow> bool" where
  "semaphore_token s \<longleftrightarrow> sstate s = S_NOTIFIED"

lemma semaphore_values: "S_EMPTY \<noteq> S_NOTIFIED" "S_NOTIFIED \<noteq> S_EMPTY" "S_PARKED \<noteq> S_NOTIFIED"
    "S_NOTIFIED \<noteq> S_PARKED" "S_PARKED \<noteq> S_EMPTY" "S_EMPTY \<noteq> S_PARKED"
    "S_EMPTY - 1 = S_PARKED" "S_NOTIFIED - 1 = S_EMPTY"
  by (simp_all add: S_EMPTY_def S_NOTIFIED_def S_PARKED_def)

lemmas semaphore_defs = semaphore_park_def semaphore_wait_def semaphore_reset_def
  semaphore_unpark_def semaphore_signal_def semaphore_ok_def semaphore_token_def Let_def

lemma semaphore_step_ok:
  assumes "semaphore_step s e s'" "semaphore_ok s"
  shows "semaphore_ok s'" "e = Internal \<Longrightarrow> semaphore_token s' = semaphore_token s"
    "e = Unparked \<Longrightarrow> semaphore_token s'" "e = Returned \<Longrightarrow> semaphore_token s \<and> \<not> semaphore_token s'"
    "e = Timed_out \<Longrightarrow> \<not> semaphore_token s \<and> \<not> semaphore_token s'"
  using assms
  by (cases rule: semaphore_step.cases;
      auto simp: semaphore_defs semaphore_values split: if_splits slocation.splits)+

interpretation semaphore: parker fresh_semaphore semaphore_step semaphore_ok semaphore_token
proof
  show "semaphore_ok fresh_semaphore" "\<not> semaphore_token fresh_semaphore"
    by (auto simp: semaphore_defs fresh_semaphore_def semaphore_values)
qed (use semaphore_step_ok in blast)+

subsection \<open>What park guarantees\<close>

text \<open>
  For an owner that uses \<open>park\<close>, the semaphore never counts above one, is zero again whenever
  the owner is outside (so it may be released), and an owner that waits on a notified state gets
  its signal: it has been sent or is about to be.
\<close>

lemma semaphore_balanced:
  assumes "parker_run fresh_semaphore semaphore_step es s"
  shows "sem_count s + signals s \<le> 1 \<and> (sloc s = S_idle \<longrightarrow> sem_count s = 0 \<and> signals s = 0) \<and>
    (sloc s = S_wait \<and> sstate s = S_NOTIFIED \<longrightarrow> sem_count s + signals s = 1)"
  using semaphore.run_ok [OF assms]
  by (auto simp: semaphore_ok_def semaphore_values split: slocation.splits)

text \<open>
  \<open>park\<close> returns only when an \<open>unpark\<close> came since the last return, and returns never
  outnumber unparks.
\<close>

lemma semaphore_returns_justified:
  assumes "parker_run fresh_semaphore semaphore_step (e # es) s"
  shows "count_list (e # es) Returned \<le> count_list (e # es) Unparked \<and>
    (e = Returned \<longrightarrow> Unparked \<in> set (takeWhile (\<lambda>e. e \<noteq> Returned \<and> e \<noteq> Timed_out) es))"
proof -
  have "count_list (e # es) Returned \<le> count_list (e # es) Unparked"
    using semaphore.returns_le_unparks [OF assms] by linarith
  then show ?thesis using assms semaphore.return_has_unpark [of es s] by blast
qed

subsection \<open>What park\_until does not guarantee\<close>

text \<open>
  C39: \<open>park_until\<close> can report a timeout although the thread was unparked while it waited: after a
  wait that was ended by the signal it resets the state and looks at the clock again.
\<close>

theorem park_until_loses_unpark:
  "\<exists>es s. parker_run fresh_semaphore semaphore_until_step (Timed_out # es) s \<and>
    Unparked \<in> set (takeWhile (\<lambda>e. e \<noteq> Returned \<and> e \<noteq> Timed_out) es)"
proof -
  let ?s = "\<lambda>st l c g. \<lparr>sstate = st, sloc = l, sem_count = c, signals = g\<rparr>"
  let ?step = semaphore_until_step
  have "?step fresh_semaphore Internal (?s S_PARKED S_check 0 0)"
    using s_park_until [of fresh_semaphore False "?s S_PARKED S_check 0 0"]
    by (simp add: fresh_semaphore_def semaphore_park_until_def Let_def semaphore_values)
  moreover have "?step (?s S_PARKED S_check 0 0) Internal (?s S_PARKED S_wait_until 0 0)"
    using s_check [of "?s S_PARKED S_check 0 0" False False] by (simp add: semaphore_check_def)
  moreover have "?step (?s S_PARKED S_wait_until 0 0) Unparked (?s S_NOTIFIED S_wait_until 0 1)"
    using s_plain [OF s_unpark, of "?s S_PARKED S_wait_until 0 0"]
    by (simp add: semaphore_unpark_def Let_def)
  moreover have "?step (?s S_NOTIFIED S_wait_until 0 1) Internal (?s S_NOTIFIED S_wait_until 1 0)"
    using s_plain [OF s_signal, of "?s S_NOTIFIED S_wait_until 0 1"] by (simp add: semaphore_signal_def)
  moreover have "?step (?s S_NOTIFIED S_wait_until 1 0) Internal (?s S_NOTIFIED (S_swap False) 0 0)"
    using s_taken [of "?s S_NOTIFIED S_wait_until 1 0"] by (simp add: semaphore_wait_def)
  moreover have "?step (?s S_NOTIFIED (S_swap False) 0 0) Internal (?s S_EMPTY S_check 0 0)"
    using s_swap [of "?s S_NOTIFIED (S_swap False) 0 0" False] by (simp add: semaphore_swap_def Let_def)
  moreover have "?step (?s S_EMPTY S_check 0 0) Timed_out (?s S_EMPTY S_idle 0 0)"
    using s_check [of "?s S_EMPTY S_check 0 0" True True] by (simp add: semaphore_check_def)
  ultimately have "parker_run fresh_semaphore ?step
      (Timed_out # [Internal, Internal, Internal, Unparked, Internal, Internal]) (?s S_EMPTY S_idle 0 0)"
    by (blast intro: parker_run.intros)
  moreover have "Unparked \<in> set (takeWhile (\<lambda>e. e \<noteq> Returned \<and> e \<noteq> Timed_out)
      [Internal, Internal, Internal, Unparked, Internal, Internal])" by simp
  ultimately show ?thesis by blast
qed

text \<open>
  C40: a \<open>park_until\<close> whose deadline has passed leaves the state \<open>PARKED\<close>; the next \<open>park\<close> makes it
  -2, an \<open>unpark\<close> then sends no signal, and the owner waits for ever on a notified state.
\<close>

theorem park_after_timeout_hangs:
  "\<exists>es s. parker_run fresh_semaphore semaphore_until_step es s \<and> sloc s = S_wait \<and>
    sstate s = S_NOTIFIED \<and> sem_count s = 0 \<and> signals s = 0 \<and>
    (\<forall>e. {s'. semaphore_until_step s e s'} \<subseteq> {s})"
proof -
  let ?s = "\<lambda>st l. \<lparr>sstate = st, sloc = l, sem_count = 0, signals = 0\<rparr>"
  let ?step = semaphore_until_step
  have "?step fresh_semaphore Internal (?s S_PARKED S_check)"
    using s_park_until [of fresh_semaphore False "?s S_PARKED S_check"]
    by (simp add: fresh_semaphore_def semaphore_park_until_def Let_def semaphore_values)
  moreover have "?step (?s S_PARKED S_check) Timed_out (?s S_PARKED S_idle)"
    using s_check [of "?s S_PARKED S_check" True True] by (simp add: semaphore_check_def)
  moreover have "?step (?s S_PARKED S_idle) Internal (?s (- 2) S_wait)"
    using s_plain [OF s_park, of "?s S_PARKED S_idle" False "?s (- 2) S_wait"]
    by (simp add: semaphore_park_def Let_def semaphore_values S_PARKED_def S_NOTIFIED_def)
  moreover have "?step (?s (- 2) S_wait) Unparked (?s S_NOTIFIED S_wait)"
    using s_plain [OF s_unpark, of "?s (- 2) S_wait"]
    by (simp add: semaphore_unpark_def Let_def S_PARKED_def)
  ultimately have run: "parker_run fresh_semaphore ?step
      [Unparked, Internal, Timed_out, Internal] (?s S_NOTIFIED S_wait)"
    by (blast intro: parker_run.intros)
  have "s' = ?s S_NOTIFIED S_wait" if "?step (?s S_NOTIFIED S_wait) e s'" for e s'
    using that by (auto elim!: semaphore_until_step.cases semaphore_step.cases
      simp: semaphore_unpark_def Let_def semaphore_values)
  with run show ?thesis by (intro exI conjI) auto
qed

subsection \<open>The parker inside a machine\<close>

text \<open>
  The next access of an owner that uses \<open>park\<close>, by its place; a wait may also come back without having
  taken anything, and is repeated. A call under way keeps its owner inside \<open>park\<close> (\<open>call_waited\<close> below), so a
  parker that is gone has none.
\<close>

definition semaphore_park_op :: "bool \<Rightarrow> semaphore \<Rightarrow> (bool \<times> semaphore) option" where
  "semaphore_park_op sp s =
    (case sloc s of
       S_idle \<Rightarrow> if sp then None else Some (semaphore_park s)
     | S_wait \<Rightarrow> if sp then Some (False, s)
         else if 0 < sem_count s then Some (False, semaphore_wait S_reset s) else None
     | S_reset \<Rightarrow> if sp then None else Some (True, semaphore_reset s)
     | _ \<Rightarrow> None)"

definition semaphore_ops :: "semaphore parker_ops" where
  "semaphore_ops = \<lparr>new_parker = fresh_semaphore, renewed = (\<lambda>s. fresh_semaphore\<lparr>signals := signals s\<rparr>),
    park_op = semaphore_park_op, unpark_op = (\<lambda>s. (sstate s = S_PARKED, semaphore_unpark s)),
    call_op = semaphore_signal, has_token = semaphore_token\<rparr>"

lemma semaphore_ops_simps [simp]:
  "new_parker semaphore_ops = fresh_semaphore" "renewed semaphore_ops s = fresh_semaphore\<lparr>signals := signals s\<rparr>"
  "park_op semaphore_ops = semaphore_park_op" "unpark_op semaphore_ops s = (sstate s = S_PARKED, semaphore_unpark s)"
  "call_op semaphore_ops = semaphore_signal" "has_token semaphore_ops = semaphore_token"
  by (simp_all add: semaphore_ops_def)

definition semaphore_good :: "nat \<Rightarrow> semaphore \<Rightarrow> bool" where
  "semaphore_good n s \<longleftrightarrow> semaphore_ok s \<and> signals s = n"

definition semaphore_entered :: "semaphore \<Rightarrow> bool" where
  "semaphore_entered s \<longleftrightarrow> sloc s \<noteq> S_idle"

definition semaphore_rank :: "semaphore \<Rightarrow> nat" where
  "semaphore_rank s = (case sloc s of S_wait \<Rightarrow> if 0 < sem_count s then 1 else 2 | _ \<Rightarrow> 0)"

lemma semaphore_park_op_ok:
  assumes "semaphore_good n s" "semaphore_park_op sp s = Some (r, s')"
  shows "semaphore_good n s'" "semaphore_entered s' = (\<not> r)"
    "if r then semaphore_token s else semaphore_token s' = semaphore_token s"
    "\<not> sp \<Longrightarrow> semaphore_token s \<Longrightarrow> \<not> r \<Longrightarrow> semaphore_rank s' < semaphore_rank s"
  using assms
  by (cases "sloc s"; auto simp: semaphore_park_op_def semaphore_good_def semaphore_entered_def
    semaphore_rank_def semaphore_defs semaphore_values split: if_splits)+

lemma semaphore_blocked:
  assumes "semaphore_good n s" "semaphore_token s" "semaphore_park_op False s = None"
  shows "0 < n \<and> semaphore_rank (semaphore_signal s) < semaphore_rank s"
  using assms
  by (cases "sloc s") (auto simp: semaphore_park_op_def semaphore_good_def semaphore_rank_def
    semaphore_defs semaphore_values split: if_splits)

interpretation semaphore_impl: waiting_parker semaphore_ops semaphore_good semaphore_entered semaphore_rank
proof
  note defs = semaphore_good_def semaphore_entered_def semaphore_ok_def fresh_semaphore_def semaphore_token_def semaphore_values
  show "semaphore_good 0 (new_parker semaphore_ops)" "\<not> semaphore_entered (new_parker semaphore_ops)"
    "\<not> has_token semaphore_ops (new_parker semaphore_ops)"
    by (simp_all add: defs)
  show "semaphore_good n (renewed semaphore_ops s)" if "semaphore_good n s" "\<not> semaphore_entered s" for n s
    using that by (simp add: defs)
  show "\<not> semaphore_entered (renewed semaphore_ops s)" "\<not> has_token semaphore_ops (renewed semaphore_ops s)" for s
    by (simp_all add: defs)
  show "semaphore_good n s'" "semaphore_entered s' = (\<not> r)"
    if "semaphore_good n s" "park_op semaphore_ops sp s = Some (r, s')" for n sp r s s'
    using that semaphore_park_op_ok(1,2) by simp_all
  show "has_token semaphore_ops s' = has_token semaphore_ops s"
    if "semaphore_good n s" "park_op semaphore_ops sp s = Some (False, s')" for n sp s s'
    using that semaphore_park_op_ok(3) by fastforce
  show "has_token semaphore_ops s" if "semaphore_good n s" "park_op semaphore_ops sp s = Some (True, s')" for n sp s s'
    using that semaphore_park_op_ok(3) by fastforce
  show "semaphore_good (if c then Suc n else n) s'" if "semaphore_good n s" "unpark_op semaphore_ops s = (c, s')"
    for n s c s'
    using that by (auto simp: semaphore_good_def semaphore_defs semaphore_values split: slocation.splits)
  show "has_token semaphore_ops s' \<and> semaphore_entered s' = semaphore_entered s" if "unpark_op semaphore_ops s = (c, s')"
    for s c s'
    using that by (auto simp: semaphore_entered_def semaphore_token_def semaphore_unpark_def Let_def)
  show "semaphore_good n (call_op semaphore_ops s)" if "semaphore_good (Suc n) s" for n s
    using that by (auto simp: semaphore_good_def semaphore_defs split: slocation.splits)
  show "has_token semaphore_ops (call_op semaphore_ops s) = has_token semaphore_ops s"
    "semaphore_entered (call_op semaphore_ops s) = semaphore_entered s" for s
    by (simp_all add: semaphore_signal_def semaphore_token_def semaphore_entered_def Let_def)
  show "0 < n \<and> semaphore_rank (call_op semaphore_ops s) < semaphore_rank s"
    if "semaphore_good n s" "has_token semaphore_ops s" "park_op semaphore_ops False s = None" for n s
    using that semaphore_blocked by simp
  show "semaphore_rank s' < semaphore_rank s"
    if "semaphore_good n s" "has_token semaphore_ops s" "park_op semaphore_ops False s = Some (False, s')" for n s s'
    using semaphore_park_op_ok(4) [of n s False False] that by simp
  show "semaphore_entered s" if "semaphore_good (Suc n) s" for n s
    using that by (auto simp: semaphore_good_def semaphore_entered_def semaphore_ok_def)
qed

end
