(* ===== verification/Mutex_Semaphore.thy ===== *)
theory Mutex_Semaphore
  imports Mutex_Parkers Semaphore
begin

section \<open>RawMutex on semaphore parkers\<close>

text \<open>
  The machine of \<open>Mutex_Parkers\<close> with the parkers of \<open>Semaphore\<close>: the code on the Apple systems. The
  parker and its semaphore are part of the node, so \<open>unpark\<close> may use them only while the node is
  there; that it does is proved here. On the futex systems the late call is to an address alone.
\<close>

interpretation semaphore_mutex: mutex_on_waiting_parkers
    semaphore_ops semaphore_good semaphore_entered semaphore_rank
  by unfold_locales

text \<open>
  C21: the mutex on semaphore parkers refines the mutex on tokens: each step of a thread inside the lock,
  inside \<open>park\<close> or about to signal either leaves the abstract system as it is or is a step of that thread
  in it. So the lock excludes and no step touches a node that is gone.
\<close>

theorem semaphore_mutex_refines:
  assumes "mreach semaphore_ops c" "valid_ptr t"
  shows "mexec semaphore_ops e t c \<noteq> Fault \<and> reach (abs_sys semaphore_ops c) \<and>
    (mexec semaphore_ops e t c = Next c' \<longrightarrow> abs_sys semaphore_ops c' = abs_sys semaphore_ops c \<or>
      exec e t (abs_sys semaphore_ops c) = Next (abs_sys semaphore_ops c')) \<and>
    (holds (base c) t \<and> holds (base c) u \<longrightarrow> t = u)"
  by (rule semaphore_mutex.mutex_refines [OF assms])

theorem semaphore_mutex_refines_witness:
  "abs_sys semaphore_ops ((minit semaphore_ops 0 1)\<lparr>base := held_sys\<rparr>) = abs_sys semaphore_ops (minit semaphore_ops 0 1) \<or>
    exec (calm Call_lock) 8 (abs_sys semaphore_ops (minit semaphore_ops 0 1)) =
      Next (abs_sys semaphore_ops ((minit semaphore_ops 0 1)\<lparr>base := held_sys\<rparr>))"
  using semaphore_mutex_refines [OF mreach_init, of 8 "calm Call_lock" 0 1
    "(minit semaphore_ops 0 1)\<lparr>base := held_sys\<rparr>"] mexec_held [of semaphore_ops] by simp

text \<open>The system of mutex and parkers never comes to rest with a thread inside.\<close>

lemma semaphore_mutex_live:
  assumes "mreach semaphore_ops c" "pc (base c) x \<noteq> Idle"
  shows "\<exists>t c'. runnable semaphore_ops c t \<and> mexec semaphore_ops (calm Call_unlock) t c = Next c'"
  by (rule semaphore_mutex.mutex_live [OF assms])

subsection \<open>The life of the semaphore\<close>

lemma semaphore_at:
  assumes "mreach semaphore_ops c"
  shows "semaphore_ok (parker_at c p)" "sloc (parker_at c p) \<noteq> S_idle \<Longrightarrow> parked (pc (base c) p)"
  using parkers_okD(2,3) [OF semaphore_mutex.mreach_ok [OF assms], of p]
  by (simp_all add: semaphore_good_def semaphore_entered_def)

text \<open>
  C20: the semaphore is used and released as its contract asks: a thread that is about to signal finds its
  node, with the semaphore, still in memory and the owner still at \<open>park\<close>; and when a node is gone, its
  semaphore was released with the count it was made with, zero.
\<close>

theorem semaphore_used_in_time:
  assumes "mreach semaphore_ops c"
  shows "(calling c t = Some p \<longrightarrow> parked (pc (base c) p) \<and> (\<exists>d. heap (base c) p = Some d)) \<and>
    (heap (base c) p = None \<longrightarrow> sem_count (parker_at c p) = 0 \<and> signals (parker_at c p) = 0)"
proof -
  have "sem_count (parker_at c p) = 0 \<and> signals (parker_at c p) = 0" if gone: "heap (base c) p = None"
  proof -
    have "\<not> parked (pc (base c) p)" using gone semaphore_mutex.token_node [OF assms] by fastforce
    then have "sloc (parker_at c p) = S_idle" using semaphore_at(2) [OF assms] by blast
    then show ?thesis using semaphore_at(1) [OF assms, of p] by (simp add: semaphore_ok_def)
  qed
  then show ?thesis using semaphore_mutex.mutex_call_finds_node [OF assms] by blast
qed

text \<open>8 holds the lock, 16 waits on its semaphore; 8 unlocks and has stored \<open>NOTIFIED\<close>, but not signalled.\<close>

definition signal_schedule :: "(env \<times> ptr) list" where
  "signal_schedule = waiting_schedule @ [(calm Call_lock, 16)] @ replicate 10 (calm Call_unlock, 8)"

lemma signal_run: "\<exists>c. mreach semaphore_ops c \<and> calling c 8 = Some 16 \<and>
    sloc (parker_at c 16) = S_wait \<and> sstate (parker_at c 16) = S_NOTIFIED \<and> sem_count (parker_at c 16) = 0"
proof -
  have "case mrun semaphore_ops signal_schedule (minit semaphore_ops 0 1) of Blocked \<Rightarrow> False | Fault \<Rightarrow> False
    | Next c \<Rightarrow> calling c 8 = Some 16 \<and> sloc (parker_at c 16) = S_wait \<and>
        sstate (parker_at c 16) = S_NOTIFIED \<and> sem_count (parker_at c 16) = 0"
    by code_simp
  then obtain c where c: "mrun semaphore_ops signal_schedule (minit semaphore_ops 0 1) = Next c"
    "calling c 8 = Some 16" "sloc (parker_at c 16) = S_wait" "sstate (parker_at c 16) = S_NOTIFIED"
    "sem_count (parker_at c 16) = 0"
    unfolding outcome_case_iff by blast
  have "\<forall>p \<in> set signal_schedule. valid_ptr (snd p)"
    using schedule_valid(1) by (auto simp: signal_schedule_def)
  then show ?thesis using mreach_run [OF mreach_init _ c(1)] c(2-) by blast
qed

theorem semaphore_used_in_time_witness:
  "\<exists>c d. mreach semaphore_ops c \<and> calling c 8 = Some 16 \<and> heap (base c) 16 = Some d"
  using signal_run semaphore_used_in_time by blast

text \<open>
  Whoever was unparked gets out of \<open>park\<close>: from any reachable state in which a thread waits with
  its token set, three steps, its own or the signal that is under way to it, take it out, and into the
  critical section if the lock was handed to it.
\<close>

lemma semaphore_unparked_returns:
  assumes "mreach semaphore_ops c" "parked (pc (base c) t)" "sstate (parker_at c t) = S_NOTIFIED"
  shows "\<exists>ts c'. set ts \<subseteq> insert t (callers c t) \<and> length ts \<le> 3 \<and>
    alone_run mutex_client semaphore_ops (calm Call_unlock) ts c = Next c' \<and> out_of_park c t c'"
proof -
  have "semaphore_rank (parker_at c t) \<le> 2" by (simp add: semaphore_rank_def split: slocation.splits)
  then show ?thesis
    using semaphore_mutex.mutex_unparked_returns [OF assms(1,2)] assms(3)
    by (fastforce simp: semaphore_token_def)
qed

text \<open>
  C22: from \<open>lock\<close> down to the dispatch semaphore, a waiting thread can always be served: from every
  reachable system in which it is inside \<open>lock\<close>, also blocked on its semaphore, some finite interleaving
  of the threads that are inside an operation now and of the signals under way takes it into its
  critical section, and nobody has to call \<open>lock\<close> again.
\<close>

theorem semaphore_lock_obtainable:
  assumes "mreach semaphore_ops c" "inside_lock (pc (base c) t)"
  shows "\<exists>ts c'. alone_run mutex_client semaphore_ops (calm Call_unlock) ts c = Next c' \<and> pc (base c') t = Critical"
  by (rule semaphore_mutex.mutex_obtainable [OF assms])

theorem semaphore_lock_obtainable_witness:
  "\<exists>c ts c'. sloc (parker_at c 16) = S_wait \<and> sem_count (parker_at c 16) = 0 \<and>
    alone_run mutex_client semaphore_ops (calm Call_unlock) ts c = Next c' \<and> pc (base c') 16 = Critical"
proof -
  obtain c where c: "mreach semaphore_ops c" "sloc (parker_at c 16) = S_wait" "sem_count (parker_at c 16) = 0"
    using signal_run by blast
  have "parked (pc (base c) 16)" using semaphore_at(2) [OF c(1), of 16] c(2) by simp
  then have "inside_lock (pc (base c) 16)" by (cases "pc (base c) 16") simp_all
  from semaphore_lock_obtainable [OF c(1) this] show ?thesis using c by blast
qed

end
