(* ===== verification/Parking_Queue.thy ===== *)
theory Parking_Queue
  imports Raw_Mutex
begin

section \<open>ParkingQueue (parking/auxiliary.rs)\<close>

text \<open>
  The queue on which a WaitGroup parks its waiters, as a machine of atomic steps like RawMutex:
  threads are the addresses of their nodes, a node exists from the push until the closure of
  \<open>with_thread_data\<close> returns, access to a missing node is \<open>Fault\<close>. \<open>'c\<close> is the state of the
  client; \<open>retry\<close>, the closure that \<open>park\<close> is given, is a function of it and an argument.
\<close>

definition QUEUE_CLEAR_BIT :: u64 where "QUEUE_CLEAR_BIT = 1"

text \<open>
  Locations, with the live locals: the spin counter, the local \<open>state\<close>, and in \<open>abort_self\<close> the
  cursor and its predecessor. \<open>Q_panicked\<close> is a failed assertion of the client.
\<close>

datatype qpc =
    Q_idle
  | Q_panicked
  | Q_retry spin_wait
  | Q_load spin_wait
  | Q_push spin_wait u64
  | Q_recheck spin_wait
  | Q_parked spin_wait
  | A_load spin_wait
  | A_lock spin_wait u64
  | A_walk spin_wait u64 ptr ptr
  | A_cas spin_wait u64 ptr
  | A_unlock spin_wait
  | A_unpark spin_wait
  | U_load spin_wait
  | U_loop spin_wait u64
  | U_head ptr
  | U_walk ptr
  | U_unpark ptr ptr
  | U_reload
  | U_cut u64

record 'c queue_sys =
  qstate :: u64
  qheap :: "ptr \<Rightarrow> thread_data option"
  client :: 'c
  qpc :: "ptr \<Rightarrow> qpc"

definition parking_queue_new :: "'c \<Rightarrow> 'c queue_sys" where
  "parking_queue_new c =
    \<lparr>qstate = IDLE, qheap = (\<lambda>_. None), client = c, qpc = (\<lambda>_. Q_idle)\<rparr>"

definition qgoto :: "ptr \<Rightarrow> qpc \<Rightarrow> 'c queue_sys \<Rightarrow> 'c queue_sys" where
  "qgoto t c s = s\<lparr>qpc := (qpc s)(t := c)\<rparr>"

definition qstore :: "u64 \<Rightarrow> 'c queue_sys \<Rightarrow> 'c queue_sys" where
  "qstore w s = s\<lparr>qstate := w\<rparr>"

definition qwrite :: "ptr \<Rightarrow> thread_data \<Rightarrow> 'c queue_sys \<Rightarrow> 'c queue_sys" where
  "qwrite p d s = s\<lparr>qheap := (qheap s)(p \<mapsto> d)\<rparr>"

definition qderef :: "'c queue_sys \<Rightarrow> ptr \<Rightarrow> (thread_data \<Rightarrow> 'a outcome) \<Rightarrow> 'a outcome" where
  "qderef s p k = (case qheap s p of None \<Rightarrow> Fault | Some d \<Rightarrow> k d)"

definition qcas_ok :: "bool \<Rightarrow> 'c queue_sys \<Rightarrow> u64 \<Rightarrow> bool" where
  "qcas_ok sp s old \<longleftrightarrow> \<not> sp \<and> qstate s = old"

text \<open>The closure of \<open>with_thread_data\<close> returns: the node is gone and the loop of \<open>park\<close> goes on.\<close>

definition closure_return :: "ptr \<Rightarrow> spin_wait \<Rightarrow> 'c queue_sys \<Rightarrow> 'c queue_sys" where
  "closure_return t w s = qgoto t (Q_retry w) (s\<lparr>qheap := (qheap s)(t := None)\<rparr>)"

subsection \<open>park\<close>

definition queue_park_retry :: "('c \<Rightarrow> bool) \<Rightarrow> ptr \<Rightarrow> spin_wait \<Rightarrow> 'c queue_sys \<Rightarrow> 'c queue_sys outcome" where
  "queue_park_retry retry t w s =
    (if retry (client s) then Next (qgoto t Q_idle s)
     else if spins w then Next (qgoto t (Q_retry (after_spin w)) s)
     else Next (qgoto t (Q_load (after_spin w)) s))"

definition queue_park_load :: "ptr \<Rightarrow> spin_wait \<Rightarrow> 'c queue_sys \<Rightarrow> 'c queue_sys outcome" where
  "queue_park_load t w s = Next (qgoto t (Q_push w (qstate s)) s)"

text \<open>
  The node that is filled in before the push; \<open>d\<close> is what \<open>with_thread_data\<close> provides, here a new
  \<open>ThreadData\<close>. On an empty queue \<open>next\<close> is left as it is.
\<close>

definition queue_node :: "thread_data \<Rightarrow> ptr \<Rightarrow> u64 \<Rightarrow> thread_data" where
  "queue_node d t st =
    (let d = d\<lparr>unpark_token := 0\<rparr>; head = queue_head st in
     if head = null then d\<lparr>queue_tail := t, prev := null\<rparr>
     else d\<lparr>queue_tail := null, prev := null, next := head\<rparr>)"

definition queue_park_push :: "bool \<Rightarrow> ptr \<Rightarrow> spin_wait \<Rightarrow> u64 \<Rightarrow> 'c queue_sys \<Rightarrow> 'c queue_sys outcome" where
  "queue_park_push sp t w st s =
    (if qcas_ok sp s st
     then Next (qgoto t (Q_recheck w) (qstore (set_queue_head st t) (qwrite t (queue_node thread_data_new t st) s)))
     else Next (qgoto t (Q_retry (spin_wait_reset w)) s))"

definition queue_park_recheck :: "('c \<Rightarrow> bool) \<Rightarrow> ptr \<Rightarrow> spin_wait \<Rightarrow> 'c queue_sys \<Rightarrow> 'c queue_sys outcome" where
  "queue_park_recheck retry t w s =
    (if retry (client s) then Next (qgoto t (A_load w) s) else Next (qgoto t (Q_parked w) s))"

definition queue_park_sleep :: "ptr \<Rightarrow> spin_wait \<Rightarrow> 'c queue_sys \<Rightarrow> 'c queue_sys outcome" where
  "queue_park_sleep t w s =
    qderef s t (\<lambda>d. if parker d then Next (closure_return t w s) else Blocked)"

subsection \<open>abort\_self\<close>

text \<open>\<open>try_lock_queue!\<close>: give up on a locked, cleared or empty queue, else try the exchange.\<close>

definition try_lock_queue :: "ptr \<Rightarrow> spin_wait \<Rightarrow> u64 \<Rightarrow> 'c queue_sys \<Rightarrow> 'c queue_sys outcome" where
  "try_lock_queue t w st s =
    (if is_queue_locked st \<or> st AND QUEUE_CLEAR_BIT \<noteq> 0 \<or> queue_head st = null
     then Next (closure_return t w s)
     else Next (qgoto t (A_lock w st) s))"

definition abort_lock :: "bool \<Rightarrow> ptr \<Rightarrow> spin_wait \<Rightarrow> u64 \<Rightarrow> 'c queue_sys \<Rightarrow> 'c queue_sys outcome" where
  "abort_lock sp t w st s =
    (if qcas_ok sp s st
     then Next (qgoto t (A_walk w st (queue_head st) null) (qstore (st OR QUEUE_LOCKED_BIT) s))
     else try_lock_queue t w (qstate s) s)"

definition abort_walk :: "ptr \<Rightarrow> spin_wait \<Rightarrow> u64 \<Rightarrow> ptr \<Rightarrow> ptr \<Rightarrow> 'c queue_sys \<Rightarrow> 'c queue_sys outcome" where
  "abort_walk t w st cur prv s =
    (if cur = null then
       Next (qgoto t (A_walk w st (queue_head st) null)
         (qstore (qstate s AND NOT QUEUE_LOCKED_BIT) s))
     else qderef s cur (\<lambda>d.
       if cur \<noteq> t then Next (qgoto t (A_walk w st (next d) cur) s)
       else if prv = null then
         (if next d = null then Next (qgoto t (A_cas w st null) s)
          else qderef s (next d) (\<lambda>n.
            Next (qgoto t (A_cas w st (next d)) (qwrite (next d) (n\<lparr>queue_tail := queue_tail d\<rparr>) s))))
       else qderef s prv (\<lambda>p.
         Next (qgoto t (A_unlock w) (qwrite prv (p\<lparr>next := next d\<rparr>) s)))))"

definition abort_cas :: "bool \<Rightarrow> ptr \<Rightarrow> spin_wait \<Rightarrow> u64 \<Rightarrow> ptr \<Rightarrow> 'c queue_sys \<Rightarrow> 'c queue_sys outcome" where
  "abort_cas sp t w st new_head s =
    (if qcas_ok sp s st
     then Next (qgoto t (A_unpark w) (qstore (set_queue_head st new_head AND NOT QUEUE_LOCKED_BIT) s))
     else Next (qgoto t (A_walk w (qstate s) (queue_head (qstate s)) null) s))"

definition abort_unlock :: "ptr \<Rightarrow> spin_wait \<Rightarrow> 'c queue_sys \<Rightarrow> 'c queue_sys outcome" where
  "abort_unlock t w s =
    Next (qgoto t (A_unpark w) (qstore (qstate s AND NOT QUEUE_LOCKED_BIT) s))"

text \<open>The thread unparks its own node and returns.\<close>

definition abort_unpark :: "ptr \<Rightarrow> spin_wait \<Rightarrow> 'c queue_sys \<Rightarrow> 'c queue_sys outcome" where
  "abort_unpark t w s =
    qderef s t (\<lambda>d. Next (closure_return t w (qwrite t (d\<lparr>parker := True\<rparr>) s)))"

subsection \<open>unpark\_all\<close>

definition unpark_all_load :: "ptr \<Rightarrow> spin_wait \<Rightarrow> 'c queue_sys \<Rightarrow> 'c queue_sys outcome" where
  "unpark_all_load t w s = Next (qgoto t (U_loop w (qstate s)) s)"

definition unpark_all_loop :: "bool \<Rightarrow> ptr \<Rightarrow> spin_wait \<Rightarrow> u64 \<Rightarrow> 'c queue_sys \<Rightarrow> 'c queue_sys outcome" where
  "unpark_all_loop sp t w st s =
    (if st AND QUEUE_CLEAR_BIT \<noteq> 0 then Next (qgoto t Q_idle s)
     else if is_queue_locked st then
       (let w' = (if spins w then after_spin w else spin_wait_reset (after_spin w)) in
        Next (qgoto t (U_loop w' (qstate s)) s))
     else if qcas_ok sp s st then
       Next (qgoto t (U_head (queue_head st)) (qstore QUEUE_CLEAR_BIT s))
     else Next (qgoto t (U_loop w (qstate s)) s))"

definition unpark_all_head :: "ptr \<Rightarrow> ptr \<Rightarrow> 'c queue_sys \<Rightarrow> 'c queue_sys outcome" where
  "unpark_all_head t h s =
    (if h = null then Next (qgoto t Q_idle (qstore (qstate s AND NOT QUEUE_CLEAR_BIT) s))
     else Next (qgoto t (U_walk h) s))"

text \<open>\<open>next\<close> is read before the node is unparked, because its owner may then be gone.\<close>

definition unpark_all_walk :: "ptr \<Rightarrow> ptr \<Rightarrow> 'c queue_sys \<Rightarrow> 'c queue_sys outcome" where
  "unpark_all_walk t h s =
    (if h = null then Next (qgoto t U_reload s)
     else qderef s h (\<lambda>d. Next (qgoto t (U_unpark h (next d)) s)))"

definition unpark_all_unpark :: "ptr \<Rightarrow> ptr \<Rightarrow> ptr \<Rightarrow> 'c queue_sys \<Rightarrow> 'c queue_sys outcome" where
  "unpark_all_unpark t h new_head s =
    qderef s h (\<lambda>d. Next (qgoto t (U_walk new_head) (qwrite h (d\<lparr>parker := True\<rparr>) s)))"

definition unpark_all_cut :: "bool \<Rightarrow> ptr \<Rightarrow> u64 \<Rightarrow> 'c queue_sys \<Rightarrow> 'c queue_sys outcome" where
  "unpark_all_cut sp t st s =
    (if qcas_ok sp s st then Next (qgoto t (U_head (queue_head st)) (qstore QUEUE_CLEAR_BIT s))
     else Next (qgoto t (U_cut (qstate s)) s))"

subsection \<open>One step of a thread inside an operation\<close>

definition queue_exec :: "('c \<Rightarrow> bool) \<Rightarrow> bool \<Rightarrow> ptr \<Rightarrow> 'c queue_sys \<Rightarrow> 'c queue_sys outcome" where
  "queue_exec retry sp t s =
    (case qpc s t of
       Q_idle \<Rightarrow> Blocked
     | Q_panicked \<Rightarrow> Blocked
     | Q_retry w \<Rightarrow> queue_park_retry retry t w s
     | Q_load w \<Rightarrow> queue_park_load t w s
     | Q_push w st \<Rightarrow> queue_park_push sp t w st s
     | Q_recheck w \<Rightarrow> queue_park_recheck retry t w s
     | Q_parked w \<Rightarrow> queue_park_sleep t w s
     | A_load w \<Rightarrow> try_lock_queue t w (qstate s) s
     | A_lock w st \<Rightarrow> abort_lock sp t w st s
     | A_walk w st cur prv \<Rightarrow> abort_walk t w st cur prv s
     | A_cas w st nh \<Rightarrow> abort_cas sp t w st nh s
     | A_unlock w \<Rightarrow> abort_unlock t w s
     | A_unpark w \<Rightarrow> abort_unpark t w s
     | U_load w \<Rightarrow> unpark_all_load t w s
     | U_loop w st \<Rightarrow> unpark_all_loop sp t w st s
     | U_head h \<Rightarrow> unpark_all_head t h s
     | U_walk h \<Rightarrow> unpark_all_walk t h s
     | U_unpark h nh \<Rightarrow> unpark_all_unpark t h nh s
     | U_reload \<Rightarrow> Next (qgoto t (U_cut (qstate s)) s)
     | U_cut st \<Rightarrow> unpark_all_cut sp t st s)"

lemmas queue_steps = queue_exec_def queue_park_retry_def queue_park_load_def queue_park_push_def
  queue_park_recheck_def queue_park_sleep_def try_lock_queue_def abort_lock_def abort_walk_def
  abort_cas_def abort_unlock_def abort_unpark_def unpark_all_load_def unpark_all_loop_def
  unpark_all_head_def unpark_all_walk_def unpark_all_unpark_def unpark_all_cut_def qderef_def Let_def

lemma queue_simps [simp]:
  "qstate (qgoto t c s) = qstate s" "qheap (qgoto t c s) = qheap s" "client (qgoto t c s) = client s"
  "qpc (qgoto t c s) = (qpc s)(t := c)"
  "qstate (qstore v s) = v" "qheap (qstore v s) = qheap s" "client (qstore v s) = client s"
  "qpc (qstore v s) = qpc s"
  "qstate (qwrite p d s) = qstate s" "qheap (qwrite p d s) = (qheap s)(p \<mapsto> d)"
  "client (qwrite p d s) = client s" "qpc (qwrite p d s) = qpc s"
  "qstate (closure_return t w s) = qstate s" "qheap (closure_return t w s) = (qheap s)(t := None)"
  "client (closure_return t w s) = client s" "qpc (closure_return t w s) = (qpc s)(t := Q_retry w)"
  by (simp_all add: qgoto_def qstore_def qwrite_def closure_return_def)

subsection \<open>What the client of \<open>park\<close> relies on\<close>

text \<open>
  The contract of a queue that waits for a condition: its steps do not touch the client's state,
  a thread moves only itself, and it leaves only when the condition held in its own step.
\<close>

primrec run_steps :: "('e \<Rightarrow> 's \<Rightarrow> 's outcome) \<Rightarrow> 'e list \<Rightarrow> 's \<Rightarrow> 's outcome" where
  "run_steps step [] s = Next s"
| "run_steps step (e # es) s = (case step e s of Next s' \<Rightarrow> run_steps step es s' | r \<Rightarrow> r)"

lemma goes_round_forever:
  assumes "step e s = Next s1" "step e s1 = Next s"
  shows "run_steps step (replicate n e) s = Next (if even n then s else s1)"
proof -
  have "run_steps step (replicate n e) s = Next (if even n then s else s1) \<and>
      run_steps step (replicate n e) s1 = Next (if even n then s1 else s)"
    by (induction n) (use assms in auto)
  then show ?thesis by blast
qed

locale retry_queue =
  fixes step :: "bool \<Rightarrow> ptr \<Rightarrow> 's \<Rightarrow> 's outcome" and client_of :: "'s \<Rightarrow> 'c"
    and retry :: "'c \<Rightarrow> bool" and inside :: "'s \<Rightarrow> ptr \<Rightarrow> bool"
  assumes keeps: "step sp t s = Next s' \<Longrightarrow> client_of s' = client_of s"
    and others: "step sp t s = Next s' \<Longrightarrow> u \<noteq> t \<Longrightarrow> inside s' u = inside s u"
    and leaves: "step sp t s = Next s' \<Longrightarrow> inside s t \<Longrightarrow> \<not> inside s' t \<Longrightarrow> retry (client_of s)"
begin

lemma stays_inside:
  "step sp t s = Next s' \<Longrightarrow> inside s u \<Longrightarrow> \<not> retry (client_of s) \<Longrightarrow> inside s' u"
  by (cases "u = t") (blast dest: leaves, simp add: others)

text \<open>Nobody leaves while the condition does not hold, however long the queue runs.\<close>

lemma stays_inside_run:
  "run_steps (\<lambda>p. step (fst p) (snd p)) ps s = Next s' \<Longrightarrow> inside s u \<Longrightarrow> \<not> retry (client_of s) \<Longrightarrow>
    inside s' u \<and> client_of s' = client_of s"
proof (induction ps arbitrary: s)
  case (Cons p ps)
  from Cons.prems(1) obtain s1 where s1: "step (fst p) (snd p) s = Next s1"
    "run_steps (\<lambda>p. step (fst p) (snd p)) ps s1 = Next s'"
    by (auto split: outcome.splits)
  then show ?case
    using Cons.IH [OF s1(2)] stays_inside [OF s1(1) Cons.prems(2,3)] keeps [OF s1(1)] Cons.prems(3) by simp
qed simp

end

fun waiting_pc :: "qpc \<Rightarrow> bool" where
  "waiting_pc Q_idle = False"
| "waiting_pc Q_panicked = False"
| "waiting_pc (U_load w) = False"
| "waiting_pc (U_loop w st) = False"
| "waiting_pc (U_head h) = False"
| "waiting_pc (U_walk h) = False"
| "waiting_pc (U_unpark h n) = False"
| "waiting_pc U_reload = False"
| "waiting_pc (U_cut st) = False"
| "waiting_pc _ = True"

lemma queue_exec_other: "queue_exec retry sp t s = Next s' \<Longrightarrow> u \<noteq> t \<Longrightarrow> qpc s' u = qpc s u"
  by (cases "qpc s t") (auto simp: queue_steps split: if_splits option.splits)

lemma queue_exec_client: "queue_exec retry sp t s = Next s' \<Longrightarrow> client s' = client s"
  by (cases "qpc s t") (auto simp: queue_steps split: if_splits option.splits)

lemma queue_exec_leaves_idle:
  assumes "queue_exec retry sp t s = Next s'" "waiting_pc (qpc s t)" "\<not> waiting_pc (qpc s' t)"
  shows "qpc s' t = Q_idle" "retry (client s)"
  using assms by (cases "qpc s t"; auto simp: queue_steps split: if_splits option.splits)+

interpretation queue: retry_queue "queue_exec retry" client retry "\<lambda>s t. waiting_pc (qpc s t)" for retry
  by unfold_locales (auto simp: queue_exec_other queue_exec_client dest: queue_exec_leaves_idle(2))

subsection \<open>The node of a push\<close>

text \<open>
  A thread-local \<open>ThreadData\<close> that is used again keeps its old \<open>next\<close> when it is pushed on an empty
  queue: the list does not end there. The platforms modelled here make a new one for each push.
\<close>

lemma reused_node_keeps_next: "queue_head st = null \<Longrightarrow> next (queue_node d t st) = next d"
  by (simp add: queue_node_def Let_def)

lemma queue_node_new:
  "\<not> parker (queue_node thread_data_new t st)" "next (queue_node thread_data_new t st) = queue_head st"
  "prev (queue_node thread_data_new t st) = null"
  "queue_tail (queue_node thread_data_new t st) = (if queue_head st = null then t else null)"
  by (auto simp: queue_node_def Let_def thread_data_new_def)

subsection \<open>Every pointer is null or the address of a node\<close>

definition ptr_ok :: "ptr \<Rightarrow> bool" where
  "ptr_ok p \<longleftrightarrow> p = null \<or> valid_ptr p"

fun pc_typed :: "qpc \<Rightarrow> bool" where
  "pc_typed (A_walk w st cur prv) = (ptr_ok cur \<and> ptr_ok prv)"
| "pc_typed (A_cas w st nh) = ptr_ok nh"
| "pc_typed (U_head h) = ptr_ok h"
| "pc_typed (U_walk h) = ptr_ok h"
| "pc_typed (U_unpark h nh) = (valid_ptr h \<and> ptr_ok nh)"
| "pc_typed _ = True"

definition queue_typed :: "'c queue_sys \<Rightarrow> bool" where
  "queue_typed s \<longleftrightarrow>
    (\<forall>p d. qheap s p = Some d \<longrightarrow> valid_ptr p \<and> ptr_ok (next d) \<and> ptr_ok (queue_tail d) \<and> prev d = null) \<and>
    (\<forall>t. pc_typed (qpc s t)) \<and> \<not> timeout (qstate s)"

lemma ptr_ok_simps [simp]: "ptr_ok null" "ptr_ok (queue_head w)"
proof -
  have "queue_head w AND 7 = 0"
    by (rule bit_word_eqI) (auto simp: bit_and_iff bit_queue_head low_bits)
  then show "ptr_ok (queue_head w)" by (simp add: ptr_ok_def valid_ptr_def)
qed (simp add: ptr_ok_def)

lemma queue_typed_heap:
  "queue_typed s \<Longrightarrow> qheap s p = Some d \<Longrightarrow> valid_ptr p \<and> ptr_ok (next d) \<and> ptr_ok (queue_tail d) \<and> prev d = null"
  by (simp add: queue_typed_def)

text \<open>So an exchange of the head leaves the flags alone; \<open>TIMEOUT_BIT\<close> is never set.\<close>

lemma set_queue_head_flags:
  assumes "ptr_ok p"
  shows "locked (set_queue_head w p) = locked w" "qlocked (set_queue_head w p) = qlocked w"
    "timeout (set_queue_head w p) = timeout w"
proof -
  have "\<not> bit p n" if "n < 3" for n
    using assms that valid_ptr_bits [of p n] by (auto simp: ptr_ok_def)
  from this [of 0] this [of 1] this [of 2]
  show "locked (set_queue_head w p) = locked w" "qlocked (set_queue_head w p) = qlocked w"
    "timeout (set_queue_head w p) = timeout w"
    by (auto simp: set_queue_head_def bit_simps bit_consts low_bits)
qed

lemma queue_word_timeout:
  "\<not> timeout QUEUE_CLEAR_BIT" "timeout (w AND NOT QUEUE_CLEAR_BIT) = timeout w"
  "timeout (w OR QUEUE_LOCKED_BIT) = timeout w" "timeout (w AND NOT QUEUE_LOCKED_BIT) = timeout w" for w :: u64
  using idle_layout(7) and_not_layout(3,7) [of w] or_layout(7) [of w]
  by (simp_all only: QUEUE_CLEAR_BIT_def LOCKED_BIT_def simp_thms)

lemma queue_exec_word:
  assumes "queue_typed s" "valid_ptr t" "queue_exec retry sp t s = Next s'"
  shows "\<not> timeout (qstate s')"
proof -
  have "pc_typed (qpc s t)" "\<not> timeout (qstate s)" using assms(1) by (simp_all add: queue_typed_def)
  moreover have "ptr_ok t" using assms(2) by (simp add: ptr_ok_def)
  ultimately show ?thesis
    using assms(3) set_queue_head_flags(3)
    by (cases "qpc s t")
       (auto simp: queue_steps qcas_ok_def queue_word_timeout simp del: bit_and_iff bit_or_iff
         split: if_splits option.splits)
qed

lemma queue_exec_typed:
  assumes "queue_typed s" "valid_ptr t" "queue_exec retry sp t s = Next s'"
  shows "queue_typed s'"
proof -
  have pc: "pc_typed (qpc s t)" using assms(1) by (simp add: queue_typed_def)
  show ?thesis
    using assms(2,3) pc queue_typed_heap [OF assms(1)] assms(1) queue_exec_word [OF assms]
    by (cases "qpc s t")
       (auto simp: queue_steps queue_typed_def queue_node_new ptr_ok_def [of t]
         split: if_splits option.splits)
qed

subsection \<open>Where the pointers come from\<close>

text \<open>The thread sleeps, or is about to, and its node is in memory; \<open>aborting\<close>: it is in \<open>abort_self\<close>.\<close>

fun qwaits :: "qpc \<Rightarrow> bool" where
  "qwaits (Q_recheck w) = True"
| "qwaits (Q_parked w) = True"
| "qwaits _ = False"

fun aborting :: "qpc \<Rightarrow> bool" where
  "aborting (A_load w) = True"
| "aborting (A_lock w st) = True"
| "aborting (A_walk w st cur prv) = True"
| "aborting (A_cas w st nh) = True"
| "aborting (A_unlock w) = True"
| "aborting (A_unpark w) = True"
| "aborting _ = False"

text \<open>The pointers that a thread has in its locals, also inside a word it has read.\<close>

fun pc_ptrs :: "qpc \<Rightarrow> ptr set" where
  "pc_ptrs (Q_push w st) = {queue_head st}"
| "pc_ptrs (A_lock w st) = {queue_head st}"
| "pc_ptrs (A_walk w st cur prv) = {queue_head st, cur, prv}"
| "pc_ptrs (A_cas w st nh) = {queue_head st, nh}"
| "pc_ptrs (U_loop w st) = {queue_head st}"
| "pc_ptrs (U_head h) = {h}"
| "pc_ptrs (U_walk h) = {h}"
| "pc_ptrs (U_unpark h nh) = {h, nh}"
| "pc_ptrs (U_cut st) = {queue_head st}"
| "pc_ptrs _ = {}"

text \<open>All pointers there are: in the word, in the nodes in memory and in the locals.\<close>

definition ptrs_in :: "ptr set \<Rightarrow> 'c queue_sys \<Rightarrow> bool" where
  "ptrs_in N s \<longleftrightarrow> queue_head (qstate s) \<in> N \<and>
    (\<forall>p d. qheap s p = Some d \<longrightarrow> next d \<in> N \<and> queue_tail d \<in> N \<and> prev d \<in> N) \<and>
    (\<forall>t. pc_ptrs (qpc s t) \<subseteq> N)"

lemma ptrs_inD:
  assumes "ptrs_in N s"
  shows "queue_head (qstate s) \<in> N" "qheap s p = Some d \<Longrightarrow> next d \<in> N \<and> queue_tail d \<in> N \<and> prev d \<in> N"
    "pc_ptrs (qpc s t) \<subseteq> N"
  using assms by (auto simp: ptrs_in_def)

lemma ptrs_in_mono: "ptrs_in N s \<Longrightarrow> N \<subseteq> M \<Longrightarrow> ptrs_in M s"
  unfolding ptrs_in_def by blast

lemma queue_head_set: "ptr_ok p \<Longrightarrow> queue_head (set_queue_head w p) = p"
  using set_queue_head_layout(4) [of p w]
  by (auto simp: ptr_ok_def set_queue_head_def bit_queue_head bit_simps queue_head_def
    intro!: bit_word_eqI)

lemma queue_word_head:
  "queue_head QUEUE_CLEAR_BIT = null" "queue_head (w AND NOT QUEUE_CLEAR_BIT) = queue_head w"
  "queue_head (w OR QUEUE_LOCKED_BIT) = queue_head w"
  "queue_head (w AND NOT QUEUE_LOCKED_BIT) = queue_head w" for w :: u64
  using idle_layout and_not_layout(4,8) [of w] or_layout(8) [of w]
  by (simp_all only: QUEUE_CLEAR_BIT_def LOCKED_BIT_def simp_thms)

lemma queue_exec_head:
  assumes "queue_typed s" "valid_ptr t" "queue_exec retry sp t s = Next s'"
  shows "queue_head (qstate s') \<in> {queue_head (qstate s), null} \<union> pc_ptrs (qpc s t) \<or>
    queue_head (qstate s') = t \<and> qheap s' t \<noteq> None"
proof -
  have "pc_typed (qpc s t)" using assms(1) by (simp add: queue_typed_def)
  moreover have "ptr_ok t" using assms(2) by (simp add: ptr_ok_def)
  ultimately show ?thesis
    using assms(3)
    by (cases "qpc s t")
       (auto simp: queue_steps qcas_ok_def queue_word_head queue_head_set simp del: bit_and_iff bit_or_iff
         split: if_splits option.splits)
qed

text \<open>A step makes no pointer: the only new one is the address of the node it has pushed.\<close>

lemma queue_exec_ptrs:
  assumes "ptrs_in N s" "null \<in> N" "dom (qheap s') \<subseteq> N" "queue_typed s" "valid_ptr t"
    "queue_exec retry sp t s = Next s'"
  shows "ptrs_in N s'"
proof -
  note I = ptrs_inD [OF assms(1)]
  have "queue_head (qstate s') \<in> N"
    using queue_exec_head [OF assms(4-6)] I(1) I(3) [of t] assms(2,3) by auto
  moreover have "next d \<in> N \<and> queue_tail d \<in> N \<and> prev d \<in> N" if "qheap s' p = Some d" for p d
    using assms(2,3,6) I(1) I(3) [of t] I(2) that
    by (cases "qpc s t")
       (auto simp: queue_steps queue_node_new split: if_splits option.splits)
  moreover have "pc_ptrs (qpc s' u) \<subseteq> N" for u
  proof (cases "u = t")
    case True
    then show ?thesis
      using assms(2,6) I(1) I(3) [of t] I(2)
      by (cases "qpc s t") (auto simp: queue_steps split: if_splits option.splits)
  next
    case False
    then show ?thesis using queue_exec_other [OF assms(6)] I(3) [of u] by simp
  qed
  ultimately show ?thesis by (simp add: ptrs_in_def)
qed

text \<open>A node is in memory exactly while its thread is inside the closure of \<open>with_thread_data\<close>.\<close>

definition nodes_live :: "'c queue_sys \<Rightarrow> bool" where
  "nodes_live s \<longleftrightarrow> (\<forall>t. qheap s t \<noteq> None \<longleftrightarrow> qwaits (qpc s t) \<or> aborting (qpc s t))"

lemma queue_exec_live:
  assumes "nodes_live s" "queue_exec retry sp t s = Next s'"
  shows "nodes_live s'"
  using assms
  by (cases "qpc s t") (auto simp: queue_steps nodes_live_def split: if_splits option.splits)

end
