(* ===== verification/Mutex_Tls.thy ===== *)
theory Mutex_Tls
  imports Raw_Mutex_Props Parking_Queue
begin

section \<open>RawMutex on the pthread platforms\<close>

text \<open>
  On the remaining Unix systems \<open>with_thread_data\<close> hands out a thread-local \<open>ThreadData\<close>, which is
  used again for every push and never goes away, and the parker is the one of \<open>Pthread\<close>, whose
  \<open>park\<close> returns at once (\<open>pthread_never_parks\<close>). Everything else is the machine of \<open>Raw_Mutex\<close>.
\<close>

text \<open>The thread-local: made by \<open>ThreadData::new\<close> at its first use.\<close>

definition tls_node :: "ptr \<Rightarrow> sys \<Rightarrow> thread_data" where
  "tls_node t s = (case heap s t of None \<Rightarrow> thread_data_new | Some d \<Rightarrow> d)"

text \<open>\<open>park!\<close> resets the token and the pointers it needs; on an empty queue \<open>next\<close> stays.\<close>

definition tls_fill :: "thread_data \<Rightarrow> ptr \<Rightarrow> u64 \<Rightarrow> thread_data" where
  "tls_fill d t st =
    (let d = d\<lparr>unpark_token := 0\<rparr>; head = queue_head st in
     if head = null then d\<lparr>queue_tail := t, prev := null\<rparr>
     else d\<lparr>queue_tail := null, prev := null, next := head\<rparr>)"

lemma tls_fill_new: "tls_fill thread_data_new t st = park_node t st"
  by (simp add: tls_fill_def park_node_def)

text \<open>The node is filled in before the exchange, and stays as it is when the exchange fails.\<close>

definition tls_lock_push :: "env \<Rightarrow> ptr \<Rightarrow> spin_wait \<Rightarrow> u64 \<Rightarrow> sys \<Rightarrow> sys outcome" where
  "tls_lock_push e t w st s =
    (let s1 = write_node t (tls_fill (tls_node t s) t st) s in
     if cas_ok e s st then Next (goto t (Parked w) (store (set_queue_head st t) s1))
     else Next (goto t (Slow_loop w (state s)) s1))"

text \<open>\<open>park\<close> does not block; the token is read and the thread-local stays.\<close>

definition tls_park_return :: "ptr \<Rightarrow> spin_wait \<Rightarrow> sys \<Rightarrow> sys outcome" where
  "tls_park_return t w s =
    deref s t (\<lambda>d.
      if unpark_token d = TOKEN_HANDOFF then Next (goto t Critical s)
      else Next (goto t (Slow_load (spin_wait_reset w)) s))"

definition tls_lock_slow_loop :: "env \<Rightarrow> ptr \<Rightarrow> spin_wait \<Rightarrow> u64 \<Rightarrow> sys \<Rightarrow> sys outcome" where
  "tls_lock_slow_loop e t w st s =
    (if st AND LOCKED_BIT = 0 then
       (if cas_ok e s st then Next (goto t Critical (store (st OR LOCKED_BIT) s))
        else Next (goto t (Slow_loop w (state s)) s))
     else if queue_head st = null then
       (if spins w then Next (goto t (Slow_loop (after_spin w) (state s)) s)
        else tls_lock_push e t (after_spin w) st s)
     else tls_lock_push e t w st s)"

definition tls_mutex_exec :: "env \<Rightarrow> ptr \<Rightarrow> sys \<Rightarrow> sys outcome" where
  "tls_mutex_exec e t s =
    (case pc s t of
       Slow_loop w st \<Rightarrow> tls_lock_slow_loop e t w st s
     | Parked w \<Rightarrow> tls_park_return t w s
     | _ \<Rightarrow> exec e t s)"

definition tls_mutex_run :: "(env \<times> ptr) list \<Rightarrow> sys \<Rightarrow> sys outcome" where
  "tls_mutex_run = run_steps (\<lambda>p. tls_mutex_exec (fst p) (snd p))"

text \<open>
  8 holds the lock. 16 pushes its node, \<open>park\<close> returns, it reads the state and pushes the node again,
  now on top of itself. Then 8 unlocks.
\<close>

definition relocked_schedule :: "(env \<times> ptr) list" where
  "relocked_schedule = waiting_schedule @ replicate 3 (calm Call_lock, 16) @ replicate 5 (calm Call_unlock, 8)"

lemma scan_on_itself:
  assumes "pc s t = Scan m st x" "heap s x = Some d" "queue_tail d = null" "next d = x" "prev d = x"
  shows "tls_mutex_exec e t s = Next s"
proof -
  have "d\<lparr>prev := x\<rparr> = d" using assms(5) by simp
  then have "goto t (Scan m st x) (write_node x (d\<lparr>prev := x\<rparr>) s) = s"
    using assms(1,2) by (simp add: goto_def write_node_def fun_upd_idem)
  then show ?thesis
    using assms by (simp add: tls_mutex_exec_def exec_def link_prev_nodes_def deref_def)
qed

text \<open>
  C29: on these platforms \<open>unlock\<close> can run for ever: since \<open>park\<close> does not block, a waiting thread pushes its
  thread-local node again while it is on the queue, the node then points to itself, and the search
  for the end of the queue never stops, with the queue locked.
\<close>

theorem tls_unlock_hangs:
  "\<exists>s. tls_mutex_run relocked_schedule (init_sys 0 1) = Next s \<and> qlocked (state s) \<and>
    (\<forall>n. \<exists>s'. tls_mutex_run (replicate n (calm Call_unlock, 8)) s = Next s' \<and> pc s' 8 \<noteq> Idle)"
proof -
  have "case tls_mutex_run relocked_schedule (init_sys 0 1) of Blocked \<Rightarrow> False | Fault \<Rightarrow> False
    | Next s \<Rightarrow> qlocked (state s) \<and> pc s 8 = Scan Plain 16 16 \<and>
        heap s 16 = Some (thread_data_new\<lparr>prev := 16, next := 16\<rparr>)"
    by code_simp
  then obtain s where s: "tls_mutex_run relocked_schedule (init_sys 0 1) = Next s" "qlocked (state s)"
    "pc s 8 = Scan Plain 16 16" "heap s 16 = Some (thread_data_new\<lparr>prev := 16, next := 16\<rparr>)"
    unfolding outcome_case_iff by blast
  have "tls_mutex_exec (calm Call_unlock) 8 s = Next s"
    by (rule scan_on_itself [OF s(3,4)]) (simp_all add: thread_data_new_def)
  then have "tls_mutex_run (replicate n (calm Call_unlock, 8)) s = Next s" for n
    unfolding tls_mutex_run_def
    by (subst goes_round_forever [where s = s and ?s1.0 = s]) simp_all
  then have "\<exists>s'. tls_mutex_run (replicate n (calm Call_unlock, 8)) s = Next s' \<and> pc s' 8 \<noteq> Idle" for n
    using s(3) by simp
  then show ?thesis using s(1,2) by blast
qed

end
