(* ===== verification/Timespec.thy ===== *)
theory Timespec
  imports Prelude
begin

section \<open>Timeouts for the kernel (mekong9-parker/src/auxiliary.rs, futex.rs)\<close>

text \<open>
  \<open>libc::timespec\<close> with \<open>time_t = i64\<close>, and \<open>std::time::Duration\<close>, whose nanosecond part is
  below 10^9 by construction. The arithmetic takes the clock reading as an argument. The integers
  are written as \<^typ>\<open>int\<close> with their ranges spelled out.
\<close>

record timespec =
  tv_sec :: int
  tv_nsec :: int

record duration =
  secs :: u64
  nanos :: u32

definition I64_MAX :: int where "I64_MAX = 9223372036854775807"
definition I64_MIN :: int where "I64_MIN = - 9223372036854775808"

definition checked_add_i64 :: "int \<Rightarrow> int \<Rightarrow> int option" where
  "checked_add_i64 a b = (if I64_MIN \<le> a + b \<and> a + b \<le> I64_MAX then Some (a + b) else None)"

definition timeout_to_timespec :: "timespec \<Rightarrow> duration \<Rightarrow> timespec option" where
  "timeout_to_timespec now timeout =
    (if uint (secs timeout) > I64_MAX then None
     else
       let nsec = tv_nsec now + uint (nanos timeout);
           sec = checked_add_i64 (tv_sec now) (sint (secs timeout));
           (nsec, sec) =
             (if nsec \<ge> 1000000000
              then (nsec - 1000000000, do { sec \<leftarrow> sec; checked_add_i64 sec 1 })
              else (nsec, sec))
       in map_option (\<lambda>sec. \<lparr>tv_sec = sec, tv_nsec = nsec\<rparr>) sec)"

definition valid_timespec :: "timespec \<Rightarrow> bool" where
  "valid_timespec ts \<longleftrightarrow>
    0 \<le> tv_sec ts \<and> tv_sec ts \<le> I64_MAX \<and> 0 \<le> tv_nsec ts \<and> tv_nsec ts < 1000000000"

definition valid_duration :: "duration \<Rightarrow> bool" where
  "valid_duration d \<longleftrightarrow> uint (nanos d) < 1000000000"

definition ns_of :: "timespec \<Rightarrow> int" where
  "ns_of ts = tv_sec ts * 1000000000 + tv_nsec ts"

definition ns_of_duration :: "duration \<Rightarrow> int" where
  "ns_of_duration d = uint (secs d) * 1000000000 + uint (nanos d)"

lemma sint_small_u64: "uint (w :: u64) \<le> I64_MAX \<Longrightarrow> sint w = uint w"
  using signed_take_bit_int_eq_self [of 63 "uint w"] uint_ge_0 [of w]
  by (simp add: sint_uint I64_MAX_def)

lemma timeout_to_timespec_Some:
  assumes "valid_timespec now" and "valid_duration d" and "timeout_to_timespec now d = Some ts"
  shows "ns_of ts = ns_of now + ns_of_duration d \<and> valid_timespec ts"
  using assms sint_small_u64 [of "secs d"] uint_ge_0 [of "secs d"] uint_ge_0 [of "nanos d"]
  by (auto simp: timeout_to_timespec_def valid_timespec_def valid_duration_def ns_of_def
      ns_of_duration_def checked_add_i64_def Let_def bind_eq_Some_conv I64_MIN_def not_less
      split: if_splits)

lemma timeout_to_timespec_None:
  assumes "valid_timespec now" and "valid_duration d"
  shows "timeout_to_timespec now d = None \<longleftrightarrow>
    I64_MAX < (ns_of now + ns_of_duration d) div 1000000000"
proof -
  have div: "(ns_of now + ns_of_duration d) div 1000000000 =
    tv_sec now + uint (secs d) + (if tv_nsec now + uint (nanos d) \<ge> 1000000000 then 1 else 0)"
  proof -
    define n where "n = tv_nsec now + uint (nanos d)"
    have n: "0 \<le> n" "n < 2000000000"
      using assms uint_ge_0 [of "nanos d"]
      by (auto simp: n_def valid_timespec_def valid_duration_def)
    have "ns_of now + ns_of_duration d = n + (tv_sec now + uint (secs d)) * 1000000000"
      by (simp add: ns_of_def ns_of_duration_def n_def algebra_simps)
    moreover have "n div 1000000000 = (if n \<ge> 1000000000 then 1 else 0)"
      using n by auto
    ultimately show ?thesis by (simp add: n_def)
  qed
  have "I64_MIN \<le> tv_sec now + uint (secs d)" "I64_MIN \<le> tv_sec now + uint (secs d) + 1"
    using assms(1) uint_ge_0 [of "secs d"] unfolding valid_timespec_def I64_MIN_def by linarith+
  then show ?thesis
    unfolding div
    using assms sint_small_u64 [of "secs d"] uint_ge_0 [of "secs d"]
    by (auto simp: timeout_to_timespec_def valid_timespec_def valid_duration_def
        checked_add_i64_def Let_def bind_eq_None_conv bind_eq_Some_conv not_less
        split: if_splits)
qed

lemma timeout_to_timespec_exact:
  assumes "valid_timespec now" and "valid_duration d"
  shows "(case timeout_to_timespec now d of
      Some ts \<Rightarrow> ns_of ts = ns_of now + ns_of_duration d \<and> valid_timespec ts
    | None \<Rightarrow> I64_MAX < (ns_of now + ns_of_duration d) div 1000000000)"
  using timeout_to_timespec_Some [OF assms] timeout_to_timespec_None [OF assms]
  by (auto split: option.split)

subsection \<open>The clock\<close>

text \<open>
  \<open>clock_gettime\<close> is a parameter: the returned code and the time for each clock. A failed
  \<open>debug_assert_eq!\<close> is \<^const>\<open>None\<close>. \<open>timeout_at\<close> is \<open>timeout_to_timespec\<close> with its own reading of
  the clock, which it makes after the first test.
\<close>

datatype clock = CLOCK_REALTIME | CLOCK_MONOTONIC

type_synonym gettime = "clock \<Rightarrow> int \<times> timespec"

definition timespec_clock :: "bool \<Rightarrow> clock" where
  "timespec_clock android = (if android then CLOCK_REALTIME else CLOCK_MONOTONIC)"

definition timespec_now :: "bool \<Rightarrow> gettime \<Rightarrow> timespec option" where
  "timespec_now android gettime =
    (case gettime (timespec_clock android) of (r, now) \<Rightarrow> (if r = 0 then Some now else None))"

definition timeout_at :: "bool \<Rightarrow> gettime \<Rightarrow> duration \<Rightarrow> timespec option option" where
  "timeout_at android gettime d =
    (if uint (secs d) > I64_MAX then Some None
     else do { now \<leftarrow> timespec_now android gettime; Some (timeout_to_timespec now d) })"

lemma timeout_at_read:
  assumes "gettime (timespec_clock android) = (0, now)"
  shows "timeout_at android gettime d = Some (timeout_to_timespec now d)"
  using assms by (simp add: timeout_at_def timespec_now_def timeout_to_timespec_def)

text \<open>
  C37: the absolute timeout is the exact sum of the clock reading and the duration, with its
  nanoseconds normalised below 10^9; it is missing exactly when the seconds of that sum do not
  fit \<open>time_t\<close>. The clock is \<open>CLOCK_REALTIME\<close> on Android and \<open>CLOCK_MONOTONIC\<close> elsewhere.
\<close>

theorem timeout_exact:
  assumes "gettime (if android then CLOCK_REALTIME else CLOCK_MONOTONIC) = (0, now)"
    and "valid_timespec now" and "valid_duration d"
  shows "(case timeout_at android gettime d of
      Some (Some ts) \<Rightarrow> ns_of ts = ns_of now + ns_of_duration d \<and> valid_timespec ts
    | Some None \<Rightarrow> I64_MAX < (ns_of now + ns_of_duration d) div 1000000000
    | None \<Rightarrow> False)"
  using timeout_at_read [of gettime android now d] assms(1) timeout_to_timespec_exact [OF assms(2,3)]
  by (simp add: timespec_clock_def split: option.splits)

theorem timeout_exact_witness:
  "timeout_at False (\<lambda>_. (0, \<lparr>tv_sec = 5, tv_nsec = 600000000\<rparr>)) \<lparr>secs = 2, nanos = 500000000\<rparr> =
     Some (Some \<lparr>tv_sec = 8, tv_nsec = 100000000\<rparr>) \<and>
   valid_timespec \<lparr>tv_sec = 8, tv_nsec = 100000000\<rparr>"
  using timeout_exact [of "\<lambda>_. (0, \<lparr>tv_sec = 5, tv_nsec = 600000000\<rparr>)" False
    "\<lparr>tv_sec = 5, tv_nsec = 600000000\<rparr>" "\<lparr>secs = 2, nanos = 500000000\<rparr>"]
  by (simp add: valid_timespec_def valid_duration_def timeout_to_timespec_def I64_MAX_def
      I64_MIN_def checked_add_i64_def sint_small_u64 Let_def timeout_at_def timespec_now_def)

text \<open>
  The Linux wait compares this time with \<open>CLOCK_REALTIME\<close>, because of \<open>FUTEX_CLOCK_REALTIME\<close>. When
  that clock is ahead of the monotonic one by the duration or more, and it counts from 1970 and the
  other from the start of the machine, the time is over before the wait begins.
\<close>

lemma deadline_already_over:
  assumes "gettime CLOCK_MONOTONIC = (0, boot)" "gettime CLOCK_REALTIME = (0, wall)"
    and "valid_timespec boot" "valid_timespec wall" "valid_duration d"
    and "ns_of boot + ns_of_duration d \<le> ns_of wall"
  shows "\<exists>ts. timeout_at False gettime d = Some (Some ts) \<and> ns_of ts \<le> ns_of wall"
proof -
  have read: "timeout_at False gettime d = Some (timeout_to_timespec boot d)"
    using timeout_at_read [of gettime False] assms(1) by (simp add: timespec_clock_def)
  have "(ns_of boot + ns_of_duration d) div 1000000000 \<le> ns_of wall div 1000000000"
    using assms(6) by (simp add: zdiv_mono1)
  moreover have "ns_of wall div 1000000000 = tv_sec wall"
    using assms(4) by (simp add: ns_of_def valid_timespec_def)
  ultimately have "timeout_to_timespec boot d \<noteq> None"
    using timeout_to_timespec_None [OF assms(3,5)] assms(4) by (simp add: valid_timespec_def)
  then show ?thesis
    using read timeout_to_timespec_Some [OF assms(3,5)] assms(6) by (auto simp: ac_simps)
qed

lemma deadline_in_time_on_android:
  assumes "gettime CLOCK_REALTIME = (0, wall)" "valid_timespec wall" "valid_duration d"
    and "timeout_at True gettime d = Some (Some ts)"
  shows "ns_of ts = ns_of wall + ns_of_duration d"
  using timeout_at_read [of gettime True wall d] assms timeout_to_timespec_Some [OF assms(2,3)]
  by (simp add: timespec_clock_def)

subsection \<open>Windows: milliseconds for \<open>WaitOnAddress\<close>\<close>

definition INFINITE :: u32 where "INFINITE = 0xFFFFFFFF"

definition checked_mul_u64 :: "u64 \<Rightarrow> u64 \<Rightarrow> u64 option" where
  "checked_mul_u64 a b = (if uint a * uint b < 2 ^ 64 then Some (a * b) else None)"

definition checked_plus_u64 :: "u64 \<Rightarrow> u64 \<Rightarrow> u64 option" where
  "checked_plus_u64 a b = (if uint a + uint b < 2 ^ 64 then Some (a + b) else None)"

definition div_ceil_u64 :: "u64 \<Rightarrow> u64 \<Rightarrow> u64" where
  "div_ceil_u64 a b = (if a mod b > 0 then a div b + 1 else a div b)"

definition windows_timeout_ms :: "duration \<Rightarrow> u32" where
  "windows_timeout_ms d =
    (case do {
        x \<leftarrow> checked_mul_u64 (secs d) 1000;
        checked_plus_u64 x (div_ceil_u64 (ucast (nanos d)) 1000000) } of
       Some ms \<Rightarrow> (if ms > 0xFFFFFFFF then INFINITE else ucast ms)
     | None \<Rightarrow> INFINITE)"

lemma uint_checked_mul_u64:
  "checked_mul_u64 a b = Some c \<Longrightarrow> uint c = uint a * uint b"
  by (auto simp: checked_mul_u64_def uint_word_ariths split: if_splits)

lemma uint_checked_plus_u64:
  "checked_plus_u64 a b = Some c \<Longrightarrow> uint c = uint a + uint b"
  by (auto simp: checked_plus_u64_def uint_word_ariths split: if_splits)

lemma int_div_ceil: "0 \<le> n \<Longrightarrow> 0 < k \<Longrightarrow>
    (n + (k - 1)) div k = (if n mod k > 0 then n div k + 1 else n div k)" for n k :: int
proof -
  assume k: "0 < k" "0 \<le> n"
  have n: "n + (k - 1) = n mod k + (k - 1) + n div k * k" by (simp add: algebra_simps)
  have "(n + (k - 1)) div k = n div k + (n mod k + (k - 1)) div k"
    unfolding n using k by (intro div_mult_self1) simp
  moreover have "(n mod k - 1) div k = 0" if "n mod k > 0"
    using that pos_mod_bound [of k n] k by (intro div_pos_pos_trivial) linarith+
  then have "(n mod k + (k - 1)) div k = (if n mod k > 0 then 1 else 0)"
    using k pos_mod_bound [of k n] pos_mod_sign [of k n]
    by (auto intro: div_pos_pos_trivial simp: div_pos_geq)
  ultimately show ?thesis by simp
qed

lemma uint_div_ceil_millis:
  "uint (div_ceil_u64 (ucast (n :: u32)) 1000000) = (uint n + 999999) div 1000000"
proof -
  let ?a = "ucast n :: u64"
  have a: "uint ?a = uint n"
    using uint_lt2p [of n] by (simp add: unsigned_ucast_eq take_bit_int_eq_self)
  have "uint n div 1000000 < 5000"
    using uint_lt2p [of n] by (simp add: div_less_iff_less_mult)
  then have "uint (?a div 1000000 + 1) = uint n div 1000000 + 1"
    using a pos_imp_zdiv_nonneg_iff [of 1000000 "uint n"] by (simp add: uint_word_ariths uint_div)
  then show ?thesis
    using int_div_ceil [of "uint n" 1000000] a
    by (simp add: div_ceil_u64_def uint_div word_less_alt uint_mod)
qed

text \<open>The sum of milliseconds fits \<open>u64\<close>: it is capped when it does not fit \<open>u32\<close>.\<close>

lemma windows_timeout_ms_fits:
  assumes "checked_mul_u64 (secs d) 1000 = Some x"
    and "checked_plus_u64 x (div_ceil_u64 (ucast (nanos d)) 1000000) = Some ms"
  shows "uint (windows_timeout_ms d) = min (uint INFINITE) (uint ms)"
proof (cases "ms > 0xFFFFFFFF")
  case True
  then show ?thesis
    using assms by (simp add: windows_timeout_ms_def INFINITE_def word_less_alt)
next
  case False
  then have "uint ms < 2 ^ 32" by (simp add: word_less_alt)
  then have "uint (ucast ms :: u32) = uint ms"
    by (simp add: unsigned_ucast_eq take_bit_int_eq_self)
  then show ?thesis
    using assms False by (simp add: windows_timeout_ms_def INFINITE_def word_less_alt)
qed

text \<open>
  The timeout handed to \<open>WaitOnAddress\<close> is the duration rounded up to whole milliseconds,
  capped at \<open>u32::MAX\<close>, which is \<open>INFINITE\<close>: a wait never ends early for rounding or overflow.
\<close>

lemma windows_timeout_ms_exact:
  "uint (windows_timeout_ms d) = min (uint INFINITE) ((ns_of_duration d + 999999) div 1000000)"
proof -
  let ?c = "div_ceil_u64 (ucast (nanos d)) 1000000"
  have "(ns_of_duration d + 999999) = uint (nanos d) + 999999 + (uint (secs d) * 1000) * 1000000"
    by (simp add: ns_of_duration_def)
  then have ceil: "(ns_of_duration d + 999999) div 1000000 = uint (secs d) * 1000 + uint ?c"
    by (simp add: uint_div_ceil_millis)
  consider
      (mul) "checked_mul_u64 (secs d) 1000 = None"
    | (add) x where "checked_mul_u64 (secs d) 1000 = Some x" "checked_plus_u64 x ?c = None"
    | (ok) x ms where "checked_mul_u64 (secs d) 1000 = Some x" "checked_plus_u64 x ?c = Some ms"
    by (metis not_Some_eq)
  then show ?thesis
  proof cases
    case mul
    then have "2 ^ 64 \<le> uint (secs d) * 1000"
      by (auto simp: checked_mul_u64_def split: if_splits)
    then have "18446744073709551616 \<le> uint (secs d) * 1000" by simp
    then have "0xFFFFFFFF \<le> uint (secs d) * 1000 + uint ?c"
      using uint_ge_0 [of ?c] by linarith
    then show ?thesis
      using mul unfolding ceil by (simp add: windows_timeout_ms_def INFINITE_def)
  next
    case add
    then have "2 ^ 64 \<le> uint (secs d) * 1000 + uint ?c"
      using uint_checked_mul_u64 [OF add(1)] by (auto simp: checked_plus_u64_def split: if_splits)
    then show ?thesis
      using add unfolding ceil by (simp add: windows_timeout_ms_def INFINITE_def)
  next
    case ok
    have ms: "uint ms = uint (secs d) * 1000 + uint ?c"
      using uint_checked_mul_u64 [OF ok(1)] uint_checked_plus_u64 [OF ok(2)] by simp
    then show ?thesis unfolding ceil using windows_timeout_ms_fits [OF ok] by simp
  qed
qed

end
