(* ===== verification/Futex_Sys.thy ===== *)
theory Futex_Sys
  imports Futex Timespec
begin

section \<open>The system calls of the futex parker (mekong9-parker/src/futex.rs)\<close>

text \<open>
  The wrappers \<open>wait\<close>, \<open>wait_until\<close>, \<open>wake_one\<close> and \<open>wake_all\<close> of each platform. The system call
  is a parameter, a function from the arguments to the returned code and the value that \<open>errno\<close>
  has afterwards. A failed \<open>debug_assert!\<close> is \<^const>\<open>None\<close>. What the kernel would read through
  \<open>abs_timespec_ptr\<close> is not modelled: the time it points to is a temporary that is gone when the
  call is made. Only whether the pointer is null is kept.
\<close>

datatype errno = EINTR | EAGAIN | ETIMEDOUT | EFAULT | EINVAL | Errno int

datatype futex_flag =
    FUTEX_WAIT | FUTEX_WAKE | FUTEX_WAIT_BITSET | FUTEX_PRIVATE_FLAG | FUTEX_CLOCK_REALTIME
  | UMTX_OP_WAIT_UINT_PRIVATE | UMTX_OP_WAIT_UINT_PRIVATE_TIMEOUT | UMTX_OP_WAKE_PRIVATE

text \<open>\<open>operand\<close>: the expected value or the number of threads to wake, as the call converts it.\<close>

record futex_call =
  word_addr :: u64
  ops :: "futex_flag list"
  operand :: int
  has_timeout :: bool

type_synonym os = "futex_call \<Rightarrow> int \<times> errno"

definition I32_MAX :: int where "I32_MAX = 2147483647"

definition abs_timespec_given :: "timespec \<Rightarrow> duration \<Rightarrow> bool" where
  "abs_timespec_given now d \<longleftrightarrow> timeout_to_timespec now d \<noteq> None"

text \<open>The assertions after a wait with a timeout, and the answer.\<close>

definition timed_wait_result :: "bool \<Rightarrow> int \<times> errno \<Rightarrow> bool option" where
  "timed_wait_result given r =
    (case r of (code, err) \<Rightarrow>
      if \<not> (code = 0 \<or> code = - 1) then None
      else if code = - 1 then
        (if err = EINTR \<or> err = EAGAIN \<or> given \<and> err = ETIMEDOUT
         then Some (given \<and> err = ETIMEDOUT) else None)
      else Some False)"

definition wait_result :: "int \<times> errno \<Rightarrow> unit option" where
  "wait_result r =
    (case r of (code, err) \<Rightarrow>
      if \<not> (code = 0 \<or> code = - 1) then None
      else if code = - 1 \<and> \<not> (err = EINTR \<or> err = EAGAIN) then None
      else Some ())"

definition wake_result :: "int \<times> errno \<Rightarrow> unit option" where
  "wake_result r =
    (case r of (code, err) \<Rightarrow>
      if \<not> (code = 0 \<or> code = 1 \<or> code = - 1) then None
      else if code = - 1 \<and> err \<noteq> EFAULT then None
      else Some ())"

subsection \<open>Linux and Android\<close>

definition linux_timed_call :: "timespec \<Rightarrow> u64 \<Rightarrow> u32 \<Rightarrow> duration \<Rightarrow> futex_call" where
  "linux_timed_call now atom expected d =
    \<lparr>word_addr = atom, ops = [FUTEX_WAIT_BITSET, FUTEX_PRIVATE_FLAG, FUTEX_CLOCK_REALTIME],
     operand = uint expected, has_timeout = abs_timespec_given now d\<rparr>"

definition linux_wait_until :: "os \<Rightarrow> timespec \<Rightarrow> u64 \<Rightarrow> u32 \<Rightarrow> duration \<Rightarrow> bool option" where
  "linux_wait_until sys now atom expected d =
    timed_wait_result (abs_timespec_given now d) (sys (linux_timed_call now atom expected d))"

definition linux_wait :: "os \<Rightarrow> u64 \<Rightarrow> u32 \<Rightarrow> unit option" where
  "linux_wait sys atom expected =
    wait_result (sys \<lparr>word_addr = atom, ops = [FUTEX_WAIT, FUTEX_PRIVATE_FLAG],
      operand = uint expected, has_timeout = False\<rparr>)"

definition linux_wake_one :: "os \<Rightarrow> u64 \<Rightarrow> unit option" where
  "linux_wake_one sys p =
    wake_result (sys \<lparr>word_addr = p, ops = [FUTEX_WAKE, FUTEX_PRIVATE_FLAG], operand = 1, has_timeout = False\<rparr>)"

definition linux_wake_all :: "os \<Rightarrow> u64 \<Rightarrow> unit option" where
  "linux_wake_all sys p =
    wake_result (sys \<lparr>word_addr = p, ops = [FUTEX_WAKE, FUTEX_PRIVATE_FLAG], operand = I32_MAX, has_timeout = False\<rparr>)"

subsection \<open>FreeBSD\<close>

definition freebsd_timed_call :: "timespec \<Rightarrow> u64 \<Rightarrow> u32 \<Rightarrow> duration \<Rightarrow> futex_call" where
  "freebsd_timed_call now atom expected d =
    \<lparr>word_addr = atom, ops = [UMTX_OP_WAIT_UINT_PRIVATE, UMTX_OP_WAIT_UINT_PRIVATE_TIMEOUT],
     operand = uint expected, has_timeout = abs_timespec_given now d\<rparr>"

definition freebsd_wait_until :: "os \<Rightarrow> timespec \<Rightarrow> u64 \<Rightarrow> u32 \<Rightarrow> duration \<Rightarrow> bool option" where
  "freebsd_wait_until sys now atom expected d =
    timed_wait_result (abs_timespec_given now d) (sys (freebsd_timed_call now atom expected d))"

definition freebsd_wait :: "os \<Rightarrow> u64 \<Rightarrow> u32 \<Rightarrow> unit option" where
  "freebsd_wait sys atom expected =
    wait_result (sys \<lparr>word_addr = atom, ops = [UMTX_OP_WAIT_UINT_PRIVATE],
      operand = uint expected, has_timeout = False\<rparr>)"

definition freebsd_wake_one :: "os \<Rightarrow> u64 \<Rightarrow> unit option" where
  "freebsd_wake_one sys p =
    wake_result (sys \<lparr>word_addr = p, ops = [UMTX_OP_WAKE_PRIVATE], operand = 1, has_timeout = False\<rparr>)"

definition freebsd_wake_all :: "os \<Rightarrow> u64 \<Rightarrow> unit option" where
  "freebsd_wake_all sys p =
    wake_result (sys \<lparr>word_addr = p, ops = [UMTX_OP_WAKE_PRIVATE], operand = I32_MAX, has_timeout = False\<rparr>)"

subsection \<open>OpenBSD\<close>

text \<open>\<open>expected as i32\<close>: \<open>PARKED\<close> is passed as -1.\<close>

definition openbsd_timed_call :: "timespec \<Rightarrow> u64 \<Rightarrow> u32 \<Rightarrow> duration \<Rightarrow> futex_call" where
  "openbsd_timed_call now atom expected d =
    \<lparr>word_addr = atom, ops = [FUTEX_WAIT], operand = sint expected, has_timeout = abs_timespec_given now d\<rparr>"

definition openbsd_wait_until :: "os \<Rightarrow> timespec \<Rightarrow> u64 \<Rightarrow> u32 \<Rightarrow> duration \<Rightarrow> bool" where
  "openbsd_wait_until sys now atom expected d =
    (case sys (openbsd_timed_call now atom expected d) of (code, err) \<Rightarrow> code = 0 \<or> err \<noteq> ETIMEDOUT)"

text \<open>\<open>wait\<close> and \<open>wake_all\<close> ignore the answer; the call is all they do.\<close>

definition openbsd_wait :: "u64 \<Rightarrow> u32 \<Rightarrow> futex_call" where
  "openbsd_wait atom expected =
    \<lparr>word_addr = atom, ops = [FUTEX_WAIT], operand = sint expected, has_timeout = False\<rparr>"

definition openbsd_wake_one :: "os \<Rightarrow> u64 \<Rightarrow> unit option" where
  "openbsd_wake_one sys p =
    (case sys \<lparr>word_addr = p, ops = [FUTEX_WAKE], operand = 1, has_timeout = False\<rparr> of (code, err) \<Rightarrow>
      if code \<le> 0 \<and> err \<noteq> EFAULT then None else Some ())"

definition openbsd_wake_all :: "u64 \<Rightarrow> futex_call" where
  "openbsd_wake_all p = \<lparr>word_addr = p, ops = [FUTEX_WAKE], operand = I32_MAX, has_timeout = False\<rparr>"

subsection \<open>Windows\<close>

datatype win_error = ERROR_TIMEOUT | Win_error u32

text \<open>\<open>WaitOnAddress\<close>: address, expected value, size and milliseconds to the BOOL and the last error.\<close>

type_synonym wait_on_address = "u64 \<Rightarrow> u32 \<Rightarrow> nat \<Rightarrow> u32 \<Rightarrow> int \<times> win_error"

definition get_wait_on_address_ptr ::
    "(string \<Rightarrow> 'm option) \<Rightarrow> ('m \<Rightarrow> string \<Rightarrow> wait_on_address option) \<Rightarrow> wait_on_address option" where
  "get_wait_on_address_ptr load_library get_proc_address =
    (let h = load_library ''api-ms-win-core-synch-l1-2-0.dll'';
         h = (case h of None \<Rightarrow> load_library ''kernelbase.dll'' | Some m \<Rightarrow> Some m)
     in case h of None \<Rightarrow> None | Some m \<Rightarrow> get_proc_address m ''WaitOnAddress'')"

text \<open>The \<open>OnceLock\<close>: the first call fills the cell.\<close>

definition get_cached_ptr ::
    "wait_on_address option \<Rightarrow> wait_on_address option option \<Rightarrow>
      wait_on_address option \<times> wait_on_address option option" where
  "get_cached_ptr looked_up cell =
    (case cell of Some f \<Rightarrow> (f, cell) | None \<Rightarrow> (looked_up, Some looked_up))"

definition windows_wait_until ::
    "wait_on_address option \<Rightarrow> wait_on_address option option \<Rightarrow> u64 \<Rightarrow> u32 \<Rightarrow> duration \<Rightarrow> bool option" where
  "windows_wait_until looked_up cell atom expected d =
    (case fst (get_cached_ptr looked_up cell) of
       None \<Rightarrow> None
     | Some f \<Rightarrow>
        (case f atom expected 4 (windows_timeout_ms d) of (success, err) \<Rightarrow>
          if success = 0 then (if err = ERROR_TIMEOUT then Some True else None) else Some False))"

definition DURATION_MAX :: duration where
  "DURATION_MAX = \<lparr>secs = 0xFFFFFFFFFFFFFFFF, nanos = 999999999\<rparr>"

definition windows_wait ::
    "wait_on_address option \<Rightarrow> wait_on_address option option \<Rightarrow> u64 \<Rightarrow> u32 \<Rightarrow> unit option" where
  "windows_wait looked_up cell atom expected =
    map_option (\<lambda>_. ()) (windows_wait_until looked_up cell atom expected DURATION_MAX)"

subsection \<open>What the wrappers report\<close>

text \<open>
  The documented answers of a waiting call: 0, or -1 with an interruption, a changed word, or an
  expired timeout that was given.
\<close>

definition documented_wait :: "os \<Rightarrow> bool" where
  "documented_wait sys \<longleftrightarrow>
    (\<forall>c. fst (sys c) = 0 \<or>
      fst (sys c) = - 1 \<and> snd (sys c) \<in> (if has_timeout c then {EINTR, EAGAIN, ETIMEDOUT} else {EINTR, EAGAIN}))"

definition timed_out :: "int \<times> errno \<Rightarrow> bool" where
  "timed_out r \<longleftrightarrow> fst r = - 1 \<and> snd r = ETIMEDOUT"

lemma documented_cases:
  assumes "documented_wait sys"
  shows "fst (sys c) = 0 \<or> fst (sys c) = - 1 \<and>
    (snd (sys c) = EINTR \<or> snd (sys c) = EAGAIN \<or> has_timeout c \<and> snd (sys c) = ETIMEDOUT)"
  using assms unfolding documented_wait_def by (auto split: if_splits)

text \<open>
  On Linux and FreeBSD no assertion of the waiting wrappers fails as long as the kernel answers as
  documented, and \<open>wait_until\<close> returns true exactly when the kernel reported that the time is over;
  on OpenBSD the same function returns true exactly when it did not.
\<close>

lemma wait_until_reports:
  assumes "documented_wait sys"
  shows "linux_wait_until sys now a v d = Some (timed_out (sys (linux_timed_call now a v d))) \<and>
    freebsd_wait_until sys now a v d = Some (timed_out (sys (freebsd_timed_call now a v d))) \<and>
    linux_wait sys a v = Some () \<and> freebsd_wait sys a v = Some () \<and>
    openbsd_wait_until sys now a v d = (\<not> timed_out (sys (openbsd_timed_call now a v d)))"
proof -
  have timed: "timed_wait_result (has_timeout c) (sys c) = Some (timed_out (sys c))" for c
    using documented_cases [OF assms, of c]
    by (cases "sys c") (auto simp: timed_wait_result_def timed_out_def)
  have plain: "wait_result (sys c) = Some ()" if "\<not> has_timeout c" for c
    using documented_cases [OF assms, of c] that
    by (cases "sys c") (auto simp: wait_result_def)
  have "openbsd_wait_until sys now a v d = (\<not> timed_out (sys (openbsd_timed_call now a v d)))"
    using documented_cases [OF assms, of "openbsd_timed_call now a v d"]
    by (auto simp: openbsd_wait_until_def timed_out_def split: prod.splits)
  moreover have "has_timeout (linux_timed_call now a v d) = abs_timespec_given now d"
    "has_timeout (freebsd_timed_call now a v d) = abs_timespec_given now d"
    by (simp_all add: linux_timed_call_def freebsd_timed_call_def)
  ultimately show ?thesis
    using timed [of "linux_timed_call now a v d"] timed [of "freebsd_timed_call now a v d"] plain
    by (simp add: linux_wait_until_def freebsd_wait_until_def linux_wait_def freebsd_wait_def)
qed

text \<open>
  On OpenBSD an \<open>unpark\<close> can panic in a debug build: its owner may not have gone to sleep yet when
  the wake-up call is made; the call then answers 0, which is no error, and the wrapper compares a
  stale \<open>errno\<close> with \<open>EFAULT\<close>. Linux and FreeBSD accept the answer.
\<close>

lemma openbsd_wake_one_panics:
  "\<exists>es f. parker_run futex_new futex_step es f \<and> 0 < wakers f \<and> floc f = F_wait False \<and>
    {e. openbsd_wake_one (\<lambda>_. (0, e)) a = None} = - {EFAULT} \<and>
    {e. linux_wake_one (\<lambda>_. (0, e)) a = None} = {} \<and> {e. freebsd_wake_one (\<lambda>_. (0, e)) a = None} = {}"
proof -
  let ?f1 = "\<lparr>fstate = PARKED, floc = F_wait False, wakers = 0\<rparr>"
  let ?f2 = "\<lparr>fstate = NOTIFIED, floc = F_wait False, wakers = 1\<rparr>"
  have "futex_step futex_new Internal ?f1"
    using f_park [of futex_new False ?f1] by (simp add: futex_new_def futex_park_def Let_def futex_values)
  moreover have "futex_step ?f1 Unparked ?f2"
    using f_unpark [of ?f1] by (simp add: futex_unpark_def Let_def)
  ultimately have "parker_run futex_new futex_step [Unparked, Internal] ?f2"
    by (blast intro: parker_run.intros)
  then show ?thesis
    by (intro exI [of _ "[Unparked, Internal]"] exI [of _ ?f2])
       (auto simp: openbsd_wake_one_def linux_wake_one_def freebsd_wake_one_def wake_result_def)
qed

text \<open>On Windows \<open>wait\<close> has no time limit, and the waits panic without \<open>WaitOnAddress\<close>.\<close>

lemma windows_wait_forever: "windows_timeout_ms DURATION_MAX = INFINITE"
  by (simp add: windows_timeout_ms_def DURATION_MAX_def checked_mul_u64_def)

lemma windows_wait_needs_function:
  "windows_wait None None a v = None" "windows_wait_until None None a v d = None"
  by (simp_all add: windows_wait_def windows_wait_until_def get_cached_ptr_def)

end
