(* ===== verification/Pthread.thy ===== *)
theory Pthread
  imports Parker Timespec
begin

section \<open>The pthread parker (mekong9-parker/src/pthread.rs)\<close>

text \<open>
  \<open>should_park\<close> is only accessed under the pthread mutex, so each critical section is one step:
  \<open>park\<close> from the lock to the first wait or to the return, a wake-up of the condition variable
  with the test that follows it, and \<open>unpark\<close>. The condition variable may wake spuriously. The
  answers of the pthread calls are a parameter; each is asserted, and a failed assertion is \<^const>\<open>None\<close>.
\<close>

datatype pthread_call =
    Mutex_lock | Mutex_unlock | Cond_wait | Cond_timedwait | Cond_signal
  | Condattr_init | Condattr_setclock_monotonic | Cond_init | Condattr_destroy
  | Mutex_destroy | Cond_destroy

type_synonym answers = "pthread_call \<Rightarrow> int"

text \<open>The wait in which the owner is.\<close>

datatype pthread_sleep = Awake | In_wait | In_timedwait timespec

record pthread_parker =
  should_park :: bool
  initialized :: bool
  sleeping :: pthread_sleep

definition pthread_new :: pthread_parker where
  "pthread_new = \<lparr>should_park = False, initialized = False, sleeping = Awake\<rparr>"

text \<open>The last call of \<open>park\<close> and \<open>park_until\<close>.\<close>

definition pthread_leave :: "answers \<Rightarrow> pthread_parker \<Rightarrow> pthread_parker option" where
  "pthread_leave r p = (if r Mutex_unlock = 0 then Some (p\<lparr>sleeping := Awake\<rparr>) else None)"

text \<open>\<open>while self.should_park.get()\<close>: sleep, or leave the loop and return (true).\<close>

definition pthread_park :: "answers \<Rightarrow> pthread_parker \<Rightarrow> (bool \<times> pthread_parker) option" where
  "pthread_park r p =
    (if r (if sleeping p = Awake then Mutex_lock else Cond_wait) \<noteq> 0 then None
     else if should_park p then Some (False, p\<lparr>sleeping := In_wait\<rparr>)
     else map_option (Pair True) (pthread_leave r p))"

text \<open>
  The answer with which \<open>park_until\<close> comes to its loop condition. \<open>EINVAL\<close> is allowed for a
  negative time.
\<close>

fun woken_ok :: "int \<Rightarrow> int \<Rightarrow> answers \<Rightarrow> pthread_sleep \<Rightarrow> bool" where
  "woken_ok etimedout einval r Awake = (r Mutex_lock = 0)"
| "woken_ok etimedout einval r In_wait = (r Cond_wait = 0)"
| "woken_ok etimedout einval r (In_timedwait ts) =
    (r Cond_timedwait = 0 \<or> r Cond_timedwait = etimedout \<or> tv_sec ts < 0 \<and> r Cond_timedwait = einval)"

text \<open>
  \<open>park_until\<close>: \<open>left\<close> is \<open>timeout - now\<close> as the clock test finds it, \<^const>\<open>None\<close> when the time is
  over; the result is \<^const>\<open>None\<close> when the thread sleeps.
\<close>

definition pthread_park_until ::
  "int \<Rightarrow> int \<Rightarrow> bool \<Rightarrow> gettime \<Rightarrow> answers \<Rightarrow> duration option \<Rightarrow> pthread_parker \<Rightarrow>
    (bool option \<times> pthread_parker) option" where
  "pthread_park_until etimedout einval android gettime r left p =
    (if \<not> woken_ok etimedout einval r (sleeping p) then None
     else if should_park p then
       (case left of
          None \<Rightarrow> map_option (Pair (Some False)) (pthread_leave r p)
        | Some d \<Rightarrow> do {
            ts \<leftarrow> timeout_at android gettime d;
            Some (None, p\<lparr>sleeping := (case ts of Some ts \<Rightarrow> In_timedwait ts | None \<Rightarrow> In_wait)\<rparr>) })
     else map_option (Pair (Some True)) (pthread_leave r p))"

definition pthread_unpark :: "answers \<Rightarrow> pthread_parker \<Rightarrow> pthread_parker option" where
  "pthread_unpark r p =
    (if r Mutex_lock = 0 \<and> r Cond_signal = 0 \<and> r Mutex_unlock = 0
     then Some (p\<lparr>should_park := False\<rparr>) else None)"

inductive pthread_step :: "pthread_parker \<Rightarrow> event \<Rightarrow> pthread_parker \<Rightarrow> bool" where
  p_park: "pthread_park r p = Some (b, p') \<Longrightarrow> pthread_step p (if b then Returned else Internal) p'"
| p_park_until: "pthread_park_until etimedout einval android gettime r left p = Some (b, p') \<Longrightarrow>
    pthread_step p (case b of None \<Rightarrow> Internal | Some b \<Rightarrow> if b then Returned else Timed_out) p'"
| p_unpark: "pthread_unpark r p = Some p' \<Longrightarrow> pthread_step p Unparked p'"

lemmas pthread_defs = pthread_park_def pthread_park_until_def pthread_unpark_def pthread_leave_def

lemma never_should_park:
  "parker_run pthread_new pthread_step es p \<Longrightarrow> \<not> should_park p \<and> sleeping p = Awake"
proof (induction rule: parker_run.induct)
  case (run_step es p e p')
  from run_step.hyps(2) show ?case
    by cases (use run_step.IH in \<open>auto simp: pthread_defs split: if_splits\<close>)
qed (simp add: pthread_new_def)

text \<open>
  This parker never parks: nothing sets \<open>should_park\<close>, so in every reachable state \<open>park\<close> and
  \<open>park_until\<close> return at once, also when no \<open>unpark\<close> has been made. They make two calls, and panic
  exactly when one of them fails.
\<close>

lemma pthread_never_parks:
  assumes "parker_run pthread_new pthread_step es p"
  shows "pthread_park r p = (if r Mutex_lock = 0 \<and> r Mutex_unlock = 0 then Some (True, p) else None) \<and>
    pthread_park_until etimedout einval android gettime r left p =
      (if r Mutex_lock = 0 \<and> r Mutex_unlock = 0 then Some (Some True, p) else None)"
  using never_should_park [OF assms] by (auto simp: pthread_defs)

subsection \<open>init and drop\<close>

text \<open>
  Each call is followed by an assertion on the answer; the calls after a failed one are not made.
\<close>

fun pthread_calls :: "answers \<Rightarrow> (pthread_call \<times> int list) list \<Rightarrow> pthread_call list \<times> bool" where
  "pthread_calls r [] = ([], True)"
| "pthread_calls r ((c, ok) # cs) =
    (if r c \<in> set ok then (case pthread_calls r cs of (done, b) \<Rightarrow> (c # done, b)) else ([c], False))"

definition pthread_init :: "answers \<Rightarrow> pthread_call list \<times> bool" where
  "pthread_init r =
    pthread_calls r
      [(Condattr_init, [0]), (Condattr_setclock_monotonic, [0]), (Cond_init, [0]), (Condattr_destroy, [0])]"

definition pthread_drop :: "int \<Rightarrow> answers \<Rightarrow> pthread_call list \<times> bool" where
  "pthread_drop einval r = pthread_calls r [(Mutex_destroy, [0, einval]), (Cond_destroy, [0, einval])]"

lemma pthread_calls_ok: "snd (pthread_calls r cs) \<longleftrightarrow> (\<forall>(c, ok) \<in> set cs. r c \<in> set ok)"
  by (induction r cs rule: pthread_calls.induct) (auto split: prod.splits)

text \<open>\<open>init\<close> frees the attributes it has made iff no call before that failed.\<close>

lemma pthread_init_frees:
  "Condattr_destroy \<in> set (fst (pthread_init r)) \<longleftrightarrow>
    r Condattr_init = 0 \<and> r Condattr_setclock_monotonic = 0 \<and> r Cond_init = 0"
  by (auto simp: pthread_init_def split: prod.splits)

end
