(* ===== verification/Wait_Group.thy ===== *)
theory Wait_Group
  imports Parking_Queue
begin

section \<open>WaitGroup (mekong9-sync/src/wait\_group.rs)\<close>

text \<open>
  The counter is an \<open>AtomicIsize\<close>, a 64-bit word read as signed; its arithmetic wraps. The group
  is the client of its ParkingQueue, and \<open>wait\<close> parks until the counter is zero.
\<close>

type_synonym wait_group = "u64 queue_sys"

definition with_size :: "u64 \<Rightarrow> wait_group" where
  "with_size n = parking_queue_new n"

definition workers :: "wait_group \<Rightarrow> u64" where
  "workers g = client g"

definition wait_over :: "u64 \<Rightarrow> bool" where
  "wait_over n \<longleftrightarrow> n = 0"

datatype wcall = W_add u64 | W_done | W_wait

definition wg_add :: "u64 \<Rightarrow> wait_group \<Rightarrow> wait_group outcome" where
  "wg_add n g = Next (g\<lparr>client := client g + n\<rparr>)"

definition wg_done :: "ptr \<Rightarrow> wait_group \<Rightarrow> wait_group outcome" where
  "wg_done t g =
    (let old = client g; g = g\<lparr>client := client g - 1\<rparr> in
     if sint old < 1 then Next (qgoto t Q_panicked g)
     else if old = 1 then Next (qgoto t (U_load spin_wait_new) g)
     else Next (qgoto t Q_idle g))"

definition wg_wait :: "ptr \<Rightarrow> wait_group \<Rightarrow> wait_group outcome" where
  "wg_wait t g = Next (qgoto t (Q_retry spin_wait_new) g)"

text \<open>A thread outside an operation starts one; a thread inside takes its next step.\<close>

definition wg_exec :: "wcall \<Rightarrow> bool \<Rightarrow> ptr \<Rightarrow> wait_group \<Rightarrow> wait_group outcome" where
  "wg_exec c sp t g =
    (if qpc g t = Q_idle then
       (case c of W_add n \<Rightarrow> wg_add n g | W_done \<Rightarrow> wg_done t g | W_wait \<Rightarrow> wg_wait t g)
     else queue_exec wait_over sp t g)"

text \<open>Runs, with what the client did to the counter: the numbers added and the number of \<open>done\<close>s.\<close>

inductive wg_run :: "u64 \<Rightarrow> u64 \<Rightarrow> nat \<Rightarrow> wait_group \<Rightarrow> bool" for n0 where
  wg_init: "wg_run n0 0 0 (with_size n0)"
| wg_step: "wg_run n0 a k g \<Longrightarrow> valid_ptr t \<Longrightarrow> wg_exec c sp t g = Next g' \<Longrightarrow>
    wg_run n0
      (case c of W_add n \<Rightarrow> if qpc g t = Q_idle then a + n else a | _ \<Rightarrow> a)
      (case c of W_done \<Rightarrow> if qpc g t = Q_idle then Suc k else k | _ \<Rightarrow> k) g'"

text \<open>
  C24: the counter counts: after any run it is the initial size plus everything added minus the
  number of \<open>done\<close> calls, modulo 2 to the 64; a \<open>done\<close> panics exactly when the counter it finds
  is below one, and has then already decremented it; and \<open>unpark_all\<close> starts exactly when the
  counter goes from one to zero.
\<close>

theorem wait_group_counts:
  assumes "wg_run n0 a k g" "qpc g t = Q_idle"
  shows "workers g = n0 + a - of_nat k \<and>
    (\<exists>g'. wg_exec W_done sp t g = Next g' \<and> workers g' = workers g - 1 \<and>
      (qpc g' t = Q_panicked \<longleftrightarrow> sint (workers g) < 1) \<and>
      (qpc g' t = U_load spin_wait_new \<longleftrightarrow> workers g = 1))"
proof -
  have "workers g = n0 + a - of_nat k" using assms(1)
  proof (induction rule: wg_run.induct)
    case wg_init
    then show ?case by (simp add: with_size_def workers_def parking_queue_new_def)
  next
    case (wg_step a k g t c sp g')
    show ?case
    proof (cases "qpc g t = Q_idle")
      case True
      then have "workers g' = (case c of W_add n \<Rightarrow> workers g + n | W_done \<Rightarrow> workers g - 1 | W_wait \<Rightarrow> workers g)"
        using wg_step.hyps(3)
        by (cases c) (auto simp: wg_exec_def wg_add_def wg_done_def wg_wait_def workers_def Let_def
          split: if_splits)
      then show ?thesis using wg_step.IH True by (cases c) simp_all
    next
      case False
      then have "queue_exec wait_over sp t g = Next g'" using wg_step.hyps(3) by (simp add: wg_exec_def)
      from queue_exec_client [OF this] show ?thesis
        using wg_step.IH False by (simp add: workers_def split: wcall.splits)
    qed
  qed
  moreover have "sint (1 :: u64) = 1" by simp
  ultimately show ?thesis
    using assms(2) by (auto simp: wg_exec_def wg_done_def workers_def Let_def)
qed

theorem wait_group_counts_witness: "workers (with_size 3) = 3"
  using wait_group_counts [OF wg_init, of _ 8] by (simp add: with_size_def parking_queue_new_def)

lemma wg_exec_other: "wg_exec c sp t g = Next g' \<Longrightarrow> u \<noteq> t \<Longrightarrow> qpc g' u = qpc g u"
  by (auto simp: wg_exec_def wg_add_def wg_done_def wg_wait_def Let_def queue_exec_other
      split: if_splits wcall.splits)

text \<open>
  C23: \<open>wait\<close> returns only when it sees the counter at zero: whatever any thread does, a thread that
  is inside \<open>wait\<close> stays there, except by a step of its own taken while the counter is zero.
\<close>

theorem wait_returns_at_zero:
  assumes "waiting_pc (qpc g t)" "wg_exec c sp u g = Next g'"
  shows "waiting_pc (qpc g' t) \<or> (u = t \<and> qpc g' t = Q_idle \<and> workers g = 0 \<and> workers g' = 0)"
proof (cases "u = t")
  case False
  then show ?thesis using wg_exec_other [OF assms(2), of t] assms(1) by simp
next
  case True
  then have e: "queue_exec wait_over sp t g = Next g'"
    using assms by (cases "qpc g t") (simp_all add: wg_exec_def)
  show ?thesis
    using queue.keeps [OF e] queue.leaves [OF e assms(1)] queue_exec_leaves_idle [OF e assms(1)] True
    by (cases "waiting_pc (qpc g' t)") (simp_all add: wait_over_def workers_def)
qed

theorem wait_returns_at_zero_witness:
  "wg_exec W_wait False 8 (qgoto 8 (Q_retry spin_wait_new) (with_size 0)) = Next (qgoto 8 Q_idle (with_size 0)) \<and>
    workers (with_size 0) = 0"
proof -
  let ?g = "qgoto 8 (Q_retry spin_wait_new) (with_size 0)"
  have e: "wg_exec W_wait False 8 ?g = Next (qgoto 8 Q_idle (with_size 0))"
    by (simp add: wg_exec_def queue_exec_def queue_park_retry_def wait_over_def with_size_def
      parking_queue_new_def)
  from wait_returns_at_zero [of ?g 8, OF _ e] show ?thesis using e by (simp add: workers_def)
qed

text \<open>The systems of a run, newest first.\<close>

inductive wg_history :: "u64 \<Rightarrow> wait_group list \<Rightarrow> bool" for n0 where
  hist_init: "wg_history n0 [with_size n0]"
| hist_step: "wg_history n0 (g # gs) \<Longrightarrow> valid_ptr t \<Longrightarrow> wg_exec c sp t g = Next g' \<Longrightarrow>
    wg_history n0 (g' # g # gs)"

text \<open>The addresses at which a \<open>ThreadData\<close> was in memory at some time of the run.\<close>

definition nodes_ever :: "wait_group list \<Rightarrow> ptr set" where
  "nodes_ever gs = (\<Union>g \<in> set gs. dom (qheap g))"

text \<open>The operations of the client start with the queue as it is and with no pointer.\<close>

lemma wg_start_pointers:
  assumes "qpc g t = Q_idle" "wg_exec c sp t g = Next g'"
  shows "queue_typed g \<Longrightarrow> queue_typed g'" "nodes_live g \<Longrightarrow> nodes_live g'"
    "ptrs_in N g \<Longrightarrow> ptrs_in N g'"
proof -
  have "qheap g' = qheap g \<and> qstate g' = qstate g \<and>
    (\<exists>p. qpc g' = (qpc g)(t := p) \<and> pc_typed p \<and> pc_ptrs p = {} \<and> \<not> qwaits p \<and> \<not> aborting p)"
    using assms by (auto simp: wg_exec_def wg_add_def wg_done_def wg_wait_def Let_def fun_upd_idem
        intro: exI [of _ Q_idle] split: wcall.splits if_splits)
  then show "queue_typed g \<Longrightarrow> queue_typed g'" "nodes_live g \<Longrightarrow> nodes_live g'"
    "ptrs_in N g \<Longrightarrow> ptrs_in N g'"
    using assms(1) by (auto simp: queue_typed_def nodes_live_def ptrs_in_def split: if_splits) blast+
qed

text \<open>
  C25: the pointers of a wait group are typed in every run, also when waiters give up. A
  \<open>ThreadData\<close> is in memory exactly while its thread is in the closure of \<open>with_thread_data\<close>. Each
  pointer, in the word, in a node or in a local of any thread, is null or an address at which a
  \<open>ThreadData\<close> was pushed in this run: it may dangle after an \<open>abort_self\<close>, but no pointer is wild.
  All are aligned to eight bytes, so that they never overwrite the flags of the word, whose third
  bit is never set; no node has a \<open>prev\<close>.
\<close>

theorem wait_group_typed:
  assumes "wg_history n0 (g # gs)"
  shows "nodes_live g \<and> ptrs_in (insert null (nodes_ever (g # gs))) g \<and> queue_typed g"
  using assms
proof (induction "g # gs" arbitrary: g gs rule: wg_history.induct)
  case hist_init
  then show ?case
    by (simp add: nodes_live_def ptrs_in_def queue_typed_def with_size_def parking_queue_new_def idle_layout)
next
  case (hist_step g gs t c sp g')
  let ?N = "insert null (nodes_ever (g' # g # gs))"
  have N: "ptrs_in ?N g" "dom (qheap g') \<subseteq> ?N"
    using hist_step.hyps(2) by (auto simp: nodes_ever_def intro: ptrs_in_mono)
  show ?case
  proof (cases "qpc g t = Q_idle")
    case True
    then show ?thesis using wg_start_pointers [OF True hist_step.hyps(4)] hist_step.hyps(2) N(1) by blast
  next
    case False
    then have "queue_exec wait_over sp t g = Next g'" using hist_step.hyps(4) by (simp add: wg_exec_def)
    then show ?thesis
      using queue_exec_typed queue_exec_live queue_exec_ptrs [OF N(1) _ N(2)] hist_step.hyps(2,3) by blast
  qed
qed

subsection \<open>Schedules that go wrong\<close>

definition wg_schedule :: "(wcall \<times> ptr) list \<Rightarrow> wait_group \<Rightarrow> wait_group outcome" where
  "wg_schedule = run_steps (\<lambda>p. wg_exec (fst p) False (snd p))"

lemma wg_schedule_simps [simp]:
  "wg_schedule [] g = Next g"
  "wg_schedule (p # ps) g =
    (case wg_exec (fst p) False (snd p) g of Next g' \<Rightarrow> wg_schedule ps g' | r \<Rightarrow> r)"
  by (simp_all only: wg_schedule_def run_steps.simps)

lemma wg_schedule_run:
  "wg_run n0 a k g \<Longrightarrow> \<forall>p \<in> set ps. valid_ptr (snd p) \<Longrightarrow> wg_schedule ps g = Next g' \<Longrightarrow>
    \<exists>a k. wg_run n0 a k g'"
proof (induction ps arbitrary: a k g)
  case (Cons p ps)
  from Cons.prems(3) obtain g1 where g1: "wg_exec (fst p) False (snd p) g = Next g1"
    "wg_schedule ps g1 = Next g'" by (auto split: outcome.splits)
  from wg_step [OF Cons.prems(1) _ g1(1)] Cons.prems(2) obtain a1 k1 where "wg_run n0 a1 k1 g1" by auto
  from Cons.IH [OF this _ g1(2)] Cons.prems(2) show ?case by auto
qed (auto)

lemma wg_schedule_other:
  "wg_schedule ps g = Next g' \<Longrightarrow> u \<notin> snd ` set ps \<Longrightarrow> qpc g' u = qpc g u"
  by (induction ps arbitrary: g) (auto split: outcome.splits dest: wg_exec_other)

text \<open>
  8 waits until it has pushed its node; 16 finishes the last piece of work and cuts the list; then
  8 sees the counter at zero and gives up at once, because the queue is being cleared.
\<close>

definition pushed_schedule :: "(wcall \<times> ptr) list" where
  "pushed_schedule = replicate 14 (W_wait, 8)"

definition freed_schedule :: "(wcall \<times> ptr) list" where
  "freed_schedule = pushed_schedule @ replicate 3 (W_done, 16) @ replicate 2 (W_wait, 8) @ [(W_done, 16)]"

text \<open>
  16 clears the queue, 24 waits for more work, 16 finishes it but has not cut the list again when
  8 sees zero, locks the queue and looks in vain for its node.
\<close>

definition lost_schedule :: "(wcall \<times> ptr) list" where
  "lost_schedule = pushed_schedule @ replicate 10 (W_done, 16) @ [(W_add 1, 16)] @
    replicate 15 (W_wait, 24) @ [(W_done, 16)] @ replicate 7 (W_wait, 8)"

text \<open>
  16 finishes the only piece of work and finds the queue empty, but has not cleared the flag yet;
  24 adds more work, 8 waits for it and sleeps, 24 finishes it and leaves the waking to 16.
\<close>

definition missed_schedule :: "(wcall \<times> ptr) list" where
  "missed_schedule = replicate 3 (W_done, 16) @ [(W_add 1, 24)] @ replicate 15 (W_wait, 8) @
    replicate 3 (W_done, 24) @ [(W_done, 16)]"

lemma schedules_valid:
  "\<forall>p \<in> set freed_schedule. valid_ptr (snd p)" "\<forall>p \<in> set lost_schedule. valid_ptr (snd p)"
  "\<forall>p \<in> set missed_schedule. valid_ptr (snd p)" "snd ` set missed_schedule \<subseteq> {8, 16, 24}"
  by (auto simp: freed_schedule_def lost_schedule_def missed_schedule_def pushed_schedule_def
      valid_ptr_def)

lemma outcome_iff:
  "(case r of Blocked \<Rightarrow> False | Fault \<Rightarrow> False | Next g \<Rightarrow> P g) \<longleftrightarrow> (\<exists>g. r = Next g \<and> P g)"
  by (cases r) auto

text \<open>
  C26: the queue can access a freed node: \<open>abort_self\<close> returns from \<open>wait\<close> while \<open>unpark_all\<close> still
  holds the list with its node, and the next step of \<open>unpark_all\<close> reads it.
\<close>

theorem unpark_all_use_after_free:
  "\<exists>a k g. wg_run 1 a k g \<and> qpc g 16 = U_walk 8 \<and> wg_exec W_done False 16 g = Fault"
proof -
  have "case wg_schedule freed_schedule (with_size 1) of Blocked \<Rightarrow> False | Fault \<Rightarrow> False
    | Next g \<Rightarrow> qpc g 16 = U_walk 8 \<and> qheap g 8 = None"
    by code_simp
  then obtain g where g: "wg_schedule freed_schedule (with_size 1) = Next g"
    "qpc g 16 = U_walk 8" "qheap g 8 = None"
    unfolding outcome_iff by blast
  have "wg_exec W_done False 16 g = Fault"
    using g(2,3) by (simp add: wg_exec_def queue_exec_def unpark_all_walk_def qderef_def)
  then show ?thesis using g(2) wg_schedule_run [OF wg_init schedules_valid(1) g(1)] by blast
qed

lemma wg_schedule_history:
  "wg_history n0 (g # gs) \<Longrightarrow> \<forall>p \<in> set ps. valid_ptr (snd p) \<Longrightarrow> wg_schedule ps g = Next g' \<Longrightarrow>
    \<exists>gs'. wg_history n0 (g' # gs')"
proof (induction ps arbitrary: g gs)
  case (Cons p ps)
  from Cons.prems(3) obtain g1 where g1: "wg_exec (fst p) False (snd p) g = Next g1"
    "wg_schedule ps g1 = Next g'" by (auto split: outcome.splits)
  from hist_step [OF Cons.prems(1) _ g1(1)] Cons.prems(2) have "wg_history n0 (g1 # g # gs)" by simp
  from Cons.IH [OF this _ g1(2)] Cons.prems(2) show ?case by simp
qed auto

text \<open>The local of \<open>unpark_all\<close> that dangles there was the address of a node before.\<close>

theorem wait_group_typed_witness:
  "\<exists>g gs. wg_history 1 (g # gs) \<and> qpc g 16 = U_walk 8 \<and> qheap g 8 = None \<and>
    (\<exists>g' \<in> set gs. qheap g' 8 \<noteq> None)"
proof -
  have "case wg_schedule freed_schedule (with_size 1) of Blocked \<Rightarrow> False | Fault \<Rightarrow> False
    | Next g \<Rightarrow> qpc g 16 = U_walk 8 \<and> qheap g 8 = None"
    by code_simp
  then obtain g where g: "wg_schedule freed_schedule (with_size 1) = Next g"
    "qpc g 16 = U_walk 8" "qheap g 8 = None"
    unfolding outcome_iff by blast
  obtain gs where gs: "wg_history 1 (g # gs)"
    using wg_schedule_history [OF hist_init schedules_valid(1) g(1)] by blast
  have "ptrs_in (insert null (nodes_ever (g # gs))) g" using wait_group_typed [OF gs] by blast
  from ptrs_inD(3) [OF this, of 16] have "8 \<in> nodes_ever (g # gs)" using g(2) by simp
  then show ?thesis using g gs by (auto simp: nodes_ever_def)
qed

text \<open>A walk that reaches the end of the list unlocks the queue and starts again from the same head.\<close>

lemma walk_goes_round:
  assumes "qpc g t = A_walk w st h null" "queue_head st = h" "h \<noteq> null" "h \<noteq> t"
    and "qheap g h = Some d" "next d = null" "\<not> qlocked (qstate g)"
  shows "\<exists>g1. wg_exec c sp t g = Next g1 \<and> qpc g1 t \<noteq> Q_idle \<and> wg_exec c sp t g1 = Next g"
proof -
  let ?g1 = "qgoto t (A_walk w st null h) g"
  have "wg_exec c sp t g = Next ?g1"
    using assms by (simp add: wg_exec_def queue_exec_def abort_walk_def qderef_def)
  moreover have "qstate g AND NOT QUEUE_LOCKED_BIT = qstate g"
    by (rule word_layout_eqI [OF _ _ _ and_not_layout(8)])
       (simp_all only: and_not_layout assms(7) simp_thms)
  then have "wg_exec c sp t ?g1 = Next g"
    using assms(1,2) by (simp add: wg_exec_def queue_exec_def abort_walk_def qstore_def qgoto_def
      fun_upd_idem)
  ultimately show ?thesis by (intro exI [of _ ?g1]) simp
qed

text \<open>
  C30: \<open>abort_self\<close> can fail to end: when its node has been taken out of the queue and another
  waiter has come, it unlocks the queue it did not find itself in and searches the same list for
  ever. The waiter never returns from \<open>wait\<close> although the counter is zero.
\<close>

theorem abort_self_hangs:
  "\<exists>a k g. wg_run 1 a k g \<and> workers g = 0 \<and>
    (\<forall>n. \<exists>g'. wg_schedule (replicate n (W_wait, 8)) g = Next g' \<and> qpc g' 8 \<noteq> Q_idle)"
proof -
  have "case wg_schedule lost_schedule (with_size 1) of Blocked \<Rightarrow> False | Fault \<Rightarrow> False
    | Next g \<Rightarrow> qpc g 8 = A_walk \<lparr>counter = 10\<rparr> 24 24 null \<and>
        qheap g 24 = Some (thread_data_new\<lparr>queue_tail := 24\<rparr>) \<and> \<not> qlocked (qstate g) \<and> client g = 0"
    by code_simp
  then obtain g where g: "wg_schedule lost_schedule (with_size 1) = Next g"
    "qpc g 8 = A_walk \<lparr>counter = 10\<rparr> 24 24 null"
    "qheap g 24 = Some (thread_data_new\<lparr>queue_tail := 24\<rparr>)" "\<not> qlocked (qstate g)" "client g = 0"
    unfolding outcome_iff by blast
  have "queue_head 24 = 24" by (simp add: queue_head_def QUEUE_MASK_def)
  then obtain g1 where g1: "wg_exec W_wait False 8 g = Next g1" "qpc g1 8 \<noteq> Q_idle"
    "wg_exec W_wait False 8 g1 = Next g"
    using walk_goes_round [OF g(2) _ _ _ g(3) _ g(4), of W_wait False] by (auto simp: thread_data_new_def)
  have "\<exists>g'. wg_schedule (replicate n (W_wait, 8)) g = Next g' \<and> qpc g' 8 \<noteq> Q_idle" for n
    using goes_round_forever [of "\<lambda>p. wg_exec (fst p) False (snd p)" "(W_wait, 8)" g g1 n] g1 g(2)
    by (auto simp: wg_schedule_def)
  moreover have "\<exists>a k. wg_run 1 a k g"
    using wg_schedule_run [OF wg_init schedules_valid(2) g(1)] .
  ultimately show ?thesis using g(5) by (auto simp: workers_def)
qed

text \<open>
  C27: a waiter can be missed: \<open>unpark_all\<close> returns at once when another thread is clearing the
  queue, and that thread can already have looked at the queue for the last time. Then the counter
  is zero, every other thread is outside the group and the waiter sleeps for good. The group is
  reused only after every earlier \<open>wait\<close> has returned.
\<close>

theorem wait_group_misses_waiter:
  "\<exists>a k g. wg_run 1 a k g \<and> workers g = 0 \<and> {t. qpc g t \<noteq> Q_idle} = {8} \<and>
    wg_exec c sp 8 g = Blocked"
proof -
  have "case wg_schedule missed_schedule (with_size 1) of Blocked \<Rightarrow> False | Fault \<Rightarrow> False
    | Next g \<Rightarrow> qpc g 8 = Q_parked \<lparr>counter = 10\<rparr> \<and> qpc g 16 = Q_idle \<and> qpc g 24 = Q_idle \<and>
        qheap g 8 = Some (thread_data_new\<lparr>queue_tail := 8\<rparr>) \<and> client g = 0"
    by code_simp
  then obtain g where g: "wg_schedule missed_schedule (with_size 1) = Next g"
    "qpc g 8 = Q_parked \<lparr>counter = 10\<rparr>" "qpc g 16 = Q_idle" "qpc g 24 = Q_idle"
    "qheap g 8 = Some (thread_data_new\<lparr>queue_tail := 8\<rparr>)" "client g = 0"
    unfolding outcome_iff by blast
  have "qpc g t = Q_idle" if "t \<noteq> 8" for t
  proof (cases "t \<in> {8, 16, 24}")
    case False
    then have "t \<notin> snd ` set missed_schedule" using schedules_valid(4) by blast
    from wg_schedule_other [OF g(1) this] show ?thesis by (simp add: with_size_def parking_queue_new_def)
  qed (use that g(3,4) in auto)
  then have "{t. qpc g t \<noteq> Q_idle} = {8}" using g(2) by auto
  moreover have "wg_exec c sp 8 g = Blocked"
    using g(2,5) by (simp add: wg_exec_def queue_exec_def queue_park_sleep_def qderef_def thread_data_new_def)
  ultimately show ?thesis
    using wg_schedule_run [OF wg_init schedules_valid(3) g(1)] g(6) by (auto simp: workers_def)
qed

end
