(* ===== verification/Parking_Queue_Inv.thy ===== *)
theory Parking_Queue_Inv
  imports Parking_Queue
begin

section \<open>ParkingQueue: waiting and waking without \<open>abort_self\<close>\<close>

text \<open>
  What \<open>park\<close> and \<open>unpark_all\<close> guarantee as long as no waiter gives up after it has pushed its
  node: the nodes form two lists, the queue and the part that the clearing thread has cut off,
  and a node is on one of them exactly while its owner is asleep. Steps are \<open>calm\<close> when they do
  not enter \<open>abort_self\<close>.
\<close>

subsection \<open>What a location means\<close>

text \<open>The thread has set the clear bit, and the rest of the list it has cut off.\<close>

fun clearing :: "qpc \<Rightarrow> bool" where
  "clearing (U_head h) = True"
| "clearing (U_walk h) = True"
| "clearing (U_unpark h nh) = True"
| "clearing U_reload = True"
| "clearing (U_cut st) = True"
| "clearing _ = False"

fun held :: "qpc \<Rightarrow> ptr" where
  "held (U_head h) = h"
| "held (U_walk h) = h"
| "held (U_unpark h nh) = h"
| "held _ = null"

fun unpark_ok :: "(ptr \<Rightarrow> thread_data option) \<Rightarrow> qpc \<Rightarrow> bool" where
  "unpark_ok H (U_unpark h nh) = (\<exists>d. H h = Some d \<and> next d = nh)"
| "unpark_ok H _ = True"

text \<open>The list that starts at \<open>p\<close> and is linked by \<open>next\<close>.\<close>

primrec chain :: "(ptr \<Rightarrow> thread_data option) \<Rightarrow> ptr \<Rightarrow> ptr list \<Rightarrow> bool" where
  "chain H p [] \<longleftrightarrow> p = null"
| "chain H p (x # xs) \<longleftrightarrow> p = x \<and> x \<noteq> null \<and> (\<exists>d. H x = Some d \<and> chain H (next d) xs)"

lemma chain_cong: "(\<And>x. x \<in> set xs \<Longrightarrow> H' x = H x) \<Longrightarrow> chain H' p xs = chain H p xs"
  by (induction xs arbitrary: p) auto

lemma chain_null [simp]: "chain H null xs \<longleftrightarrow> xs = []"
  by (cases xs) auto

lemma chain_nonnull: "p \<noteq> null \<Longrightarrow> chain H p xs \<Longrightarrow> \<exists>d zs. xs = p # zs \<and> H p = Some d \<and> chain H (next d) zs"
  by (cases xs) auto

lemma chain_upd: "x \<notin> set xs \<Longrightarrow> chain (H(x := v)) p xs = chain H p xs"
  by (rule chain_cong) auto

subsection \<open>The invariant\<close>

text \<open>\<open>xs\<close> is the queue, newest first; \<open>c\<close> the clearing thread and \<open>ys\<close> what it still has to wake.\<close>

definition queue_nodes :: "'c queue_sys \<Rightarrow> bool" where
  "queue_nodes s \<longleftrightarrow>
    (\<forall>t. (qheap s t \<noteq> None \<longleftrightarrow> qwaits (qpc s t)) \<and> \<not> aborting (qpc s t) \<and>
      (qpc s t \<noteq> Q_idle \<longrightarrow> valid_ptr t))"

definition queue_lists :: "ptr list \<Rightarrow> ptr list \<Rightarrow> 'c queue_sys \<Rightarrow> bool" where
  "queue_lists xs ys s \<longleftrightarrow>
    chain (qheap s) (queue_head (qstate s)) xs \<and> distinct (xs @ ys) \<and>
    (\<forall>t. t \<in> set (xs @ ys) \<longleftrightarrow> (\<exists>d. qheap s t = Some d \<and> \<not> parker d))"

definition queue_clearer :: "ptr option \<Rightarrow> ptr list \<Rightarrow> 'c queue_sys \<Rightarrow> bool" where
  "queue_clearer c ys s \<longleftrightarrow>
    \<not> qlocked (qstate s) \<and> (locked (qstate s) \<longleftrightarrow> c \<noteq> None) \<and>
    (\<forall>t. clearing (qpc s t) \<longleftrightarrow> c = Some t) \<and> (c = None \<longrightarrow> ys = []) \<and>
    (\<forall>t. c = Some t \<longrightarrow> chain (qheap s) (held (qpc s t)) ys \<and> unpark_ok (qheap s) (qpc s t))"

definition queue_ok :: "ptr option \<Rightarrow> ptr list \<Rightarrow> ptr list \<Rightarrow> 'c queue_sys \<Rightarrow> bool" where
  "queue_ok c xs ys s \<longleftrightarrow> queue_nodes s \<and> queue_lists xs ys s \<and> queue_clearer c ys s"

lemma queue_okD:
  assumes "queue_ok c xs ys s"
  shows "queue_nodes s" "queue_lists xs ys s" "queue_clearer c ys s"
  using assms by (simp_all add: queue_ok_def)

lemma queue_okI [intro?]:
  "queue_nodes s \<Longrightarrow> queue_lists xs ys s \<Longrightarrow> queue_clearer c ys s \<Longrightarrow> queue_ok c xs ys s"
  by (simp add: queue_ok_def)

lemma clearerD: "queue_ok c xs ys s \<Longrightarrow> clearing (qpc s t) \<longleftrightarrow> c = Some t"
  by (simp add: queue_ok_def queue_clearer_def)

lemma listedD:
  "queue_ok c xs ys s \<Longrightarrow> t \<in> set xs \<or> t \<in> set ys \<longleftrightarrow> (\<exists>d. qheap s t = Some d \<and> \<not> parker d)"
  by (simp add: queue_ok_def queue_lists_def)

lemma nodeD: "queue_ok c xs ys s \<Longrightarrow> qheap s t \<noteq> None \<longleftrightarrow> qwaits (qpc s t)"
  by (simp add: queue_ok_def queue_nodes_def)

lemma queue_ok_new: "queue_ok None [] [] (parking_queue_new k)"
  by (simp add: queue_ok_def queue_nodes_def queue_lists_def queue_clearer_def parking_queue_new_def
      idle_layout)

text \<open>The client may change its own state at any time.\<close>

lemma queue_ok_client [simp]: "queue_ok c xs ys (s\<lparr>client := k\<rparr>) = queue_ok c xs ys s"
  by (simp add: queue_ok_def queue_nodes_def queue_lists_def queue_clearer_def)

subsection \<open>The abstract queue\<close>

text \<open>
  The contract: waiters are pushed on a list, the whole list is taken at once when nobody is
  left to wake, and the taken ones are woken from the newest to the oldest.
\<close>

inductive room_step :: "ptr \<Rightarrow> ptr list \<times> ptr list \<Rightarrow> ptr list \<times> ptr list \<Rightarrow> bool" for t where
  room_stay: "room_step t r r"
| room_push: "t \<notin> set (xs @ ys) \<Longrightarrow> room_step t (xs, ys) (t # xs, ys)"
| room_cut: "room_step t (xs, []) ([], xs)"
| room_wake: "room_step t (xs, y # ys) (xs, ys)"

definition calm :: "('c \<Rightarrow> bool) \<Rightarrow> ptr \<Rightarrow> 'c queue_sys \<Rightarrow> bool" where
  "calm retry t s \<longleftrightarrow> (case qpc s t of Q_recheck w \<Rightarrow> \<not> retry (client s) | _ \<Rightarrow> True)"

text \<open>What a calm step does, with the abstract step it stands for.\<close>

definition queue_after :: "ptr \<Rightarrow> ptr list \<Rightarrow> ptr list \<Rightarrow> 'c queue_sys outcome \<Rightarrow> bool" where
  "queue_after t xs ys r \<longleftrightarrow> r \<noteq> Fault \<and>
    (\<forall>s'. r = Next s' \<longrightarrow>
      (\<exists>c' xs' ys'. room_step t (xs, ys) (xs', ys') \<and> queue_ok c' xs' ys' s'))"

lemma queue_after_next:
  "queue_ok c' xs' ys' s' \<Longrightarrow> room_step t (xs, ys) (xs', ys') \<Longrightarrow> queue_after t xs ys (Next s')"
  unfolding queue_after_def by blast

lemma queue_after_stay: "queue_ok c' xs ys s' \<Longrightarrow> queue_after t xs ys (Next s')"
  using queue_after_next room_stay by blast

subsection \<open>Steps\<close>

lemma queue_ok_goto:
  assumes I: "queue_ok c xs ys s" and t: "valid_ptr t"
    and p: "qwaits p = qwaits (qpc s t)" "\<not> aborting p" "clearing p = clearing (qpc s t)"
      "clearing p \<Longrightarrow> held p = held (qpc s t)" "unpark_ok (qheap s) p"
  shows "queue_ok c xs ys (qgoto t p s)"
proof
  note D = queue_okD [OF I]
  show "queue_nodes (qgoto t p s)" using D(1) t p by (auto simp: queue_nodes_def)
  show "queue_lists xs ys (qgoto t p s)" using D(2) by (simp add: queue_lists_def)
  show "queue_clearer c ys (qgoto t p s)" using D(3) p by (auto simp: queue_clearer_def)
qed

lemma queue_push_ok:
  assumes I: "queue_ok c xs ys s" and t: "valid_ptr t"
    and p: "qpc s t = Q_push w (qstate s)"
  shows "queue_ok c (t # xs) ys (qgoto t (Q_recheck w)
    (qstore (set_queue_head (qstate s) t) (qwrite t (queue_node thread_data_new t (qstate s)) s)))"
    and "t \<notin> set (xs @ ys)"
proof -
  note D = queue_okD [OF I]
  let ?d = "queue_node thread_data_new t (qstate s)"
  have none: "qheap s t = None" using D(1) p by (metis queue_nodes_def qwaits.simps)
  have "\<not> (\<exists>d. qheap s t = Some d \<and> \<not> parker d)" using none by simp
  then show fresh: "t \<notin> set (xs @ ys)" using D(2) unfolding queue_lists_def by blast
  then have out: "t \<notin> set xs" "t \<notin> set ys" by simp_all
  have d: "\<not> parker ?d" "next ?d = queue_head (qstate s)"
    by (simp_all add: queue_node_new)
  let ?s = "qgoto t (Q_recheck w) (qstore (set_queue_head (qstate s) t) (qwrite t ?d s))"
  have "chain ((qheap s)(t \<mapsto> ?d)) (queue_head (qstate s)) xs"
    using D(2) chain_upd [OF out(1)] by (simp add: queue_lists_def)
  then have "queue_lists (t # xs) ys ?s"
    using D(2) out d valid_ptr_not_null [OF t] set_queue_head_layout [OF t]
    by (auto simp: queue_lists_def)
  moreover have "queue_nodes ?s" using D(1) t p by (auto simp: queue_nodes_def)
  moreover have "queue_clearer c ys ?s"
  proof -
    have "unpark_ok ((qheap s)(t \<mapsto> ?d)) q" if "unpark_ok (qheap s) q" for q
      using that none by (cases q) auto
    moreover have "c \<noteq> Some t" using clearerD [OF I, of t] p by simp
    ultimately show ?thesis
      using D(3) p set_queue_head_layout [OF t] chain_upd [OF out(2)]
      by (auto simp: queue_clearer_def)
  qed
  ultimately show "queue_ok c (t # xs) ys ?s" by (simp add: queue_ok_def)
qed

text \<open>A woken waiter leaves; it was on no list any more.\<close>

lemma leave_ok:
  assumes I: "queue_ok c xs ys s" and t: "valid_ptr t"
    and p: "qpc s t = Q_parked w" and d: "qheap s t = Some d" "parker d"
  shows "queue_ok c xs ys (closure_return t w s)"
proof
  note D = queue_okD [OF I]
  have out: "t \<notin> set xs" "t \<notin> set ys" using listedD [OF I, of t] d by auto
  show "queue_nodes (closure_return t w s)" using D(1) t by (auto simp: queue_nodes_def)
  show "queue_lists xs ys (closure_return t w s)"
    using D(2) out chain_upd [OF out(1)] by (auto simp: queue_lists_def)
  have "c \<noteq> Some t" using clearerD [OF I, of t] p by simp
  moreover have "unpark_ok ((qheap s)(t := None)) q" if "unpark_ok (qheap s) q" "held q \<noteq> t" for q
    using that by (cases q) auto
  moreover have "held (qpc s u) \<noteq> t" if "c = Some u" for u
  proof
    assume h: "held (qpc s u) = t"
    have "chain (qheap s) t ys" using D(3) that h by (auto simp: queue_clearer_def)
    then show False using chain_nonnull [OF valid_ptr_not_null [OF t]] out(2) by fastforce
  qed
  ultimately show "queue_clearer c ys (closure_return t w s)"
    using D(3) chain_upd [OF out(2)] by (auto simp: queue_clearer_def)
qed

lemma clear_word [simp]: "queue_head QUEUE_CLEAR_BIT = null" "locked QUEUE_CLEAR_BIT" "\<not> qlocked QUEUE_CLEAR_BIT"
  using idle_layout(5-8) by (simp_all add: QUEUE_CLEAR_BIT_def LOCKED_BIT_def)

lemma clear_iff: "st AND QUEUE_CLEAR_BIT \<noteq> 0 \<longleftrightarrow> locked st"
  using and_bit_eq_0(1) [of st] by (simp add: QUEUE_CLEAR_BIT_def LOCKED_BIT_def)

text \<open>The whole queue is cut off, by the first clearer or again by the one that has none left.\<close>

lemma cut_ok:
  assumes I: "queue_ok c xs [] s" and t: "valid_ptr t" and c: "c = None \<or> c = Some t"
    and p: "\<not> qwaits (qpc s t)"
  shows "queue_ok (Some t) [] xs
    (qgoto t (U_head (queue_head (qstate s))) (qstore QUEUE_CLEAR_BIT s))"
proof
  note D = queue_okD [OF I]
  let ?s = "qgoto t (U_head (queue_head (qstate s))) (qstore QUEUE_CLEAR_BIT s)"
  show "queue_nodes ?s" using D(1) t p by (auto simp: queue_nodes_def)
  show "queue_lists [] xs ?s" using D(2) by (simp add: queue_lists_def)
  show "queue_clearer (Some t) xs ?s" using D(2,3) c by (auto simp: queue_clearer_def queue_lists_def)
qed

text \<open>Nothing is left: the clear bit goes.\<close>

lemma clear_done_ok:
  assumes I: "queue_ok c xs ys s" and p: "qpc s t = U_head null"
  shows "ys = []"
    "queue_ok None xs [] (qgoto t Q_idle (qstore (qstate s AND NOT QUEUE_CLEAR_BIT) s))"
proof -
  note D = queue_okD [OF I]
  have c: "c = Some t" using clearerD [OF I, of t] p by simp
  then show "ys = []" using D(3) p by (auto simp: queue_clearer_def)
  let ?s = "qgoto t Q_idle (qstore (qstate s AND NOT QUEUE_CLEAR_BIT) s)"
  have w: "queue_head (qstate s AND NOT QUEUE_CLEAR_BIT) = queue_head (qstate s)"
    "\<not> locked (qstate s AND NOT QUEUE_CLEAR_BIT)"
    "qlocked (qstate s AND NOT QUEUE_CLEAR_BIT) = qlocked (qstate s)"
    using and_not_layout(1,2,4) [of "qstate s"] by (simp_all only: QUEUE_CLEAR_BIT_def LOCKED_BIT_def simp_thms)
  show "queue_ok None xs [] ?s"
  proof
    show "queue_nodes ?s" using D(1) p by (auto simp: queue_nodes_def)
    show "queue_lists xs [] ?s" using D(2) \<open>ys = []\<close> w by (simp add: queue_lists_def)
    show "queue_clearer None [] ?s" using D(3) c w by (auto simp: queue_clearer_def)
  qed
qed

text \<open>The clearing thread reads \<open>next\<close>, then unparks the node and forgets it.\<close>

lemma walk_ok:
  assumes I: "queue_ok c xs ys s" and t: "valid_ptr t" and p: "qpc s t = U_walk h" "h \<noteq> null"
  shows "\<exists>d. qheap s h = Some d \<and> queue_ok c xs ys (qgoto t (U_unpark h (next d)) s)"
proof -
  have c: "c = Some t" using clearerD [OF I, of t] p by simp
  then have "chain (qheap s) h ys" using queue_okD(3) [OF I] p by (auto simp: queue_clearer_def)
  from chain_nonnull [OF p(2) this] obtain d where d: "qheap s h = Some d" by blast
  have "queue_ok c xs ys (qgoto t (U_unpark h (next d)) s)"
    by (rule queue_ok_goto [OF I t]) (use p d in simp_all)
  with d show ?thesis by blast
qed

lemma queue_wake_ok:
  assumes I: "queue_ok c xs ys s" and t: "valid_ptr t" and p: "qpc s t = U_unpark h nh"
  shows "\<exists>d ys'. qheap s h = Some d \<and> ys = h # ys' \<and>
    queue_ok c xs ys' (qgoto t (U_walk nh) (qwrite h (d\<lparr>parker := True\<rparr>) s))"
proof -
  note D = queue_okD [OF I]
  have c: "c = Some t" using clearerD [OF I, of t] p by simp
  then have ch: "chain (qheap s) h ys" and "unpark_ok (qheap s) (U_unpark h nh)"
    using D(3) p by (auto simp: queue_clearer_def)
  then obtain d where d: "qheap s h = Some d" "next d = nh" by auto
  then have w: "qwaits (qpc s h)" using nodeD [OF I, of h] by simp
  then have "qpc s h \<noteq> Q_idle" by auto
  then have "valid_ptr h" using D(1) by (simp add: queue_nodes_def)
  from chain_nonnull [OF valid_ptr_not_null [OF this] ch] d obtain ys'
    where ys: "ys = h # ys'" "chain (qheap s) nh ys'" by auto
  have out: "h \<notin> set xs" "h \<notin> set ys'" using D(2) ys by (auto simp: queue_lists_def)
  let ?s = "qgoto t (U_walk nh) (qwrite h (d\<lparr>parker := True\<rparr>) s)"
  have "queue_ok c xs ys' ?s"
  proof
    have "\<not> qwaits (qpc s t)" using p by simp
    then have "qheap s t = None" using nodeD [OF I, of t] by blast
    then show "queue_nodes ?s" using D(1) t w p by (auto simp: queue_nodes_def)
    show "queue_lists xs ys' ?s"
      using D(2) ys out chain_upd [OF out(1)] by (auto simp: queue_lists_def)
    show "queue_clearer c ys' ?s"
      using D(3) c ys out chain_upd [OF out(2)] by (auto simp: queue_clearer_def)
  qed
  with d ys show ?thesis by blast
qed

subsection \<open>Every calm step keeps the invariant\<close>

lemma sleep_after:
  assumes "queue_ok c xs ys s" "valid_ptr t" "qpc s t = Q_parked w"
  shows "queue_after t xs ys (queue_park_sleep t w s)"
proof -
  have "qwaits (qpc s t)" using assms(3) by simp
  then obtain d where d: "qheap s t = Some d" using nodeD [OF assms(1), of t] by blast
  show ?thesis
  proof (cases "parker d")
    case True
    then show ?thesis
      using queue_after_stay [OF leave_ok [OF assms d True]] d
      by (simp add: queue_park_sleep_def qderef_def)
  qed (simp add: queue_park_sleep_def qderef_def d queue_after_def)
qed

lemma clearer_at:
  "queue_ok c xs ys s \<Longrightarrow> clearing (qpc s t) \<Longrightarrow> held (qpc s t) = null \<Longrightarrow> ys = []"
  using clearerD [of c xs ys s t] by (auto simp: queue_ok_def queue_clearer_def)

lemma loop_after:
  assumes I: "queue_ok c xs ys s" and t: "valid_ptr t" and p: "qpc s t = U_loop w st"
  shows "queue_after t xs ys (unpark_all_loop sp t w st s)"
proof -
  have "queue_ok c xs ys (qgoto t Q_idle s)" "queue_ok c xs ys (qgoto t (U_loop w' (qstate s)) s)" for w'
    using queue_ok_goto [OF I t] p by simp_all
  moreover have "c = None \<and> ys = []" if "st = qstate s" "\<not> locked st"
    using queue_okD(3) [OF I] that by (auto simp: queue_clearer_def)
  then have "queue_after t xs ys (Next (qgoto t (U_head (queue_head st)) (qstore QUEUE_CLEAR_BIT s)))"
    if "st = qstate s" "\<not> locked st"
    using queue_after_next [OF cut_ok [of c xs s t] room_cut] I t p that by simp
  ultimately show ?thesis
    unfolding unpark_all_loop_def clear_iff by (auto simp: qcas_ok_def Let_def intro: queue_after_stay)
qed

lemma clearer_after:
  assumes I: "queue_ok c xs ys s" and t: "valid_ptr t"
  shows "qpc s t = U_head h \<Longrightarrow> queue_after t xs ys (unpark_all_head t h s)"
    "qpc s t = U_walk h \<Longrightarrow> queue_after t xs ys (unpark_all_walk t h s)"
    "qpc s t = U_unpark h nh \<Longrightarrow> queue_after t xs ys (unpark_all_unpark t h nh s)"
    "qpc s t = U_cut st \<Longrightarrow> queue_after t xs ys (unpark_all_cut sp t st s)"
proof -
  show "queue_after t xs ys (unpark_all_head t h s)" if p: "qpc s t = U_head h"
  proof (cases "h = null")
    case True
    with p have "qpc s t = U_head null" by simp
    from queue_after_stay [OF clear_done_ok(2) [OF I this]] clear_done_ok(1) [OF I this] show ?thesis
      by (simp add: unpark_all_head_def True)
  next
    case False
    then show ?thesis
      using queue_after_stay [OF queue_ok_goto [OF I t, of "U_walk h"]] p
      by (simp add: unpark_all_head_def)
  qed
  show "queue_after t xs ys (unpark_all_walk t h s)" if p: "qpc s t = U_walk h"
  proof (cases "h = null")
    case True
    then show ?thesis
      using queue_after_stay [OF queue_ok_goto [OF I t, of U_reload]] p
      by (simp add: unpark_all_walk_def)
  next
    case False
    from walk_ok [OF I t p False] show ?thesis
      by (auto simp: unpark_all_walk_def qderef_def False intro: queue_after_stay)
  qed
  show "queue_after t xs ys (unpark_all_unpark t h nh s)" if "qpc s t = U_unpark h nh"
    using queue_wake_ok [OF I t that]
    by (auto simp: unpark_all_unpark_def qderef_def intro!: queue_after_next [OF _ room_wake])
  show "queue_after t xs ys (unpark_all_cut sp t st s)" if p: "qpc s t = U_cut st"
  proof -
    have ys: "ys = []" using clearer_at [OF I, of t] p by simp
    have "c = Some t" using clearerD [OF I, of t] p by simp
    then have "queue_after t xs ys
        (Next (qgoto t (U_head (queue_head (qstate s))) (qstore QUEUE_CLEAR_BIT s)))"
      using queue_after_next [OF cut_ok [of c xs s t] room_cut] I t p ys by simp
    moreover have "queue_ok c xs ys (qgoto t (U_cut (qstate s)) s)"
      using queue_ok_goto [OF I t] p by simp
    ultimately show ?thesis by (auto simp: unpark_all_cut_def qcas_ok_def intro: queue_after_stay)
  qed
qed

lemma park_after:
  assumes I: "queue_ok c xs ys s" and t: "valid_ptr t"
  shows "qpc s t = Q_retry w \<Longrightarrow> queue_after t xs ys (queue_park_retry retry t w s)"
    "qpc s t = Q_load w \<Longrightarrow> queue_after t xs ys (queue_park_load t w s)"
    "qpc s t = Q_push w st \<Longrightarrow> queue_after t xs ys (queue_park_push sp t w st s)"
    "qpc s t = Q_recheck w \<Longrightarrow> calm retry t s \<Longrightarrow> queue_after t xs ys (queue_park_recheck retry t w s)"
    "qpc s t = U_load w \<Longrightarrow> queue_after t xs ys (unpark_all_load t w s)"
    "qpc s t = U_reload \<Longrightarrow> queue_after t xs ys (Next (qgoto t (U_cut (qstate s)) s))"
proof -
  note G = queue_after_stay [OF queue_ok_goto [OF I t]]
  show "queue_after t xs ys (queue_park_retry retry t w s)" if "qpc s t = Q_retry w"
    using that by (auto simp: queue_park_retry_def intro!: G)
  show "queue_after t xs ys (queue_park_load t w s)" if "qpc s t = Q_load w"
    using that by (auto simp: queue_park_load_def intro!: G)
  show "queue_after t xs ys (queue_park_push sp t w st s)" if p: "qpc s t = Q_push w st"
  proof (cases "qcas_ok sp s st")
    case True
    then have "st = qstate s" by (simp add: qcas_ok_def)
    with p True show ?thesis
      using queue_push_ok [OF I t] by (auto simp: queue_park_push_def intro!: queue_after_next [OF _ room_push])
  next
    case False
    then show ?thesis using p by (auto simp: queue_park_push_def intro!: G)
  qed
  show "queue_after t xs ys (queue_park_recheck retry t w s)" if "qpc s t = Q_recheck w" "calm retry t s"
    using that by (auto simp: queue_park_recheck_def calm_def intro!: G)
  show "queue_after t xs ys (unpark_all_load t w s)" if "qpc s t = U_load w"
    using that by (auto simp: unpark_all_load_def intro!: G)
  show "queue_after t xs ys (Next (qgoto t (U_cut (qstate s)) s))" if "qpc s t = U_reload"
    using that by (auto intro!: G)
qed

lemma queue_exec_ok:
  assumes I: "queue_ok c xs ys s" and t: "valid_ptr t" and "calm retry t s"
  shows "queue_after t xs ys (queue_exec retry sp t s)"
proof -
  have "\<not> aborting (qpc s t)" using queue_okD(1) [OF I] by (simp add: queue_nodes_def)
  then show ?thesis
    using assms(3) park_after [OF I t] clearer_after [OF I t] sleep_after [OF I t] loop_after [OF I t]
    by (cases "qpc s t") (simp_all add: queue_exec_def queue_after_def [of _ _ _ Blocked])
qed

end
