(* ===== verification/Parking_Queue_Progress.thy ===== *)
theory Parking_Queue_Progress
  imports Parking_Queue_Inv
begin

section \<open>ParkingQueue: \<open>unpark_all\<close> finishes and wakes everybody\<close>

text \<open>A thread that runs alone, without spurious failures of the weak exchanges.\<close>

primrec queue_solo :: "('c \<Rightarrow> bool) \<Rightarrow> nat \<Rightarrow> ptr \<Rightarrow> 'c queue_sys \<Rightarrow> 'c queue_sys outcome" where
  "queue_solo retry 0 t s = Next s"
| "queue_solo retry (Suc n) t s =
    (case queue_exec retry False t s of Next s' \<Rightarrow> queue_solo retry n t s' | r \<Rightarrow> r)"

definition queue_reaches :: "('c \<Rightarrow> bool) \<Rightarrow> ptr \<Rightarrow> 'c queue_sys \<Rightarrow> 'c queue_sys \<Rightarrow> bool" where
  "queue_reaches retry t s s' \<longleftrightarrow> (\<exists>n. queue_solo retry n t s = Next s')"

lemma queue_reaches_refl [intro]: "queue_reaches retry t s s"
  unfolding queue_reaches_def by (rule exI [of _ 0]) simp

lemma queue_reaches_step:
  assumes "queue_exec retry False t s = Next s1" "queue_reaches retry t s1 s'"
  shows "queue_reaches retry t s s'"
proof -
  obtain n where "queue_solo retry n t s1 = Next s'" using assms(2) by (auto simp: queue_reaches_def)
  then have "queue_solo retry (Suc n) t s = Next s'" using assms(1) by simp
  then show ?thesis unfolding queue_reaches_def by blast
qed

lemma queue_solo_append:
  "queue_solo retry n t s = Next s1 \<Longrightarrow> queue_solo retry (n + m) t s = queue_solo retry m t s1"
  by (induction n arbitrary: s) (auto split: outcome.splits)

lemma queue_reaches_trans:
  assumes "queue_reaches retry t s s1" "queue_reaches retry t s1 s'"
  shows "queue_reaches retry t s s'"
  using assms queue_solo_append [of retry _ t s s1] unfolding queue_reaches_def by metis

text \<open>The walk over what was cut off wakes all of it.\<close>

lemma solo_walk:
  assumes "queue_ok c xs ys s" "valid_ptr t" "qpc s t = U_walk h"
  shows "\<exists>s'. queue_reaches retry t s s' \<and> queue_ok c xs [] s' \<and>
    qpc s' = (qpc s)(t := U_walk null) \<and> qstate s' = qstate s"
  using assms
proof (induction ys arbitrary: s h)
  case Nil
  then have "h = null" using queue_okD(3) [OF Nil.prems(1)] clearerD [OF Nil.prems(1), of t]
    by (auto simp: queue_clearer_def)
  then have "(qpc s)(t := U_walk null) = qpc s" using Nil.prems(3) by auto
  then show ?case using Nil.prems(1) by fastforce
next
  case (Cons y ys)
  note I = Cons.prems(1)
  have "chain (qheap s) h (y # ys)"
    using queue_okD(3) [OF I] clearerD [OF I, of t] Cons.prems(3) by (auto simp: queue_clearer_def)
  then have h: "h \<noteq> null" by auto
  from walk_ok [OF I Cons.prems(2,3) h] obtain d where
    d: "qheap s h = Some d" and I1: "queue_ok c xs (y # ys) (qgoto t (U_unpark h (next d)) s)" by blast
  let ?s1 = "qgoto t (U_unpark h (next d)) s"
  from queue_wake_ok [OF I1 Cons.prems(2)] d obtain
    I2: "queue_ok c xs ys (qgoto t (U_walk (next d)) (qwrite h (d\<lparr>parker := True\<rparr>) ?s1))" by auto
  let ?s2 = "qgoto t (U_walk (next d)) (qwrite h (d\<lparr>parker := True\<rparr>) ?s1)"
  have "qpc ?s2 t = U_walk (next d)" by simp
  from Cons.IH [OF I2 Cons.prems(2) this] obtain s' where s': "queue_reaches retry t ?s2 s'"
    "queue_ok c xs [] s'" "qpc s' = (qpc ?s2)(t := U_walk null)" "qstate s' = qstate ?s2" by blast
  have "queue_exec retry False t s = Next ?s1"
    using Cons.prems(3) h d by (simp add: queue_exec_def unpark_all_walk_def qderef_def)
  moreover have "queue_exec retry False t ?s1 = Next ?s2"
    using d by (simp add: queue_exec_def unpark_all_unpark_def qderef_def)
  ultimately have "queue_reaches retry t s s'" using s'(1) by (blast intro: queue_reaches_step)
  moreover have "qpc s' = (qpc s)(t := U_walk null)" "qstate s' = qstate s"
    using s'(3,4) by simp_all
  ultimately show ?case using s'(2) by blast
qed

text \<open>One round: walk the list, take what has come in the meantime.\<close>

lemma solo_round:
  assumes "queue_ok c xs ys s" "valid_ptr t" "qpc s t = U_walk h"
  shows "\<exists>s' h'. queue_reaches retry t s s' \<and> queue_ok (Some t) [] xs s' \<and>
    qpc s' = (qpc s)(t := U_head h')"
proof -
  from solo_walk [OF assms] obtain s1 where s1: "queue_reaches retry t s s1" "queue_ok c xs [] s1"
    "qpc s1 = (qpc s)(t := U_walk null)" by blast
  let ?s2 = "qgoto t U_reload s1"
  let ?s3 = "qgoto t (U_cut (qstate s1)) ?s2"
  let ?s4 = "qgoto t (U_head (queue_head (qstate s1))) (qstore QUEUE_CLEAR_BIT ?s3)"
  have I3: "queue_ok c xs [] ?s3"
    by (rule queue_ok_goto [OF queue_ok_goto [OF s1(2) assms(2)] assms(2)]) (simp_all add: s1(3))
  have "c = Some t" using clearerD [OF I3, of t] by simp
  then have I4: "queue_ok (Some t) [] xs ?s4"
    using cut_ok [OF I3 assms(2)] by simp
  have "queue_exec retry False t s1 = Next ?s2" "queue_exec retry False t ?s2 = Next ?s3"
    "queue_exec retry False t ?s3 = Next ?s4"
    by (simp_all add: s1(3) queue_exec_def unpark_all_walk_def unpark_all_cut_def qcas_ok_def)
  then have "queue_reaches retry t s1 ?s4" by (blast intro: queue_reaches_step)
  with s1(1) have "queue_reaches retry t s ?s4" by (rule queue_reaches_trans)
  then show ?thesis using I4 s1(3) by (intro exI [of _ ?s4]) auto
qed

lemma solo_finish:
  assumes "queue_ok (Some t) [] [] s" "valid_ptr t" "qpc s t = U_head h"
  shows "\<exists>s'. queue_reaches retry t s s' \<and> queue_ok None [] [] s' \<and> qpc s' = (qpc s)(t := Q_idle)"
proof -
  have h: "h = null" using queue_okD(3) [OF assms(1)] assms(3) by (auto simp: queue_clearer_def)
  with assms(3) have p: "qpc s t = U_head null" by simp
  have "queue_exec retry False t s = Next (qgoto t Q_idle (qstore (qstate s AND NOT QUEUE_CLEAR_BIT) s))"
    by (simp add: queue_exec_def p unpark_all_head_def)
  then show ?thesis
    using clear_done_ok(2) [OF assms(1) p]
    by (fastforce intro: queue_reaches_step)
qed

lemma solo_head:
  assumes "queue_ok (Some t) xs ys s" "valid_ptr t" "qpc s t = U_head h" "xs = []"
  shows "\<exists>s'. queue_reaches retry t s s' \<and> queue_ok None [] [] s' \<and> qpc s' = (qpc s)(t := Q_idle)"
proof (cases "h = null")
  case True
  then show ?thesis using solo_finish assms clear_done_ok(1) [OF assms(1)] by auto
next
  case False
  have I1: "queue_ok (Some t) xs ys (qgoto t (U_walk h) s)"
    using queue_ok_goto [OF assms(1,2), of "U_walk h"] assms(3) by simp
  from solo_round [OF I1 assms(2), of h retry] obtain s2 h2 where s2:
    "queue_reaches retry t (qgoto t (U_walk h) s) s2" "queue_ok (Some t) [] [] s2"
    "qpc s2 = (qpc s)(t := U_head h2)" using assms(4) by auto
  have "queue_exec retry False t s = Next (qgoto t (U_walk h) s)"
    by (simp add: queue_exec_def assms(3) unpark_all_head_def False)
  then have "queue_reaches retry t s s2" using s2(1) by (rule queue_reaches_step)
  moreover obtain s3 where "queue_reaches retry t s2 s3" "queue_ok None [] [] s3"
    "qpc s3 = (qpc s)(t := Q_idle)" using solo_finish [OF s2(2) assms(2)] s2(3) by fastforce
  ultimately show ?thesis using queue_reaches_trans by blast
qed

text \<open>
  \<open>unpark_all\<close> of a thread that nobody disturbs returns. When it finds no other clearer, nobody is
  left on the queue.
\<close>

lemma solo_unpark_all:
  assumes I: "queue_ok c xs ys s" and t: "valid_ptr t" and p: "qpc s t = U_load w"
  shows "\<exists>s'. queue_reaches retry t s s' \<and> qpc s' = (qpc s)(t := Q_idle) \<and>
    (if c = None then queue_ok None [] [] s' else queue_ok c xs ys s')"
proof -
  let ?s1 = "qgoto t (U_loop w (qstate s)) s"
  have I1: "queue_ok c xs ys ?s1"
    using queue_ok_goto [OF I t, of "U_loop w (qstate s)"] p by simp
  have e1: "queue_exec retry False t s = Next ?s1"
    by (simp add: queue_exec_def p unpark_all_load_def)
  have w: "\<not> is_queue_locked (qstate s)" "locked (qstate s) \<longleftrightarrow> c \<noteq> None" "c = None \<Longrightarrow> ys = []"
    using queue_okD(3) [OF I] by (auto simp: queue_clearer_def is_queue_locked_iff)
  show ?thesis
  proof (cases "c = None")
    case True
    let ?s2 = "qgoto t (U_head (queue_head (qstate s))) (qstore QUEUE_CLEAR_BIT ?s1)"
    have "queue_exec retry False t ?s1 = Next ?s2"
      using w True unfolding queue_exec_def unpark_all_loop_def clear_iff by (simp add: qcas_ok_def)
    then have "queue_reaches retry t s ?s2"
      using e1 queue_reaches_step queue_reaches_refl by metis
    moreover have "queue_ok (Some t) [] xs ?s2"
      using cut_ok [of c xs ?s1 t] I1 t True w(3) by simp
    then obtain s3 where "queue_reaches retry t ?s2 s3" "queue_ok None [] [] s3"
      "qpc s3 = (qpc s)(t := Q_idle)" using solo_head [of t "[]" xs ?s2] t by fastforce
    ultimately show ?thesis using True queue_reaches_trans by fastforce
  next
    case False
    have "queue_exec retry False t ?s1 = Next (qgoto t Q_idle ?s1)"
      using w False unfolding queue_exec_def unpark_all_loop_def clear_iff by simp
    then have "queue_reaches retry t s (qgoto t Q_idle ?s1)"
      using e1 queue_reaches_step queue_reaches_refl by metis
    moreover have "queue_ok c xs ys (qgoto t Q_idle ?s1)"
      using queue_ok_goto [OF I1 t, of Q_idle] by simp
    ultimately show ?thesis using False by (intro exI [of _ "qgoto t Q_idle ?s1"]) (simp del: not_None_eq)
  qed
qed

end
