(* ===== verification/Wait_Group_Calm.thy ===== *)
theory Wait_Group_Calm
  imports Wait_Group Parking_Queue_Progress
begin

section \<open>WaitGroup: the waiters are released\<close>

text \<open>
  Runs in which the client keeps to its part and no waiter gives up after its push: nothing is
  added to a counter of zero while a thread is still inside the group, the counter does not
  overflow and \<open>done\<close> is not called below one. In these runs no step touches a freed node,
  everybody who sleeps at zero is woken, and \<open>unpark_all\<close> returns. Without the first condition a
  waiter can be missed, see \<open>wait_group_misses_waiter\<close>.
\<close>

definition wg_allowed :: "wcall \<Rightarrow> ptr \<Rightarrow> wait_group \<Rightarrow> bool" where
  "wg_allowed c t g \<longleftrightarrow>
    (if qpc g t = Q_idle then
       (case c of
          W_add n \<Rightarrow> sint (workers g) + uint n < 2 ^ 63 \<and>
            (0 < sint (workers g) \<or> (\<forall>u. qpc g u = Q_idle))
        | W_done \<Rightarrow> 1 \<le> sint (workers g)
        | W_wait \<Rightarrow> True)
     else calm wait_over t g)"

inductive wg_calm_run :: "u64 \<Rightarrow> wait_group \<Rightarrow> bool" for n0 where
  calm_init: "wg_calm_run n0 (with_size n0)"
| calm_step: "wg_calm_run n0 g \<Longrightarrow> valid_ptr t \<Longrightarrow> wg_allowed c t g \<Longrightarrow>
    wg_exec c sp t g = Next g' \<Longrightarrow> wg_calm_run n0 g'"

subsection \<open>The invariant\<close>

text \<open>A thread in \<open>unpark_all\<close> that has not taken the queue yet, or at all.\<close>

fun fresh :: "qpc \<Rightarrow> bool" where
  "fresh (U_load w) = True"
| "fresh (U_loop w st) = True"
| "fresh _ = False"

definition unparking :: "qpc \<Rightarrow> bool" where
  "unparking p \<longleftrightarrow> fresh p \<or> clearing p"

fun sleeps :: "qpc \<Rightarrow> bool" where
  "sleeps (Q_parked w) = True"
| "sleeps _ = False"

fun fresh_ok :: "qpc \<Rightarrow> bool" where
  "fresh_ok (U_loop w st) = (\<not> locked st)"
| "fresh_ok _ = True"

text \<open>
  There is at most one thread in \<open>unpark_all\<close>, and only at zero; whoever sleeps on the queue at
  zero has such a thread that has still to take the queue.
\<close>

definition group_ok :: "ptr list \<Rightarrow> wait_group \<Rightarrow> bool" where
  "group_ok xs g \<longleftrightarrow> 0 \<le> sint (client g) \<and>
    (\<forall>t. unparking (qpc g t) \<longrightarrow> client g = 0) \<and>
    (\<forall>t u. unparking (qpc g t) \<longrightarrow> unparking (qpc g u) \<longrightarrow> t = u) \<and>
    (\<forall>t. fresh_ok (qpc g t)) \<and>
    (client g = 0 \<longrightarrow> (\<forall>x \<in> set xs. sleeps (qpc g x) \<longrightarrow> (\<exists>u. fresh (qpc g u))))"

definition wg_ok :: "wait_group \<Rightarrow> bool" where
  "wg_ok g \<longleftrightarrow> (\<exists>c xs ys. queue_ok c xs ys g \<and> group_ok xs g)"

lemma queue_exec_moves:
  assumes "queue_exec retry sp t s = Next s'" "\<not> aborting (qpc s t)" "calm retry t s"
  shows "\<forall>u. u \<noteq> t \<longrightarrow> qpc s' u = qpc s u"
    "sleeps (qpc s' t) \<longrightarrow> (\<exists>w. qpc s t = Q_recheck w) \<and> \<not> retry (client s)"
    "unparking (qpc s' t) \<longrightarrow> unparking (qpc s t)"
    "fresh (qpc s t) \<longrightarrow> (case qpc s t of U_loop w st \<Rightarrow> locked st | _ \<Rightarrow> False) \<or>
      (\<exists>w. qpc s' t = U_loop w (qstate s)) \<or> clearing (qpc s' t) \<and> qstate s' = QUEUE_CLEAR_BIT"
    "fresh (qpc s' t) \<longrightarrow> fresh (qpc s t) \<and> (\<exists>w. qpc s' t = U_loop w (qstate s))"
  using assms
  by (cases "qpc s t";
      auto simp: queue_steps unparking_def calm_def clear_iff
        split: if_splits option.splits)+

lemma room_step_subset: "room_step t (xs, ys) (xs', ys') \<Longrightarrow> set xs' \<subseteq> insert t (set xs)"
  by (auto elim: room_step.cases)

lemma group_ok_step:
  assumes Q: "queue_ok c xs ys g" and Q': "queue_ok c' xs' ys' g'" and G: "group_ok xs g"
    and r: "room_step t (xs, ys) (xs', ys')" and calm: "calm wait_over t g"
    and e: "queue_exec wait_over sp t g = Next g'"
  shows "group_ok xs' g'"
proof -
  have "\<not> aborting (qpc g t)" using queue_okD(1) [OF Q] by (simp add: queue_nodes_def)
  note M = queue_exec_moves [OF e this calm]
  have cl: "client g' = client g" by (rule queue_exec_client [OF e])
  have "fresh (qpc g t) \<Longrightarrow> c = None"
    using G clearerD [OF Q] unfolding group_ok_def unparking_def
    by (cases c) (metis clearing.simps fresh.elims(2))+
  then have unlocked: "\<not> locked (qstate g)" if "fresh (qpc g t)"
    using that queue_okD(3) [OF Q] by (simp add: queue_clearer_def)
  have f: "fresh_ok (qpc g' t)"
    using M(5) unlocked by (cases "qpc g' t") auto
  have "\<exists>u. fresh (qpc g' u)" if z: "client g = 0" and x: "x \<in> set xs'" "sleeps (qpc g' x)" for x
  proof -
    have "x \<noteq> t" using M(2) x(2) z by (auto simp: wait_over_def)
    then have "x \<in> set xs" "sleeps (qpc g x)" using room_step_subset [OF r] M(1) x by auto
    then obtain u where u: "fresh (qpc g u)" using G z by (auto simp: group_ok_def)
    show ?thesis
    proof (cases "u = t")
      case True
      then have "fresh_ok (qpc g t)" "fresh (qpc g t)" using G u by (simp_all add: group_ok_def)
      then consider w where "qpc g' t = U_loop w (qstate g)" | "qstate g' = QUEUE_CLEAR_BIT"
        using M(4) by (auto split: qpc.splits)
      then show ?thesis
      proof cases
        case 2
        then have "xs' = []" using queue_okD(2) [OF Q'] by (simp add: queue_lists_def)
        then show ?thesis using x by simp
      qed (metis fresh.simps(2))
    qed (use u M(1) in metis)
  qed
  then show ?thesis
    using G M(1,3) cl f unfolding group_ok_def by metis
qed

subsection \<open>Every run keeps it\<close>

lemma sint_1 [simp]: "sint (1 :: u64) = 1"
  by simp

lemma wg_ok_start:
  assumes "queue_ok c xs ys g" "valid_ptr t" "qpc g t = Q_idle" "p \<in> {Q_idle, U_load spin_wait_new, Q_retry spin_wait_new}"
  shows "queue_ok c xs ys (qgoto t p (g\<lparr>client := k\<rparr>))"
proof -
  have "queue_ok c xs ys (g\<lparr>client := k\<rparr>)" using assms(1) by simp
  then show ?thesis by (rule queue_ok_goto) (use assms in auto)
qed

lemma sint_add_nonneg:
  assumes "0 \<le> sint (a :: u64)" "sint a + uint n < 2 ^ 63"
  shows "sint (a + n) = sint a + uint n"
proof -
  have "a + n = (word_of_int (sint a + uint n) :: u64)" by simp
  then have "sint (a + n) = signed_take_bit 63 (sint a + uint n)"
    by (simp only: sint_sbintrunc') simp
  also have "0 \<le> sint a + uint n" using assms(1) by simp
  then have "signed_take_bit 63 (sint a + uint n) = sint a + uint n"
    using assms(2) by (intro signed_take_bit_int_eq_self) simp_all
  finally show ?thesis .
qed

lemma sint_minus_1: "1 \<le> sint (a :: u64) \<Longrightarrow> sint (a - 1) = sint a - 1"
proof -
  assume a: "1 \<le> sint a"
  have "sint a < 2 ^ 63" using sint_lt [of a] by simp
  have "a - 1 = (word_of_int (sint a - 1) :: u64)" by simp
  then have "sint (a - 1) = signed_take_bit 63 (sint a - 1)"
    by (simp only: sint_sbintrunc') simp
  also have "\<dots> = sint a - 1"
    by (rule signed_take_bit_int_eq_self) (use a \<open>sint a < 2 ^ 63\<close> in auto)
  finally show ?thesis .
qed

text \<open>A call of the client: the group moves only in its counter and in the caller's location.\<close>

lemma queue_client_simps: "client (s\<lparr>client := k\<rparr>) = k" "qpc (s\<lparr>client := k\<rparr>) = qpc s"
  by simp_all

lemma group_ok_call:
  assumes G: "group_ok xs g" and t: "qpc g t = Q_idle" and k: "0 \<le> sint k"
    and p: "p \<in> {Q_idle, U_load spin_wait_new, Q_retry spin_wait_new}"
    and add: "\<And>u. unparking (qpc g u) \<Longrightarrow> k = 0"
    and unpark: "p = U_load spin_wait_new \<Longrightarrow> k = 0 \<and> client g \<noteq> 0"
    and zero: "k = 0 \<Longrightarrow> client g \<noteq> 0 \<Longrightarrow> p = U_load spin_wait_new"
  shows "group_ok xs (qgoto t p (g\<lparr>client := k\<rparr>))"
proof -
  have *: "\<not> unparking (qpc g t)" "\<not> sleeps (qpc g t)" "\<not> fresh (qpc g t)"
    using t by (simp_all add: unparking_def)
  have none: "\<not> unparking (qpc g u)" if "p = U_load spin_wait_new" for u
    using unpark [OF that] G by (auto simp: group_ok_def)
  have wake: "\<exists>u. fresh (((qpc g)(t := p)) u)"
    if z: "k = 0" "x \<in> set xs" "sleeps (((qpc g)(t := p)) x)" for x
  proof (cases "p = U_load spin_wait_new")
    case True
    then show ?thesis by (intro exI [of _ t]) simp
  next
    case False
    have "x \<noteq> t" using z(3) p by auto
    moreover have "client g = 0" using zero z(1) False by blast
    ultimately obtain u where "fresh (qpc g u)" using G z by (auto simp: group_ok_def)
    then show ?thesis using *(3) by (intro exI [of _ u]) auto
  qed
  have one: "u = v"
    if "unparking (((qpc g)(t := p)) u)" "unparking (((qpc g)(t := p)) v)" for u v
  proof (cases "p = U_load spin_wait_new")
    case True
    then show ?thesis using none that by (auto split: if_splits)
  next
    case False
    then have "\<not> unparking p" using p by (auto simp: unparking_def)
    then show ?thesis using that G by (auto simp: group_ok_def split: if_splits)
  qed
  have at_zero: "k = 0" if "unparking (((qpc g)(t := p)) u)" for u
    using that add unpark p by (auto simp: unparking_def split: if_splits)
  have "fresh_ok (((qpc g)(t := p)) u)" for u using G p by (auto simp: group_ok_def)
  with k wake one at_zero show ?thesis
    unfolding group_ok_def queue_simps queue_client_simps by blast
qed

lemma wg_exec_ok:
  assumes "wg_ok g" and t: "valid_ptr t" and a: "wg_allowed c t g"
  shows "wg_exec c sp t g \<noteq> Fault \<and> (\<forall>g'. wg_exec c sp t g = Next g' \<longrightarrow> wg_ok g')"
proof -
  obtain o1 xs ys where Q: "queue_ok o1 xs ys g" and G: "group_ok xs g"
    using assms(1) by (auto simp: wg_ok_def)
  show ?thesis
  proof (cases "qpc g t = Q_idle")
    case False
    then have "calm wait_over t g" "wg_exec c sp t g = queue_exec wait_over sp t g"
      using a by (simp_all add: wg_allowed_def wg_exec_def)
    then show ?thesis
      using queue_exec_ok [OF Q t, of wait_over sp] group_ok_step [OF Q _ G]
      unfolding queue_after_def wg_ok_def by metis
  next
    case True
    have start: "wg_ok (qgoto t p (g\<lparr>client := k\<rparr>))" if "group_ok xs (qgoto t p (g\<lparr>client := k\<rparr>))"
      "p \<in> {Q_idle, U_load spin_wait_new, Q_retry spin_wait_new}" for p k
      using wg_ok_start [OF Q t True that(2), of k] that(1) unfolding wg_ok_def by blast
    have idle: "qgoto t Q_idle (g\<lparr>client := k\<rparr>) = g\<lparr>client := k\<rparr>" for k
      using True by (simp add: qgoto_def fun_upd_idem)
    have pos: "0 \<le> sint (client g)" "unparking (qpc g u) \<Longrightarrow> client g = 0" for u
      using G by (auto simp: group_ok_def)
    show ?thesis
    proof (cases c)
      case (W_add n)
      then have n: "sint (client g) + uint n < 2 ^ 63" "0 < sint (client g) \<or> (\<forall>u. qpc g u = Q_idle)"
        using a True by (simp_all add: wg_allowed_def workers_def)
      note s = sint_add_nonneg [OF pos(1) n(1)]
      have "group_ok xs (qgoto t Q_idle (g\<lparr>client := client g + n\<rparr>))"
      proof (rule group_ok_call [OF G True])
        show "0 \<le> sint (client g + n)" using s pos(1) by simp
        show "client g + n = 0" if "unparking (qpc g u)" for u
        proof -
          have "qpc g u \<noteq> Q_idle" "client g = 0" using that pos(2) by (auto simp: unparking_def)
          then show ?thesis using n(2) by auto
        qed
        show "Q_idle = U_load spin_wait_new" if "client g + n = 0" "client g \<noteq> 0"
        proof -
          have "sint (client g + n) = 0" using that(1) by simp
          then have "sint (client g) = 0" using s pos(1) uint_ge_0 [of n] by linarith
          then show ?thesis using that(2) by (simp add: signed_eq_0_iff)
        qed
      qed simp_all
      from start [OF this] show ?thesis using W_add True by (simp add: wg_exec_def wg_add_def idle)
    next
      case W_done
      then have n: "1 \<le> sint (client g)" using a True by (simp add: wg_allowed_def workers_def)
      then have nz: "client g \<noteq> 0" by auto
      define p where "p = (if client g = 1 then U_load spin_wait_new else Q_idle)"
      have "group_ok xs (qgoto t p (g\<lparr>client := client g - 1\<rparr>))"
      proof (rule group_ok_call [OF G True])
        show "0 \<le> sint (client g - 1)" using sint_minus_1 [OF n] n by simp
      qed (use pos(2) nz in \<open>auto simp: p_def split: if_splits\<close>)
      moreover have "wg_exec c sp t g = Next (qgoto t p (g\<lparr>client := client g - 1\<rparr>))"
        using n True W_done by (simp add: wg_exec_def wg_done_def Let_def p_def)
      ultimately show ?thesis using start [of p] by (simp add: p_def)
    next
      case W_wait
      have "group_ok xs (qgoto t (Q_retry spin_wait_new) (g\<lparr>client := client g\<rparr>))"
        by (rule group_ok_call [OF G True]) (use pos in auto)
      then show ?thesis using start [of _ "client g"] W_wait True by (simp add: wg_exec_def wg_wait_def)
    qed
  qed
qed

lemma wg_calm_ok:
  assumes "0 \<le> sint n0" "wg_calm_run n0 g"
  shows "wg_ok g"
  using assms(2)
proof (induction rule: wg_calm_run.induct)
  case calm_init
  have "group_ok [] (with_size n0)"
    using assms(1) by (simp add: group_ok_def with_size_def parking_queue_new_def unparking_def)
  then show ?case using queue_ok_new [of n0] by (auto simp: wg_ok_def with_size_def)
next
  case (calm_step g t c sp g')
  then show ?case using wg_exec_ok by blast
qed

subsection \<open>What the group guarantees\<close>

text \<open>
  C14: while the client keeps to its part and no waiter gives up after its push, the queue is what
  it should be: its nodes form the list of sleeping waiters, every step is a step of the abstract
  queue (push in front, take the whole list when none is left to wake, wake the newest) and no
  step accesses a node that does not exist.
\<close>

theorem parking_queue_refines:
  assumes "0 \<le> sint n0" "wg_calm_run n0 g"
  shows "\<exists>c xs ys. queue_ok c xs ys g \<and>
    (\<forall>t \<in> {t. valid_ptr t \<and> calm wait_over t g}. queue_after t xs ys (queue_exec wait_over sp t g))"
proof -
  obtain c xs ys where "queue_ok c xs ys g" using wg_calm_ok [OF assms] by (auto simp: wg_ok_def)
  then show ?thesis using queue_exec_ok by blast
qed

theorem parking_queue_refines_witness: "\<exists>c xs ys. queue_ok c xs ys (with_size 3)"
  using parking_queue_refines [of 3, OF _ calm_init] by simp blast

lemma node_of_parked: "queue_ok c xs ys g \<Longrightarrow> qpc g t = Q_parked w \<Longrightarrow> \<exists>d. qheap g t = Some d"
  using nodeD [of c xs ys g t] by simp

lemma awake_if_unlisted:
  "queue_ok c xs ys g \<Longrightarrow> t \<notin> set xs \<Longrightarrow> t \<notin> set ys \<Longrightarrow> qheap g t = Some d \<Longrightarrow> parker d"
  using listedD [of c xs ys g t] by blast

text \<open>Schedules that keep to the rules, to reach concrete states.\<close>

definition wg_check :: "wcall \<Rightarrow> ptr \<Rightarrow> wait_group \<Rightarrow> bool" where
  "wg_check c t g \<longleftrightarrow> valid_ptr t \<and>
    (if qpc g t = Q_idle then
       (case c of W_add n \<Rightarrow> False | W_done \<Rightarrow> 1 \<le> sint (workers g) | W_wait \<Rightarrow> True)
     else calm wait_over t g)"

primrec calm_schedule :: "(wcall \<times> ptr) list \<Rightarrow> wait_group \<Rightarrow> wait_group outcome" where
  "calm_schedule [] g = Next g"
| "calm_schedule (p # ps) g =
    (if wg_check (fst p) (snd p) g then
       (case wg_exec (fst p) False (snd p) g of Next g' \<Rightarrow> calm_schedule ps g' | r \<Rightarrow> r)
     else Blocked)"

lemma calm_schedule_run:
  "wg_calm_run n0 g \<Longrightarrow> calm_schedule ps g = Next g' \<Longrightarrow> wg_calm_run n0 g' \<and> wg_schedule ps g = Next g'"
proof (induction ps arbitrary: g)
  case (Cons p ps)
  from Cons.prems(2) obtain g1 where g1: "wg_check (fst p) (snd p) g"
    "wg_exec (fst p) False (snd p) g = Next g1" "calm_schedule ps g1 = Next g'"
    by (auto split: if_splits outcome.splits)
  have "wg_allowed (fst p) (snd p) g" "valid_ptr (snd p)"
    using g1(1) by (auto simp: wg_check_def wg_allowed_def split: if_splits wcall.splits)
  then have "wg_calm_run n0 g1" using calm_step [OF Cons.prems(1)] g1(2) by blast
  from Cons.IH [OF this g1(3)] show ?case using g1(2) by simp
qed simp

text \<open>8 waits and sleeps, 16 does the only piece of work: up to the start of \<open>unpark_all\<close>, or to its end.\<close>

definition woken_schedule :: "nat \<Rightarrow> (wcall \<times> ptr) list" where
  "woken_schedule n = replicate 15 (W_wait, 8) @ replicate n (W_done, 16)"

lemma woken_states:
  "\<exists>g. wg_calm_run 1 g \<and> qpc g 8 = Q_parked \<lparr>counter = 10\<rparr> \<and> qpc g 16 = U_load \<lparr>counter = 0\<rparr>"
  "\<exists>g. wg_calm_run 1 g \<and> workers g = 0 \<and> qpc g 8 = Q_parked \<lparr>counter = 10\<rparr> \<and>
    (\<forall>u. \<not> unparking (qpc g u))"
proof -
  have "case calm_schedule (woken_schedule 1) (with_size 1) of Blocked \<Rightarrow> False | Fault \<Rightarrow> False
    | Next g \<Rightarrow> qpc g 8 = Q_parked \<lparr>counter = 10\<rparr> \<and> qpc g 16 = U_load \<lparr>counter = 0\<rparr>"
    by code_simp
  then show "\<exists>g. wg_calm_run 1 g \<and> qpc g 8 = Q_parked \<lparr>counter = 10\<rparr> \<and> qpc g 16 = U_load \<lparr>counter = 0\<rparr>"
    unfolding outcome_iff using calm_schedule_run [OF calm_init] by blast
  have "case calm_schedule (woken_schedule 10) (with_size 1) of Blocked \<Rightarrow> False | Fault \<Rightarrow> False
    | Next g \<Rightarrow> workers g = 0 \<and> qpc g 8 = Q_parked \<lparr>counter = 10\<rparr> \<and> qpc g 16 = Q_idle"
    by code_simp
  then obtain g where g: "calm_schedule (woken_schedule 10) (with_size 1) = Next g" "workers g = 0"
    "qpc g 8 = Q_parked \<lparr>counter = 10\<rparr>" "qpc g 16 = Q_idle"
    unfolding outcome_iff by blast
  have run: "wg_calm_run 1 g" "wg_schedule (woken_schedule 10) (with_size 1) = Next g"
    using calm_schedule_run [OF calm_init g(1)] by simp_all
  have "\<not> unparking (qpc g u)" for u
  proof (cases "u = 8 \<or> u = 16")
    case False
    then have "u \<notin> snd ` set (woken_schedule 10)" by (auto simp: woken_schedule_def)
    from wg_schedule_other [OF run(2) this] show ?thesis
      by (simp add: unparking_def with_size_def parking_queue_new_def)
  qed (use g(3,4) in \<open>auto simp: unparking_def\<close>)
  with run(1) g(2,3) show "\<exists>g. wg_calm_run 1 g \<and> workers g = 0 \<and> qpc g 8 = Q_parked \<lparr>counter = 10\<rparr> \<and>
    (\<forall>u. \<not> unparking (qpc g u))" by blast
qed

text \<open>
  The waiters are released: in these runs, once the counter is zero and no thread is inside
  \<open>unpark_all\<close>, every thread that is still parked has been unparked and leaves \<open>wait\<close> with its
  next two steps.
\<close>

lemma wait_group_releases:
  assumes "0 \<le> sint n0" "wg_calm_run n0 g" "workers g = 0" "\<And>u. \<not> unparking (qpc g u)"
    and "qpc g t = Q_parked w"
  shows "\<exists>g1 g2. wg_exec c sp t g = Next g1 \<and> wg_exec c sp t g1 = Next g2 \<and> qpc g2 t = Q_idle"
proof -
  obtain o1 xs ys where Q: "queue_ok o1 xs ys g" and G: "group_ok xs g"
    using wg_calm_ok [OF assms(1,2)] by (auto simp: wg_ok_def)
  have "o1 = None" using clearerD [OF Q] assms(4) by (cases o1) (auto simp: unparking_def)
  then have "ys = []" using queue_okD(3) [OF Q] by (simp add: queue_clearer_def)
  have "t \<notin> set xs"
    using G assms(3-5) unfolding group_ok_def unparking_def workers_def by (metis sleeps.simps(1))
  obtain d where d: "qheap g t = Some d" using node_of_parked [OF Q assms(5)] by blast
  have "parker d" by (rule awake_if_unlisted [OF Q \<open>t \<notin> set xs\<close> _ d]) (simp add: \<open>ys = []\<close>)
  then show ?thesis
    using assms(3,5) d
    by (intro exI [of _ "closure_return t w g"] exI [of _ "qgoto t Q_idle (closure_return t w g)"])
       (simp add: wg_exec_def queue_exec_def queue_park_sleep_def qderef_def queue_park_retry_def
         wait_over_def workers_def)
qed

lemma solo_schedule:
  "queue_solo wait_over n t g = Next g' \<Longrightarrow> wg_schedule (replicate n (c, t)) g = Next g'"
proof (induction n arbitrary: g)
  case (Suc n)
  then obtain g1 where g1: "queue_exec wait_over False t g = Next g1" "queue_solo wait_over n t g1 = Next g'"
    by (auto split: outcome.splits)
  have "qpc g t \<noteq> Q_idle" using g1(1) by (auto simp: queue_exec_def)
  then have "wg_exec c False t g = Next g1" using g1(1) by (simp add: wg_exec_def)
  then show ?case using Suc.IH [OF g1(2)] by simp
qed simp

text \<open>
  C12: \<open>unpark_all\<close> terminates and wakes everybody, under three conditions: in the run so far the
  client has kept to its part and no waiter has given up (\<open>wg_calm_run\<close>), and the thread that has
  taken the counter to zero runs alone from the start of \<open>unpark_all\<close>, with no spurious failure of
  an exchange. Then it is back from \<open>done\<close> after finitely many steps; the queue is then empty and
  every thread that was parked has its token.
\<close>

theorem unpark_all_wakes_all:
  assumes "0 \<le> sint n0" "wg_calm_run n0 g" "valid_ptr t" "qpc g t = U_load w"
  shows "\<exists>n g'. wg_schedule (replicate n (c, t)) g = Next g' \<and> qpc g' = (qpc g)(t := Q_idle) \<and>
    queue_head (qstate g') = null \<and>
    (\<forall>x \<in> {x. sleeps (qpc g x)}. \<exists>d. qheap g' x = Some d \<and> parker d)"
proof -
  obtain o1 xs ys where Q: "queue_ok o1 xs ys g" and G: "group_ok xs g"
    using wg_calm_ok [OF assms(1,2)] by (auto simp: wg_ok_def)
  have "o1 = None"
  proof (rule ccontr)
    assume "o1 \<noteq> None"
    then obtain u where u: "clearing (qpc g u)" using clearerD [OF Q] by auto
    then have "unparking (qpc g u)" "unparking (qpc g t)" using assms(4) by (simp_all add: unparking_def)
    then have "u = t" using G unfolding group_ok_def by blast
    then show False using u assms(4) by simp
  qed
  then obtain g' n where g': "queue_solo wait_over n t g = Next g'" "qpc g' = (qpc g)(t := Q_idle)"
    "queue_ok None [] [] g'"
    using solo_unpark_all [OF Q assms(3,4), of wait_over] by (auto simp: queue_reaches_def)
  have "\<exists>d. qheap g' x = Some d \<and> parker d" if "sleeps (qpc g x)" for x
  proof -
    have "qwaits (qpc g' x)" using that g'(2) assms(4) by (cases "qpc g x") auto
    then obtain d where "qheap g' x = Some d" using nodeD [OF g'(3), of x] by blast
    then show ?thesis using awake_if_unlisted [OF g'(3)] by simp
  qed
  moreover have "queue_head (qstate g') = null" using g'(3) by (simp add: queue_ok_def queue_lists_def)
  ultimately show ?thesis using solo_schedule [OF g'(1)] g'(2) by blast
qed

theorem unpark_all_wakes_all_witness:
  "\<exists>g n g' d. qpc g 8 = Q_parked \<lparr>counter = 10\<rparr> \<and> wg_schedule (replicate n (W_done, 16)) g = Next g' \<and>
    qpc g' 16 = Q_idle \<and> qheap g' 8 = Some d \<and> parker d"
proof -
  from woken_states(1) obtain g where g: "wg_calm_run 1 g"
    "qpc g 8 = Q_parked \<lparr>counter = 10\<rparr>" "qpc g 16 = U_load \<lparr>counter = 0\<rparr>" by blast
  have "0 \<le> sint (1 :: u64)" "valid_ptr 16" by (simp_all add: valid_ptr_def)
  from unpark_all_wakes_all [OF this(1) g(1) this(2) g(3), of W_done] obtain n g' where
    g': "wg_schedule (replicate n (W_done, 16)) g = Next g'" "qpc g' = (qpc g)(16 := Q_idle)"
    "\<forall>x \<in> {x. sleeps (qpc g x)}. \<exists>d. qheap g' x = Some d \<and> parker d" by blast
  then obtain d where "qheap g' 8 = Some d" "parker d" using g(2) by fastforce
  moreover have "qpc g' 16 = Q_idle" using g'(2) by simp
  ultimately show ?thesis using g(2) g'(1) by blast
qed

end
