(* ===== verification/Wait_Group_Release.thy ===== *)
theory Wait_Group_Release
  imports Wait_Group_Calm
begin

section \<open>WaitGroup: at zero a waiter can always leave\<close>

text \<open>
  In the runs of \<open>Wait_Group_Calm\<close>: wherever the thread that took the counter to zero is inside
  \<open>unpark_all\<close>, left to itself it comes to the end, and then whoever sleeps has its token.
\<close>

subsection \<open>unpark\_all finishes from every point\<close>

definition queue_finishes :: "('c \<Rightarrow> bool) \<Rightarrow> ptr \<Rightarrow> 'c queue_sys \<Rightarrow> bool" where
  "queue_finishes retry t s \<longleftrightarrow> (\<exists>s'. queue_reaches retry t s s' \<and> qpc s' t = Q_idle)"

definition queue_sound :: "'c queue_sys \<Rightarrow> bool" where
  "queue_sound s \<longleftrightarrow> (\<exists>c xs ys. queue_ok c xs ys s)"

lemma queue_finishes_idle:
  "queue_exec retry False t s = Next s' \<Longrightarrow> qpc s' t = Q_idle \<Longrightarrow> queue_finishes retry t s"
  unfolding queue_finishes_def using queue_reaches_step [OF _ queue_reaches_refl] by blast

lemma queue_finishes_step:
  "queue_exec retry False t s = Next s' \<Longrightarrow> queue_finishes retry t s' \<Longrightarrow> queue_finishes retry t s"
  unfolding queue_finishes_def using queue_reaches_step by blast

lemma queue_sound_step:
  assumes "queue_sound s" "valid_ptr t" "unparking (qpc s t)" "queue_exec retry sp t s = Next s'"
  shows "queue_sound s'"
proof -
  obtain c xs ys where I: "queue_ok c xs ys s" using assms(1) by (auto simp: queue_sound_def)
  have "calm retry t s" using assms(3) by (cases "qpc s t") (auto simp: calm_def unparking_def)
  from queue_exec_ok [OF I assms(2) this, of sp] show ?thesis
    using assms(4) by (auto simp: queue_after_def queue_sound_def)
qed

lemma fin_walk:
  assumes "queue_sound s" "valid_ptr t" "qpc s t = U_walk h"
  shows "queue_finishes retry t s"
proof -
  obtain c xs ys where I: "queue_ok c xs ys s" using assms(1) by (auto simp: queue_sound_def)
  obtain s1 h1 where s1: "queue_reaches retry t s s1" "queue_ok (Some t) [] xs s1" "qpc s1 t = U_head h1"
    using solo_round [OF I assms(2,3)] by fastforce
  obtain s2 where "queue_reaches retry t s1 s2" "qpc s2 = (qpc s1)(t := Q_idle)"
    using solo_head [OF s1(2) assms(2) s1(3)] by blast
  then show ?thesis using queue_reaches_trans [OF s1(1)] unfolding queue_finishes_def by fastforce
qed

lemma fin_head:
  assumes "queue_sound s" "valid_ptr t" "qpc s t = U_head h"
  shows "queue_finishes retry t s"
proof (cases "h = null")
  case True
  then have "queue_exec retry False t s = Next (qgoto t Q_idle (qstore (qstate s AND NOT QUEUE_CLEAR_BIT) s))"
    using assms(3) by (simp add: queue_exec_def unpark_all_head_def)
  then show ?thesis by (rule queue_finishes_idle) simp
next
  case False
  then have e: "queue_exec retry False t s = Next (qgoto t (U_walk h) s)"
    using assms(3) by (simp add: queue_exec_def unpark_all_head_def)
  have "queue_sound (qgoto t (U_walk h) s)"
    by (rule queue_sound_step [OF assms(1,2) _ e]) (simp add: assms(3) unparking_def)
  from fin_walk [OF this assms(2)] show ?thesis by (intro queue_finishes_step [OF e]) simp
qed

lemma fin_unpark:
  assumes "queue_sound s" "valid_ptr t" "qpc s t = U_unpark h nh"
  shows "queue_finishes retry t s"
proof -
  obtain c xs ys where I: "queue_ok c xs ys s" using assms(1) by (auto simp: queue_sound_def)
  obtain d where "qheap s h = Some d" using queue_wake_ok [OF I assms(2,3)] by blast
  then have e: "queue_exec retry False t s = Next (qgoto t (U_walk nh) (qwrite h (d\<lparr>parker := True\<rparr>) s))"
    using assms(3) by (simp add: queue_exec_def unpark_all_unpark_def qderef_def)
  have "queue_sound (qgoto t (U_walk nh) (qwrite h (d\<lparr>parker := True\<rparr>) s))"
    by (rule queue_sound_step [OF assms(1,2) _ e]) (simp add: assms(3) unparking_def)
  from fin_walk [OF this assms(2)] show ?thesis by (intro queue_finishes_step [OF e]) simp
qed

lemma fin_to_head:
  assumes "queue_sound s" "valid_ptr t" "unparking (qpc s t)"
    "queue_exec retry False t s = Next (qgoto t (U_head h) (qstore v s))"
  shows "queue_finishes retry t s"
  using queue_finishes_step [OF assms(4)] fin_head [OF queue_sound_step [OF assms] assms(2)] by simp

lemma fin_cut_fresh:
  assumes "queue_sound s" "valid_ptr t" "qpc s t = U_cut (qstate s)"
  shows "queue_finishes retry t s"
  by (rule fin_to_head [OF assms(1,2), of _ "queue_head (qstate s)" QUEUE_CLEAR_BIT])
     (simp_all add: assms(3) unparking_def queue_exec_def unpark_all_cut_def qcas_ok_def)

lemma fin_to_cut:
  assumes "queue_sound s" "valid_ptr t" "unparking (qpc s t)"
    "queue_exec retry False t s = Next (qgoto t (U_cut (qstate s)) s)"
  shows "queue_finishes retry t s"
  using queue_finishes_step [OF assms(4)] fin_cut_fresh [OF queue_sound_step [OF assms] assms(2)] by simp

lemma fin_cut:
  assumes "queue_sound s" "valid_ptr t" "qpc s t = U_cut st"
  shows "queue_finishes retry t s"
proof (cases "qstate s = st")
  case True
  then show ?thesis using fin_cut_fresh [OF assms(1,2)] assms(3) by simp
next
  case False
  then show ?thesis
    using assms(3) by (intro fin_to_cut [OF assms(1,2)])
      (simp_all add: unparking_def queue_exec_def unpark_all_cut_def qcas_ok_def)
qed

lemma fin_loop_fresh:
  assumes "queue_sound s" "valid_ptr t" "qpc s t = U_loop w (qstate s)"
  shows "queue_finishes retry t s"
proof (cases "qstate s AND QUEUE_CLEAR_BIT = 0")
  case True
  obtain c xs ys where I: "queue_ok c xs ys s" using assms(1) by (auto simp: queue_sound_def)
  have "\<not> is_queue_locked (qstate s)"
    using queue_okD(3) [OF I] by (auto simp: queue_clearer_def is_queue_locked_iff)
  then show ?thesis
    using True assms(3)
    by (intro fin_to_head [OF assms(1,2), of _ "queue_head (qstate s)" QUEUE_CLEAR_BIT])
       (simp_all add: unparking_def queue_exec_def unpark_all_loop_def qcas_ok_def)
next
  case False
  then have "queue_exec retry False t s = Next (qgoto t Q_idle s)"
    using assms(3) by (simp add: queue_exec_def unpark_all_loop_def)
  then show ?thesis by (rule queue_finishes_idle) simp
qed

lemma fin_to_loop:
  assumes "queue_sound s" "valid_ptr t" "unparking (qpc s t)"
    "queue_exec retry False t s = Next (qgoto t (U_loop w (qstate s)) s)"
  shows "queue_finishes retry t s"
  using queue_finishes_step [OF assms(4)] fin_loop_fresh [OF queue_sound_step [OF assms] assms(2)] by simp

lemma fin_loop:
  assumes "queue_sound s" "valid_ptr t" "qpc s t = U_loop w st"
  shows "queue_finishes retry t s"
proof (cases "qstate s = st")
  case True
  then show ?thesis using fin_loop_fresh [OF assms(1,2)] assms(3) by simp
next
  case False
  have u: "unparking (qpc s t)" by (simp add: assms(3) unparking_def)
  have "queue_exec retry False t s = Next (qgoto t Q_idle s) \<or>
      (\<exists>w. queue_exec retry False t s = Next (qgoto t (U_loop w (qstate s)) s))"
    using False assms(3) by (auto simp: queue_exec_def unpark_all_loop_def qcas_ok_def Let_def)
  then show ?thesis
    using fin_to_loop [OF assms(1,2) u] queue_finishes_idle [of retry t s "qgoto t Q_idle s"] by auto
qed

lemma unpark_all_finishes:
  assumes "queue_sound s" "valid_ptr t" "unparking (qpc s t)"
  shows "queue_finishes retry t s"
proof (cases "qpc s t")
  case (U_load w)
  show ?thesis by (rule fin_to_loop [OF assms, of _ w]) (simp add: U_load queue_exec_def unpark_all_load_def)
next
  case U_reload
  show ?thesis by (rule fin_to_cut [OF assms]) (simp add: U_reload queue_exec_def)
qed (use assms fin_loop fin_head fin_walk fin_unpark fin_cut in \<open>auto simp: unparking_def\<close>)

subsection \<open>Then the sleepers leave\<close>

lemma unparking_or_idle:
  "queue_exec retry sp t s = Next s' \<Longrightarrow> unparking (qpc s t) \<Longrightarrow> unparking (qpc s' t) \<or> qpc s' t = Q_idle"
  by (cases "qpc s t") (auto simp: queue_steps unparking_def split: option.splits if_splits)

lemma unparker_run:
  assumes "valid_ptr u"
  shows "wg_calm_run n0 g \<Longrightarrow> unparking (qpc g u) \<or> qpc g u = Q_idle \<Longrightarrow>
    queue_solo wait_over n u g = Next g' \<Longrightarrow>
    wg_calm_run n0 g' \<and> client g' = client g \<and> (\<forall>x. x \<noteq> u \<longrightarrow> qpc g' x = qpc g x) \<and>
    wg_schedule (replicate n (W_wait, u)) g = Next g'"
proof (induction n arbitrary: g)
  case (Suc n)
  then obtain g1 where g1: "queue_exec wait_over False u g = Next g1" "queue_solo wait_over n u g1 = Next g'"
    by (auto split: outcome.splits)
  have busy: "qpc g u \<noteq> Q_idle" using g1(1) by (auto simp: queue_exec_def)
  then have u: "unparking (qpc g u)" using Suc.prems(2) by blast
  have step: "wg_exec W_wait False u g = Next g1" using g1(1) busy by (simp add: wg_exec_def)
  have calm: "calm wait_over u g" using u by (cases "qpc g u") (auto simp: calm_def unparking_def)
  then have "wg_allowed W_wait u g" using busy by (simp add: wg_allowed_def)
  then have run: "wg_calm_run n0 g1" by (rule calm_step [OF Suc.prems(1) assms _ step])
  have "\<not> aborting (qpc g u)" using u by (cases "qpc g u") (auto simp: unparking_def)
  then have "\<forall>x. x \<noteq> u \<longrightarrow> qpc g1 x = qpc g x" using queue_exec_moves(1) [OF g1(1) _ calm] by blast
  then show ?case
    using Suc.IH [OF run unparking_or_idle [OF g1(1) u] g1(2)] queue_exec_client [OF g1(1)] step by simp
qed simp

text \<open>The steps of threads that are inside the group; the client calls nothing.\<close>

lemma wg_schedule_append:
  "wg_schedule ps g = Next g1 \<Longrightarrow> wg_schedule (ps @ qs) g = wg_schedule qs g1"
  by (induction ps arbitrary: g) (auto split: outcome.splits)

definition group_serve :: "ptr list \<Rightarrow> wait_group \<Rightarrow> wait_group outcome" where
  "group_serve ts = wg_schedule (map (Pair W_wait) ts)"

lemma sleeper_served_quiet:
  assumes "0 \<le> sint n0" "wg_calm_run n0 g" "workers g = 0" "\<And>u. \<not> unparking (qpc g u)" "qpc g t = Q_parked w"
  shows "\<exists>g'. group_serve [t, t] g = Next g' \<and> qpc g' t = Q_idle"
  using wait_group_releases [OF assms(1-5), of W_wait False] by (auto simp: group_serve_def)

lemma sleeper_served:
  assumes "0 \<le> sint n0" "wg_calm_run n0 g" "workers g = 0" "qpc g t = Q_parked w"
  shows "\<exists>ts g'. set ts \<subseteq> insert t {u. unparking (qpc g u)} \<and> group_serve ts g = Next g' \<and> qpc g' t = Q_idle"
proof (cases "\<exists>u. unparking (qpc g u)")
  case False
  then obtain g' where "group_serve [t, t] g = Next g'" "qpc g' t = Q_idle"
    using sleeper_served_quiet [OF assms(1-3) _ assms(4)] by blast
  then show ?thesis by (intro exI [of _ "[t, t]"] exI [of _ g']) simp
next
  case True
  then obtain u where u: "unparking (qpc g u)" by blast
  obtain c xs ys where Q: "queue_ok c xs ys g" and G: "group_ok xs g"
    using wg_calm_ok [OF assms(1,2)] by (auto simp: wg_ok_def)
  have "qpc g u \<noteq> Q_idle" using u by (auto simp: unparking_def)
  then have v: "valid_ptr u" using queue_okD(1) [OF Q] by (simp add: queue_nodes_def)
  have "queue_sound g" using Q by (auto simp: queue_sound_def)
  then obtain n g1 where g1: "queue_solo wait_over n u g = Next g1" "qpc g1 u = Q_idle"
    using unpark_all_finishes [OF _ v u, of wait_over] by (auto simp: queue_finishes_def queue_reaches_def)
  have run: "wg_calm_run n0 g1" "client g1 = client g" "\<And>x. x \<noteq> u \<Longrightarrow> qpc g1 x = qpc g x"
    "wg_schedule (replicate n (W_wait, u)) g = Next g1"
    using unparker_run [OF v assms(2) _ g1(1)] u by blast+
  have "\<not> unparking (qpc g1 x)" for x
  proof (cases "x = u")
    case False
    then show ?thesis using run(3) G u unfolding group_ok_def by metis
  qed (simp add: g1(2) unparking_def)
  moreover have "t \<noteq> u" using assms(4) u by (auto simp: unparking_def)
  then have "qpc g1 t = Q_parked w" using run(3) assms(4) by simp
  moreover have "workers g1 = 0" using run(2) assms(3) by (simp add: workers_def)
  ultimately obtain g' where "group_serve [t, t] g1 = Next g'" "qpc g' t = Q_idle"
    using sleeper_served_quiet [OF assms(1) run(1)] by blast
  moreover have "group_serve (replicate n u @ [t, t]) g = group_serve [t, t] g1"
    using run(4) by (simp add: group_serve_def map_replicate_const wg_schedule_append)
  moreover have "set (replicate n u @ [t, t]) \<subseteq> insert t {u. unparking (qpc g u)}" using u by auto
  ultimately show ?thesis by metis
qed

end
