(* ===== verification/Wait_Group_Parkers.thy ===== *)
theory Wait_Group_Parkers
  imports Wait_Group_Release Parker_Client
begin

section \<open>WaitGroup on parkers\<close>

text \<open>
  The wait group with its ParkingQueue as a client of \<open>Parker_Client\<close>. In the runs of \<open>Wait_Group_Calm\<close>
  it refines the group on tokens, on every implementation of \<open>parker_impl\<close>, so no step touches a freed
  node, and the waiters are released by their own steps and the calls under way to them. The
  \<open>unpark\<close> that \<open>abort_self\<close> does on its own node is left out: that parker is gone with the node. The
  implementations follow in \<open>Wait_Group_Futex\<close> and \<open>Wait_Group_Semaphore\<close>.
\<close>

subsection \<open>The group as a client\<close>

definition queue_flags :: "(ptr \<Rightarrow> bool) \<Rightarrow> 'c queue_sys \<Rightarrow> 'c queue_sys" where
  "queue_flags b s = s\<lparr>qheap := (\<lambda>p. map_option (\<lambda>d. d\<lparr>parker := b p\<rparr>) (qheap s p))\<rparr>"

fun unpark_of :: "qpc \<Rightarrow> ptr option" where
  "unpark_of (U_unpark h nh) = Some h"
| "unpark_of _ = None"

definition node_pc :: "qpc \<Rightarrow> bool" where
  "node_pc p \<longleftrightarrow> qwaits p \<or> aborting p"

definition group_client :: "(wcall \<times> bool, wait_group) park_client" where
  "group_client = \<lparr>cstep = (\<lambda>e t g. wg_exec (fst e) (snd e) t g), parks = (\<lambda>g t. sleeps (qpc g t)),
    unparks = (\<lambda>g t. unpark_of (qpc g t)), has_node = (\<lambda>g t. node_pc (qpc g t)),
    with_tokens = queue_flags\<rparr>"

lemma group_client_simps [simp]:
  "cstep group_client e t g = wg_exec (fst e) (snd e) t g" "parks group_client g t = sleeps (qpc g t)"
  "unparks group_client g t = unpark_of (qpc g t)" "has_node group_client g t = node_pc (qpc g t)"
  "with_tokens group_client = queue_flags"
  by (simp_all add: group_client_def)

subsection \<open>Steps and tokens\<close>

lemma queue_flags_simps [simp]:
  "qstate (queue_flags b s) = qstate s" "qpc (queue_flags b s) = qpc s"
  "client (queue_flags b s) = client s"
  "qheap (queue_flags b s) p = map_option (\<lambda>d. d\<lparr>parker := b p\<rparr>) (qheap s p)"
  "queue_flags b (queue_flags b' s) = queue_flags b s"
  "qgoto t k (queue_flags b s) = queue_flags b (qgoto t k s)"
  "qstore v (queue_flags b s) = queue_flags b (qstore v s)"
  "(queue_flags b s)\<lparr>client := n\<rparr> = queue_flags b (s\<lparr>client := n\<rparr>)"
  "closure_return t w (queue_flags b s) = queue_flags b (closure_return t w s)"
  by (simp_all add: queue_flags_def qgoto_def qstore_def closure_return_def fun_eq_iff
    option.map_comp comp_def)

lemma qwrite_flags:
  "d' = d\<lparr>parker := b p\<rparr> \<Longrightarrow> qwrite p d' (queue_flags b s) = queue_flags b (qwrite p d s)"
  by (simp add: queue_flags_def qwrite_def fun_eq_iff)

lemma qwrite_flags_fields:
  "qwrite p (d\<lparr>parker := b p, queue_tail := q\<rparr>) (queue_flags b s) = queue_flags b (qwrite p (d\<lparr>queue_tail := q\<rparr>) s)"
  "qwrite p (d\<lparr>parker := b p, next := q\<rparr>) (queue_flags b s) = queue_flags b (qwrite p (d\<lparr>next := q\<rparr>) s)"
  by (rule qwrite_flags, simp)+

lemma qwrite_new:
  "qwrite t (queue_node thread_data_new t st) (queue_flags b s) =
    queue_flags (b(t := False)) (qwrite t (queue_node thread_data_new t st) s)"
  by (simp add: queue_flags_def qwrite_def fun_eq_iff queue_node_def Let_def thread_data_new_def)

lemma qwrite_unpark:
  "qwrite q (d\<lparr>parker := True\<rparr>) (queue_flags b s) = queue_flags (b(q := True)) (qwrite q (d\<lparr>parker := True\<rparr>) s)"
  by (simp add: queue_flags_def qwrite_def fun_eq_iff)

lemma closure_return_write: "closure_return t w (qwrite t d s) = closure_return t w s"
  by (simp add: closure_return_def qwrite_def qgoto_def)

lemma group_ops_flags:
  "wg_add n (queue_flags b g) = map_outcome (queue_flags b) (wg_add n g)"
  "wg_done t (queue_flags b g) = map_outcome (queue_flags b) (wg_done t g)"
  "wg_wait t (queue_flags b g) = map_outcome (queue_flags b) (wg_wait t g)"
  by (simp_all add: wg_add_def wg_done_def wg_wait_def Let_def)

lemma queue_exec_flags:
  assumes "\<not> sleeps (qpc s t)" "unpark_of (qpc s t) = None" "\<forall>w st. qpc s t \<noteq> Q_push w st"
  shows "queue_exec retry sp t (queue_flags b s) = map_outcome (queue_flags b) (queue_exec retry sp t s)"
  using assms
  by (cases "qpc s t")
     (auto simp: queue_steps qcas_ok_def qwrite_flags_fields closure_return_write split: option.splits)

lemma queue_exec_no_node:
  assumes "queue_exec retry sp t s = Next s'" "\<forall>w st. qpc s t \<noteq> Q_push w st" "node_pc (qpc s' t)"
  shows "node_pc (qpc s t)"
  using assms by (cases "qpc s t") (auto simp: queue_steps node_pc_def split: option.splits if_splits)

lemma group_flags:
  assumes "\<not> sleeps (qpc g t)" "unpark_of (qpc g t) = None"
  shows "wg_exec c sp t (queue_flags b g) = map_outcome (\<lambda>g'. queue_flags
    (if node_pc (qpc g' t) \<and> \<not> node_pc (qpc g t) then b(t := False) else b) g') (wg_exec c sp t g)"
proof -
  consider "qpc g t = Q_idle" | w st where "qpc g t = Q_push w st"
    | "qpc g t \<noteq> Q_idle" "\<forall>w st. qpc g t \<noteq> Q_push w st" by blast
  then show ?thesis
  proof cases
    case 1
    then show ?thesis
      by (cases c) (simp_all add: wg_exec_def group_ops_flags wg_add_def wg_done_def wg_wait_def Let_def node_pc_def)
  next
    case 2
    then show ?thesis
      by (simp add: wg_exec_def queue_exec_def queue_park_push_def qcas_ok_def node_pc_def qwrite_new)
  next
    case 3
    then have "wg_exec c sp t (queue_flags b g) = map_outcome (queue_flags b) (wg_exec c sp t g)"
      using queue_exec_flags [OF assms] by (simp add: wg_exec_def)
    also have "\<dots> = map_outcome (\<lambda>g'. queue_flags
      (if node_pc (qpc g' t) \<and> \<not> node_pc (qpc g t) then b(t := False) else b) g') (wg_exec c sp t g)"
      using queue_exec_no_node [of wait_over sp t g] 3
      by (cases "wg_exec c sp t g") (auto simp: wg_exec_def)
    finally show ?thesis .
  qed
qed

lemma group_park:
  assumes "sleeps (qpc g t)"
  shows "b t \<Longrightarrow> wg_exec c sp t (queue_flags b g) =
      map_outcome (queue_flags b) (wg_exec c sp t (queue_flags (\<lambda>_. True) g))"
    "wg_exec c sp t g = Next g' \<Longrightarrow> queue_flags (b(t := v)) g' = queue_flags b g'"
proof -
  obtain w where w: "qpc g t = Q_parked w" using assms by (cases "qpc g t") auto
  then show "b t \<Longrightarrow> wg_exec c sp t (queue_flags b g) =
      map_outcome (queue_flags b) (wg_exec c sp t (queue_flags (\<lambda>_. True) g))"
    by (auto simp: wg_exec_def queue_exec_def queue_park_sleep_def qderef_def split: option.splits)
  show "queue_flags (b(t := v)) g' = queue_flags b g'" if "wg_exec c sp t g = Next g'"
  proof -
    have "qheap g' t = None"
      using that w by (auto simp: wg_exec_def queue_exec_def queue_park_sleep_def qderef_def
        split: option.splits if_splits)
    then show ?thesis
      unfolding queue_flags_def by (intro arg_cong [where f = "\<lambda>h. qheap_update (\<lambda>_. h) g'"]) auto
  qed
qed

lemma group_unpark:
  assumes "unpark_of (qpc g t) = Some q"
  shows "wg_exec c sp t (queue_flags b g) = map_outcome (queue_flags (b(q := True))) (wg_exec c sp t g)"
    "wg_exec c sp t g = Next g' \<Longrightarrow> \<not> sleeps (qpc g' t)"
  using assms
  by (cases "qpc g t"; auto simp: wg_exec_def queue_exec_def unpark_all_unpark_def qderef_def qwrite_unpark
    split: option.splits)+

interpretation group_tokens: parker_client group_client
proof (unfold_locales, unfold group_client_simps)
  show "node_pc (qpc g t)" if "sleeps (qpc g t)" for g :: wait_group and t
    using that by (cases "qpc g t") (auto simp: node_pc_def)
  show "\<not> sleeps (qpc g t)" if "unpark_of (qpc g t) = Some q" for g :: wait_group and t q
    using that by (cases "qpc g t") auto
  show "\<not> sleeps (qpc g' t)" if "unpark_of (qpc g t) = Some q" "wg_exec (fst e) (snd e) t g = Next g'" for g t q e g'
    using group_unpark(2) [OF that] .
  show "sleeps (qpc g' p) = sleeps (qpc g p)" if "wg_exec (fst e) (snd e) t g = Next g'" "p \<noteq> t" for e t g g' p
    using wg_exec_other [OF that] by simp
  show "wg_exec (fst e) (snd e) t (queue_flags b g) =
      map_outcome (queue_flags (b(q := True))) (wg_exec (fst e) (snd e) t g)"
    if "unpark_of (qpc g t) = Some q" for e t b g q
    using group_unpark(1) [OF that] .
  show "b t" if "sleeps (qpc g t)" "wg_exec (fst e) (snd e) t (queue_flags b g) = Next g'" for e b t g g'
    using that by (cases "qpc g t")
      (auto simp: wg_exec_def queue_exec_def queue_park_sleep_def qderef_def split: option.splits if_splits)
  show "queue_flags (b(t := v)) g' = queue_flags b g'"
    if "sleeps (qpc g t)" "wg_exec (fst e) (snd e) t g = Next g'" for b t v g g' e
    using group_park(2) [OF that] .
  show "wg_exec (fst e) (snd e) t (queue_flags b g) =
      map_outcome (queue_flags b) (wg_exec (fst e) (snd e) t (queue_flags (\<lambda>_. True) g))"
    if "sleeps (qpc g t)" "b t" for e t b g
    using group_park(1) [where b = b, OF that] .
  show "wg_exec (fst e) (snd e) t (queue_flags b g) = map_outcome (\<lambda>g'. queue_flags
      (if node_pc (qpc g' t) \<and> \<not> node_pc (qpc g t) then b(t := False) else b) g') (wg_exec (fst e) (snd e) t g)"
    if "\<not> sleeps (qpc g t)" "unpark_of (qpc g t) = None" for e t b g
    using group_flags [OF that] .
qed simp_all

subsection \<open>Runs\<close>

text \<open>
  The client keeps to its part, as in \<open>wg_calm_run\<close>; \<open>sw\<close> is a wake-up of the system for no reason,
  \<open>sp\<close> a spurious failure of a weak exchange.
\<close>

inductive group_run :: "'f parker_ops \<Rightarrow> u64 \<Rightarrow> ('f, wait_group) psys \<Rightarrow> bool" for P n0 where
  group_init: "group_run P n0 (pstart P (with_size n0))"
| group_step: "group_run P n0 c \<Longrightarrow> valid_ptr t \<Longrightarrow> wg_allowed op t (base c) \<Longrightarrow>
    pexec group_client P sw (op, sp) t c = Next c' \<Longrightarrow> group_run P n0 c'"

abbreviation abs_group :: "'f parker_ops \<Rightarrow> ('f, wait_group) psys \<Rightarrow> wait_group" where
  "abs_group P \<equiv> token_sys group_client P"

lemma abs_group_simps [simp]:
  "qpc (abs_group P c) = qpc (base c)" "client (abs_group P c) = client (base c)"
  "workers (abs_group P c) = workers (base c)"
  "qheap (abs_group P c) p = map_option (\<lambda>d. d\<lparr>parker := has_token P (parker_at c p)\<rparr>) (qheap (base c) p)"
  by (simp_all add: token_sys_def workers_def)

lemma allowed_abs [simp]: "wg_allowed op t (abs_group P c) = wg_allowed op t (base c)"
  by (cases op; cases "qpc (base c) t") (simp_all add: wg_allowed_def calm_def)

lemma group_start: "abs_group P (pstart P (with_size n)) = with_size n"
  by (simp add: token_sys_def queue_flags_def with_size_def parking_queue_new_def)

text \<open>Schedules that keep to the rules.\<close>

primrec group_schedule ::
    "'f parker_ops \<Rightarrow> (wcall \<times> ptr) list \<Rightarrow> ('f, wait_group) psys \<Rightarrow> ('f, wait_group) psys outcome" where
  "group_schedule P [] c = Next c"
| "group_schedule P (p # ps) c =
    (if wg_check (fst p) (snd p) (base c) then
       (case pexec group_client P False (fst p, False) (snd p) c of
          Next c' \<Rightarrow> group_schedule P ps c' | r \<Rightarrow> r)
     else Blocked)"

lemma group_schedule_run:
  "group_run P n0 c \<Longrightarrow> group_schedule P ps c = Next c' \<Longrightarrow>
    group_run P n0 c' \<and> (\<forall>u. u \<notin> snd ` set ps \<longrightarrow> qpc (base c') u = qpc (base c) u)"
proof (induction ps arbitrary: c)
  case (Cons p ps)
  from Cons.prems(2) obtain c1 where c1: "wg_check (fst p) (snd p) (base c)"
    "pexec group_client P False (fst p, False) (snd p) c = Next c1" "group_schedule P ps c1 = Next c'"
    by (auto split: if_splits outcome.splits)
  have "wg_allowed (fst p) (snd p) (base c)" "valid_ptr (snd p)"
    using c1(1) by (auto simp: wg_check_def wg_allowed_def split: if_splits wcall.splits)
  then have run: "group_run P n0 c1" using group_step [OF Cons.prems(1)] c1(2) by blast
  have "qpc (base c1) u = qpc (base c) u" if "u \<noteq> snd p" for u
    using pexec_base [OF c1(2)] that wg_exec_other [of "fst p" False "snd p" _ "base c1" u] by force
  then show ?case using Cons.IH [OF run c1(3)] by simp
qed simp

subsection \<open>What holds on every parker\<close>

locale group_on_parkers = queue_on_parkers group_client P good entered rank
  for P :: "'f parker_ops" and good entered rank
begin

lemma group_run_ok:
  assumes "group_run P n0 c"
  shows "parkers_ok group_client good entered c" "wg_calm_run n0 (abs_group P c)"
proof -
  have "parkers_ok group_client good entered c \<and> wg_calm_run n0 (abs_group P c)"
    using assms
  proof induction
    case group_init
    have "parkers_ok group_client good entered (pstart P (with_size n0))"
      by (rule start_ok) (simp add: with_size_def parking_queue_new_def)
    then show ?case by (simp add: group_start calm_init)
  next
    case (group_step c t op sw sp c')
    then show ?case
      using pexec_ok [of c "(op, sp)" t sw] calm_step [of n0 "abs_group P c" t op sp] by auto
  qed
  then show "parkers_ok group_client good entered c" "wg_calm_run n0 (abs_group P c)" by blast+
qed

lemma group_refines:
  assumes "0 \<le> sint n0" "group_run P n0 c" "valid_ptr t" "wg_allowed op t (base c)"
  shows "pexec group_client P sw (op, sp) t c \<noteq> Fault \<and> wg_calm_run n0 (abs_group P c) \<and>
    (pexec group_client P sw (op, sp) t c = Next c' \<longrightarrow>
      abs_group P c' = abs_group P c \<or> wg_exec op sp t (abs_group P c) = Next (abs_group P c'))"
proof -
  note ok = group_run_ok [OF assms(2)]
  have "wg_exec op sp t (abs_group P c) \<noteq> Fault"
    using wg_exec_ok [OF wg_calm_ok [OF assms(1) ok(2)] assms(3), of op sp] assms(4) by simp
  then show ?thesis using pexec_ok [OF ok(1), of "(op, sp)" t sw] ok(2) by auto
qed

lemma group_serve_matched:
  "parkers_ok group_client good entered c \<Longrightarrow> group_serve ts (abs_group P c) = Next g' \<Longrightarrow>
    \<exists>us c'. set us \<subseteq> set ts \<union> {u. calling c u \<noteq> None} \<and>
      alone_run group_client P (W_wait, False) us c = Next c' \<and> abs_group P c' = g'"
proof (induction ts arbitrary: c)
  case Nil
  then show ?case by (intro exI [of _ "[]"] exI [of _ c]) (simp add: group_serve_def)
next
  case (Cons t ts)
  then obtain g1 where g1: "wg_exec W_wait False t (abs_group P c) = Next g1" "group_serve ts g1 = Next g'"
    by (auto simp: group_serve_def split: outcome.splits)
  then obtain us c1 where c1: "set us \<subseteq> insert t {u. calling c u \<noteq> None}"
    "alone_run group_client P (W_wait, False) us c = Next c1"
    "parkers_ok group_client good entered c1" "abs_group P c1 = g1"
    using step_matched [OF Cons.prems(1), of "(W_wait, False)" t g1] by auto
  then obtain vs c' where c': "set vs \<subseteq> set ts \<union> {u. calling c1 u \<noteq> None}"
    "alone_run group_client P (W_wait, False) vs c1 = Next c'" "abs_group P c' = g'"
    using Cons.IH [OF c1(3)] g1(2) by auto
  have "u \<in> insert t {u. calling c u \<noteq> None}" if "calling c1 u \<noteq> None" for u
    using that alone_run_calling [OF c1(2), of u] c1(1) by (cases "u \<in> set us") auto
  then have "{u. calling c1 u \<noteq> None} \<subseteq> insert t {u. calling c u \<noteq> None}" by blast
  then have "set vs \<subseteq> set ts \<union> insert t {u. calling c u \<noteq> None}" using c'(1) by blast
  then have "set (us @ vs) \<subseteq> set (t # ts) \<union> {u. calling c u \<noteq> None}" using c1(1) by auto
  then show ?case
    using alone_run_append [OF c1(2), of vs] c'(2,3) by (intro exI [of _ "us @ vs"] exI [of _ c']) simp
qed

lemma group_sleeper_served:
  assumes "0 \<le> sint n0" "group_run P n0 c" "workers (base c) = 0" "qpc (base c) t = Q_parked w"
  shows "\<exists>ts c'. (\<forall>u \<in> set ts. u = t \<or> unparking (qpc (base c) u) \<or> calling c u \<noteq> None) \<and>
    alone_run group_client P (W_wait, False) ts c = Next c' \<and> qpc (base c') t = Q_idle"
proof -
  note ok = group_run_ok [OF assms(2)]
  obtain ts g' where g': "set ts \<subseteq> insert t {u. unparking (qpc (base c) u)}"
    "group_serve ts (abs_group P c) = Next g'" "qpc g' t = Q_idle"
    using sleeper_served [OF assms(1) ok(2), of t w] assms(3,4) by auto
  obtain us c' where c': "set us \<subseteq> set ts \<union> {u. calling c u \<noteq> None}"
    "alone_run group_client P (W_wait, False) us c = Next c'" "abs_group P c' = g'"
    using group_serve_matched [OF ok(1) g'(2)] by blast
  have "qpc (base c') t = Q_idle" using g'(3) c'(3) by auto
  moreover have "\<forall>u \<in> set us. u = t \<or> unparking (qpc (base c) u) \<or> calling c u \<noteq> None"
    using g'(1) c'(1) by auto
  ultimately show ?thesis using c'(2) by blast
qed

lemma group_releases:
  assumes "0 \<le> sint n0" "group_run P n0 c" "workers (base c) = 0" "\<And>u. \<not> unparking (qpc (base c) u)"
    and "qpc (base c) t = Q_parked w"
  shows "\<exists>ts c'. set ts \<subseteq> insert t (callers c t) \<and> length ts \<le> Suc (Suc (rank (parker_at c t))) \<and>
    alone_run group_client P (W_wait, False) ts c = Next c' \<and> qpc (base c') t = Q_idle"
proof -
  note ok = group_run_ok [OF assms(2)]
  obtain g1 where "wg_exec W_wait False t (abs_group P c) = Next g1"
    using wait_group_releases [OF assms(1) ok(2), of t w W_wait False] assms(3-5) by auto
  then obtain d where d: "qheap (base c) t = Some d" "has_token P (parker_at c t)"
    using assms(5) by (auto simp: wg_exec_def queue_exec_def queue_park_sleep_def qderef_def
      split: option.splits if_splits)
  let ?s = "closure_return t w (queue_flags (\<lambda>_. True) (base c))"
  have "wg_exec W_wait False t (queue_flags (\<lambda>_. True) (base c)) = Next ?s"
    using assms(5) d(1) by (simp add: wg_exec_def queue_exec_def queue_park_sleep_def qderef_def)
  then obtain ts c1 where c1: "set ts \<subseteq> insert t (callers c t)" "length ts \<le> Suc (rank (parker_at c t))"
    "alone_run group_client P (W_wait, False) ts c = Next c1" "base c1 = ?s" "calling c1 t = None"
    using unparked_returns [OF ok(1), of t "(W_wait, False)" ?s] assms(5) d(2) by auto
  let ?c2 = "c1\<lparr>base := qgoto t Q_idle ?s\<rparr>"
  have "pexec group_client P False (W_wait, False) t c1 = Next ?c2"
    using c1(4,5) assms(3)
    by (simp add: pexec_def client_move_def wg_exec_def queue_exec_def queue_park_retry_def wait_over_def
      workers_def node_pc_def)
  then have "alone_run group_client P (W_wait, False) (ts @ [t]) c = Next ?c2"
    using alone_run_append [OF c1(3)] by simp
  then show ?thesis using c1(1,2) by (intro exI [of _ "ts @ [t]"] exI [of _ ?c2]) auto
qed

end

text \<open>And on parkers whose calls are waited for.\<close>

locale group_on_waiting_parkers = group_on_parkers P good entered rank + waiting_parker P good entered rank
  for P :: "'f parker_ops" and good entered rank
begin

sublocale queue_on_waiting_parkers group_client P good entered rank
  by unfold_locales

lemma group_call_finds_node:
  assumes "0 \<le> sint n0" "group_run P n0 c" "calling c t = Some p"
  shows "sleeps (qpc (base c) p) \<and> (\<exists>d. qheap (base c) p = Some d)"
proof -
  note ok = group_run_ok [OF assms(2)]
  have s: "sleeps (qpc (base c) p)" using call_finds_node [OF ok(1) assms(3)] by simp
  obtain a xs ys where "queue_ok a xs ys (abs_group P c)"
    using wg_calm_ok [OF assms(1) ok(2)] by (auto simp: wg_ok_def)
  from nodeD [OF this, of p] have "qheap (abs_group P c) p \<noteq> None" using s by (cases "qpc (base c) p") auto
  then show ?thesis using s by auto
qed

end

end
