(* ===== verification/Wait_Group_Futex.thy ===== *)
theory Wait_Group_Futex
  imports Wait_Group_Parkers Futex
begin

section \<open>WaitGroup on futex parkers\<close>

text \<open>The machine of \<open>Wait_Group_Parkers\<close> with the parkers of \<open>Futex\<close>.\<close>

interpretation futex_group: group_on_parkers futex_ops futex_good futex_entered futex_rank
  by unfold_locales

text \<open>
  In these runs the group on futex parkers refines the group on tokens: each step of a thread, of
  the kernel or of a late wake-up call leaves the abstract group as it is or is a step of that
  thread in it, and none touches the node of a waiter that has gone.
\<close>

lemma group_futex_refines:
  assumes "0 \<le> sint n0" "group_run futex_ops n0 c" "valid_ptr t" "wg_allowed op t (base c)"
  shows "pexec group_client futex_ops sw (op, sp) t c \<noteq> Fault \<and> wg_calm_run n0 (abs_group futex_ops c) \<and>
    (pexec group_client futex_ops sw (op, sp) t c = Next c' \<longrightarrow>
      abs_group futex_ops c' = abs_group futex_ops c \<or>
      wg_exec op sp t (abs_group futex_ops c) = Next (abs_group futex_ops c'))"
  by (rule futex_group.group_refines [OF assms])

text \<open>
  Once nobody is inside \<open>unpark_all\<close>, three steps are enough for a waiter, its own and the wake-up call
  that is under way to it.
\<close>

lemma group_futex_releases_soon:
  assumes "0 \<le> sint n0" "group_run futex_ops n0 c" "workers (base c) = 0" "\<And>u. \<not> unparking (qpc (base c) u)"
    and "qpc (base c) t = Q_parked w"
  shows "\<exists>ts c'. set ts \<subseteq> insert t (callers c t) \<and> length ts \<le> 3 \<and>
    alone_run group_client futex_ops (W_wait, False) ts c = Next c' \<and> qpc (base c') t = Q_idle"
proof -
  have "futex_rank (parker_at c t) \<le> 1" by (simp add: futex_rank_def split: flocation.splits)
  then show ?thesis using futex_group.group_releases [OF assms] by fastforce
qed

text \<open>
  C10: at zero the waiters get out: in these runs, once the counter is zero, every thread that is parked, even
  asleep in the kernel, can return from \<open>wait\<close>, by its own steps, those of the thread inside \<open>unpark_all\<close>
  from wherever it is, and the wake-up calls under way; no other call and no spurious wake-up is needed.
\<close>

theorem group_futex_releases:
  assumes "0 \<le> sint n0" "group_run futex_ops n0 c" "workers (base c) = 0" "qpc (base c) t = Q_parked w"
  shows "\<exists>ts c'. (\<forall>u \<in> set ts. u = t \<or> unparking (qpc (base c) u) \<or> calling c u \<noteq> None) \<and>
    alone_run group_client futex_ops (W_wait, False) ts c = Next c' \<and> qpc (base c') t = Q_idle"
  by (rule futex_group.group_sleeper_served [OF assms])

text \<open>8 waits and falls asleep, 16 has done the only piece of work and is about to cut off the queue.\<close>

definition slept_schedule :: "(wcall \<times> ptr) list" where
  "slept_schedule = replicate 17 (W_wait, 8) @ replicate 2 (W_done, 16)"

theorem group_futex_releases_witness:
  "\<exists>c ts c'. group_run futex_ops 1 c \<and> workers (base c) = 0 \<and> floc (parker_at c 8) = F_asleep False \<and>
    alone_run group_client futex_ops (W_wait, False) ts c = Next c' \<and> qpc (base c') 8 = Q_idle"
proof -
  have "case group_schedule futex_ops slept_schedule (pstart futex_ops (with_size 1)) of
      Blocked \<Rightarrow> False | Fault \<Rightarrow> False
    | Next c \<Rightarrow> workers (base c) = 0 \<and> qpc (base c) 8 = Q_parked \<lparr>counter = 10\<rparr> \<and>
        floc (parker_at c 8) = F_asleep False"
    by code_simp
  then obtain c where c: "group_schedule futex_ops slept_schedule (pstart futex_ops (with_size 1)) = Next c"
    "workers (base c) = 0" "qpc (base c) 8 = Q_parked \<lparr>counter = 10\<rparr>" "floc (parker_at c 8) = F_asleep False"
    unfolding outcome_iff by blast
  have run: "group_run futex_ops 1 c" using group_schedule_run [OF group_init c(1)] by blast
  have "0 \<le> sint (1 :: u64)" by simp
  from group_futex_releases [OF this run c(2,3)] show ?thesis using run c(2,4) by blast
qed

end
