(* ===== verification/Wait_Group_Semaphore.thy ===== *)
theory Wait_Group_Semaphore
  imports Wait_Group_Parkers Semaphore
begin

section \<open>WaitGroup on semaphore parkers\<close>

text \<open>The machine of \<open>Wait_Group_Parkers\<close> with the parkers of \<open>Semaphore\<close>, in each node as on the Apple systems.\<close>

interpretation semaphore_group: group_on_waiting_parkers
    semaphore_ops semaphore_good semaphore_entered semaphore_rank
  by unfold_locales

lemma group_semaphore_refines:
  assumes "0 \<le> sint n0" "group_run semaphore_ops n0 c" "valid_ptr t" "wg_allowed op t (base c)"
  shows "pexec group_client semaphore_ops sw (op, sp) t c \<noteq> Fault \<and> wg_calm_run n0 (abs_group semaphore_ops c) \<and>
    (pexec group_client semaphore_ops sw (op, sp) t c = Next c' \<longrightarrow>
      abs_group semaphore_ops c' = abs_group semaphore_ops c \<or>
      wg_exec op sp t (abs_group semaphore_ops c) = Next (abs_group semaphore_ops c'))"
  by (rule semaphore_group.group_refines [OF assms])

lemma group_semaphore_releases_soon:
  assumes "0 \<le> sint n0" "group_run semaphore_ops n0 c" "workers (base c) = 0" "\<And>u. \<not> unparking (qpc (base c) u)"
    and "qpc (base c) t = Q_parked w"
  shows "\<exists>ts c'. set ts \<subseteq> insert t (callers c t) \<and> length ts \<le> 4 \<and>
    alone_run group_client semaphore_ops (W_wait, False) ts c = Next c' \<and> qpc (base c') t = Q_idle"
proof -
  have "semaphore_rank (parker_at c t) \<le> 2" by (simp add: semaphore_rank_def split: slocation.splits)
  then show ?thesis using semaphore_group.group_releases [OF assms] by fastforce
qed

text \<open>
  C11: on semaphore parkers too the waiters get out at zero: in these runs, once the counter is zero, every
  thread that is parked can return from \<open>wait\<close>, by its own steps, those of the thread inside
  \<open>unpark_all\<close> and the signals under way; and whoever has still to signal finds the waiter's node, with
  the semaphore, in memory.
\<close>

theorem group_semaphore_releases:
  assumes "0 \<le> sint n0" "group_run semaphore_ops n0 c" "workers (base c) = 0" "qpc (base c) t = Q_parked w"
  shows "(\<exists>ts c'. (\<forall>u \<in> set ts. u = t \<or> unparking (qpc (base c) u) \<or> calling c u \<noteq> None) \<and>
      alone_run group_client semaphore_ops (W_wait, False) ts c = Next c' \<and> qpc (base c') t = Q_idle) \<and>
    (calling c u = Some p \<longrightarrow> (\<exists>d. qheap (base c) p = Some d))"
  using semaphore_group.group_sleeper_served [OF assms] semaphore_group.group_call_finds_node [OF assms(1,2)]
  by blast

text \<open>8 waits on its semaphore, 16 has done the only piece of work and is about to cut off the queue.\<close>

definition waited_schedule :: "(wcall \<times> ptr) list" where
  "waited_schedule = replicate 16 (W_wait, 8) @ replicate 2 (W_done, 16)"

theorem group_semaphore_releases_witness:
  "\<exists>c ts c'. group_run semaphore_ops 1 c \<and> workers (base c) = 0 \<and> sloc (parker_at c 8) = S_wait \<and>
    alone_run group_client semaphore_ops (W_wait, False) ts c = Next c' \<and> qpc (base c') 8 = Q_idle"
proof -
  have "case group_schedule semaphore_ops waited_schedule (pstart semaphore_ops (with_size 1)) of
      Blocked \<Rightarrow> False | Fault \<Rightarrow> False
    | Next c \<Rightarrow> workers (base c) = 0 \<and> qpc (base c) 8 = Q_parked \<lparr>counter = 10\<rparr> \<and> sloc (parker_at c 8) = S_wait"
    by code_simp
  then obtain c where c: "group_schedule semaphore_ops waited_schedule (pstart semaphore_ops (with_size 1)) = Next c"
    "workers (base c) = 0" "qpc (base c) 8 = Q_parked \<lparr>counter = 10\<rparr>" "sloc (parker_at c 8) = S_wait"
    unfolding outcome_iff by blast
  have run: "group_run semaphore_ops 1 c" using group_schedule_run [OF group_init c(1)] by blast
  have "0 \<le> sint (1 :: u64)" by simp
  from group_semaphore_releases [OF this run c(2,3)] show ?thesis using run c(2,4) by blast
qed

end
