(* ===== verification/Wait_Group_Tls.thy ===== *)
theory Wait_Group_Tls
  imports Wait_Group
begin

section \<open>WaitGroup on the pthread platforms\<close>

text \<open>
  On the remaining Unix systems \<open>with_thread_data\<close> hands out a thread-local \<open>ThreadData\<close>, which is
  used again for every push and never goes away, and the parker is the one of \<open>Pthread\<close>, whose
  \<open>park\<close> returns at once (\<open>pthread_never_parks\<close>). Everything else is the machine of
  \<open>Parking_Queue\<close>.
\<close>

text \<open>The thread-local: made by \<open>ThreadData::new\<close> at its first use.\<close>

definition tls_data :: "ptr \<Rightarrow> 'c queue_sys \<Rightarrow> thread_data" where
  "tls_data t s = (case qheap s t of None \<Rightarrow> thread_data_new | Some d \<Rightarrow> d)"

text \<open>The node is filled in before the exchange, and stays as it is when the exchange fails.\<close>

definition tls_park_push :: "bool \<Rightarrow> ptr \<Rightarrow> spin_wait \<Rightarrow> u64 \<Rightarrow> 'c queue_sys \<Rightarrow> 'c queue_sys outcome" where
  "tls_park_push sp t w st s =
    (let s1 = qwrite t (queue_node (tls_data t s) t st) s in
     if qcas_ok sp s st then Next (qgoto t (Q_recheck w) (qstore (set_queue_head st t) s1))
     else Next (qgoto t (Q_retry (spin_wait_reset w)) s1))"

definition tls_park_sleep :: "ptr \<Rightarrow> spin_wait \<Rightarrow> 'c queue_sys \<Rightarrow> 'c queue_sys outcome" where
  "tls_park_sleep t w s = Next (qgoto t (Q_retry w) s)"

text \<open>The closure of \<open>with_thread_data\<close> returns, but the thread-local is still there.\<close>

definition keep_node :: "ptr \<Rightarrow> 'c queue_sys \<Rightarrow> 'c queue_sys \<Rightarrow> 'c queue_sys" where
  "keep_node t s s' = (case qheap s' t of
     None \<Rightarrow> s'\<lparr>qheap := (qheap s')(t := qheap s t)\<rparr> | Some d \<Rightarrow> s')"

definition tls_exec :: "('c \<Rightarrow> bool) \<Rightarrow> bool \<Rightarrow> ptr \<Rightarrow> 'c queue_sys \<Rightarrow> 'c queue_sys outcome" where
  "tls_exec retry sp t s =
    (case qpc s t of
       Q_push w st \<Rightarrow> tls_park_push sp t w st s
     | Q_parked w \<Rightarrow> tls_park_sleep t w s
     | _ \<Rightarrow> (case queue_exec retry sp t s of Next s' \<Rightarrow> Next (keep_node t s s') | r \<Rightarrow> r))"

definition tls_wg_exec :: "wcall \<Rightarrow> bool \<Rightarrow> ptr \<Rightarrow> wait_group \<Rightarrow> wait_group outcome" where
  "tls_wg_exec c sp t g =
    (if qpc g t = Q_idle then wg_exec c sp t g else tls_exec wait_over sp t g)"

definition tls_schedule :: "(wcall \<times> ptr) list \<Rightarrow> wait_group \<Rightarrow> wait_group outcome" where
  "tls_schedule = run_steps (\<lambda>p. tls_wg_exec (fst p) False (snd p))"

text \<open>
  8 waits while the counter is one. It pushes its node, \<open>park\<close> returns, it pushes the node again, now
  on top of itself. Then 16 finishes the work.
\<close>

definition pushed_twice :: "(wcall \<times> ptr) list" where
  "pushed_twice = replicate 19 (W_wait, 8) @ replicate 6 (W_done, 16)"

lemma walk_on_itself:
  assumes "qpc g t = U_walk x" "x \<noteq> null" "qheap g x = Some d" "next d = x" "parker d" "t \<noteq> x"
  shows "\<exists>g1. tls_wg_exec c sp t g = Next g1 \<and> qpc g1 t = U_unpark x x \<and> tls_wg_exec c sp t g1 = Next g"
proof -
  let ?g1 = "qgoto t (U_unpark x x) g"
  have keep: "keep_node t s s' = s'" if "qheap s' t = qheap s t" for s s' :: wait_group
    using that by (auto simp: keep_node_def fun_upd_idem split: option.splits)
  have "tls_wg_exec c sp t g = Next ?g1"
    using assms by (simp add: tls_wg_exec_def tls_exec_def queue_exec_def unpark_all_walk_def
      qderef_def keep)
  moreover have "d\<lparr>parker := True\<rparr> = d" using assms(5) by simp
  then have "qgoto t (U_walk x) (qwrite x (d\<lparr>parker := True\<rparr>) ?g1) = g"
    using assms(1,3) by (simp add: qgoto_def qwrite_def fun_upd_idem)
  then have "tls_wg_exec c sp t ?g1 = Next g"
    using assms by (simp add: tls_wg_exec_def tls_exec_def queue_exec_def unpark_all_unpark_def
      qderef_def keep)
  ultimately show ?thesis by auto
qed

text \<open>
  C28: on these platforms \<open>done\<close> can run for ever: since \<open>park\<close> does not block, a waiter pushes its
  thread-local node again while it is on the queue, the node then points to itself, and \<open>unpark_all\<close>
  never reaches the end of the list.
\<close>

theorem tls_unpark_all_hangs:
  "\<exists>g. tls_schedule pushed_twice (with_size 1) = Next g \<and> workers g = 0 \<and>
    (\<forall>n. \<exists>g'. tls_schedule (replicate n (W_done, 16)) g = Next g' \<and> qpc g' 16 \<noteq> Q_idle)"
proof -
  have "case tls_schedule pushed_twice (with_size 1) of Blocked \<Rightarrow> False | Fault \<Rightarrow> False
    | Next g \<Rightarrow> qpc g 16 = U_walk 8 \<and> client g = 0 \<and>
        qheap g 8 = Some (thread_data_new\<lparr>parker := True, next := 8\<rparr>)"
    by code_simp
  then obtain g where g: "tls_schedule pushed_twice (with_size 1) = Next g" "qpc g 16 = U_walk 8"
    "client g = 0" "qheap g 8 = Some (thread_data_new\<lparr>parker := True, next := 8\<rparr>)"
    unfolding outcome_iff by blast
  obtain g1 where g1: "tls_wg_exec W_done False 16 g = Next g1" "qpc g1 16 = U_unpark 8 8"
    "tls_wg_exec W_done False 16 g1 = Next g"
    using walk_on_itself [OF g(2) _ g(4), of W_done False] by auto
  have "\<exists>g'. tls_schedule (replicate n (W_done, 16)) g = Next g' \<and> qpc g' 16 \<noteq> Q_idle" for n
    using goes_round_forever [of "\<lambda>p. tls_wg_exec (fst p) False (snd p)" "(W_done, 16)" g g1 n] g1 g(2)
    by (auto simp: tls_schedule_def)
  then show ?thesis using g(1,3) by (auto simp: workers_def)
qed

end
