(* ===== verification/Abort_Self.thy ===== *)
theory Abort_Self
  imports Parking_Queue_Progress Wait_Group
begin

section \<open>ParkingQueue: \<open>abort_self\<close> on a queue that is not locked\<close>

text \<open>
  A waiter that gives up while its node is in the queue, nobody works on the queue and nobody
  interferes: it takes out exactly its own node, wherever that is, and leaves the rest linked in
  order. At the head the first exchange always fails, because the local \<open>state\<close> was read before
  the queue was locked; the second round succeeds.
\<close>

subsection \<open>Taking a node out of a chain\<close>

lemma chain_next_cong:
  assumes "\<And>x d. x \<in> set xs \<Longrightarrow> H x = Some d \<Longrightarrow> \<exists>d'. H' x = Some d' \<and> next d' = next d"
  shows "chain H p xs \<Longrightarrow> chain H' p xs"
  using assms by (induction xs arbitrary: p) fastforce+

lemma chain_append:
  "chain H p (ps @ t # qs) \<Longrightarrow> \<exists>d. H t = Some d \<and> t \<noteq> null \<and> chain H (next d) qs"
  by (induction ps arbitrary: p) auto

lemma chain_unlink:
  assumes "chain H p (ps @ l # t # qs)" "distinct (ps @ l # t # qs)" "H t = Some d" "H l = Some e"
  shows "chain (H(l \<mapsto> e\<lparr>next := next d\<rparr>)) p (ps @ l # qs)"
  using assms(1,2)
proof (induction ps arbitrary: p)
  case Nil
  then show ?case using assms(3,4) by (auto simp: chain_upd simp del: fun_upd_apply simp add: fun_upd_same)
qed auto

lemma chain_last: "chain H p (ps @ l # t # qs) \<Longrightarrow> \<exists>e. H l = Some e \<and> next e = t"
  using chain_append [of H p ps l "t # qs"] by auto

subsection \<open>The walk to the own node\<close>

lemma solo_abort_walk:
  assumes "qpc s t = A_walk w st cur prv" "chain (qheap s) cur (ps @ t # qs)" "t \<notin> set ps"
  shows "queue_solo retry (length ps) t s =
    Next (qgoto t (A_walk w st t (if ps = [] then prv else last ps)) s)"
  using assms
proof (induction ps arbitrary: cur prv s)
  case Nil
  then have "qgoto t (A_walk w st t prv) s = s" by (simp add: qgoto_def fun_upd_idem)
  then show ?case by simp
next
  case (Cons x ps)
  from Cons.prems(2,3) obtain d where x: "cur = x" "x \<noteq> null" "qheap s x = Some d"
    "chain (qheap s) (next d) (ps @ t # qs)" "x \<noteq> t" by auto
  let ?s = "qgoto t (A_walk w st (next d) x) s"
  have "queue_exec retry False t s = Next ?s"
    using Cons.prems x by (simp add: queue_exec_def abort_walk_def qderef_def)
  moreover have "queue_solo retry (length ps) t ?s =
      Next (qgoto t (A_walk w st t (if ps = [] then x else last ps)) ?s)"
    by (rule Cons.IH) (use x Cons.prems in auto)
  ultimately show ?case by (simp add: qgoto_def)
qed

subsection \<open>Its own node\<close>

text \<open>What \<open>abort_self\<close> leaves: the node gone, the queue unlocked and linked as \<open>xs\<close>.\<close>

definition node_removed :: "ptr \<Rightarrow> spin_wait \<Rightarrow> ptr list \<Rightarrow> 'c queue_sys \<Rightarrow> 'c queue_sys \<Rightarrow> bool" where
  "node_removed t w xs s s' \<longleftrightarrow> qheap s' t = None \<and> chain (qheap s') (queue_head (qstate s')) xs \<and>
    \<not> qlocked (qstate s') \<and> (locked (qstate s') \<longleftrightarrow> locked (qstate s)) \<and>
    (timeout (qstate s') \<longleftrightarrow> timeout (qstate s)) \<and>
    qpc s' = (qpc s)(t := Q_retry w) \<and> client s' = client s"

text \<open>The last step: the thread unparks its own node, which goes.\<close>

lemma solo_abort_unpark:
  assumes "qpc s t = A_unpark w" "qheap s t = Some d" "t \<notin> set xs"
    "chain (qheap s) (queue_head (qstate s)) xs" "\<not> qlocked (qstate s)"
  shows "\<exists>s'. queue_solo retry 1 t s = Next s' \<and> node_removed t w xs s s'"
  using assms
  by (simp add: queue_exec_def abort_unpark_def qderef_def node_removed_def chain_upd)

text \<open>An inner node: its predecessor skips it.\<close>

lemma solo_abort_inner:
  assumes "qpc s t = A_walk w st t l" "chain (qheap s) (queue_head (qstate s)) (ps @ l # t # qs)"
    "distinct (ps @ l # t # qs)"
  shows "\<exists>s'. queue_solo retry 3 t s = Next s' \<and> node_removed t w (ps @ l # qs) s s'"
proof -
  obtain d where d: "qheap s t = Some d" "t \<noteq> null"
    using chain_append [of "qheap s" _ "ps @ [l]" t qs] assms(2) by auto
  obtain e where e: "qheap s l = Some e" "l \<noteq> null"
    using chain_append [of "qheap s" _ ps l "t # qs"] assms(2) by auto
  let ?s1 = "qgoto t (A_unlock w) (qwrite l (e\<lparr>next := next d\<rparr>) s)"
  let ?s2 = "qgoto t (A_unpark w) (qstore (qstate ?s1 AND NOT QUEUE_LOCKED_BIT) ?s1)"
  have s1: "queue_exec retry False t s = Next ?s1"
    using assms(1) d e by (simp add: queue_exec_def abort_walk_def qderef_def)
  have s2: "queue_exec retry False t ?s1 = Next ?s2"
    by (simp add: queue_exec_def abort_unlock_def)
  have unlinked: "chain (qheap ?s2) (queue_head (qstate ?s2)) (ps @ l # qs)"
    using chain_unlink [OF assms(2,3) d(1) e(1)] by (simp add: layout del: fun_upd_apply)
  have "\<exists>s'. queue_solo retry 1 t ?s2 = Next s' \<and> node_removed t w (ps @ l # qs) ?s2 s'"
    by (rule solo_abort_unpark [OF _ _ _ unlinked, where d = d]) (use assms d in \<open>auto simp: layout\<close>)
  then obtain s' where s': "queue_solo retry 1 t ?s2 = Next s'" "node_removed t w (ps @ l # qs) ?s2 s'" by blast
  have "queue_solo retry (Suc (Suc 1)) t s = Next s'"
    unfolding queue_solo.simps(2) [of retry "Suc 1"] s1 outcome.case
    unfolding queue_solo.simps(2) [of retry 1] s2 outcome.case by (rule s'(1))
  moreover have "node_removed t w (ps @ l # qs) s s'"
    using s'(2) by (auto simp: node_removed_def layout)
  ultimately show ?thesis by (auto simp: numeral_3_eq_3)
qed

text \<open>
  The head: its \<open>queue_tail\<close> goes to the next node, and the exchange succeeds if the local state is
  that of the word.
\<close>

definition moved_tail :: "ptr \<Rightarrow> 'c queue_sys \<Rightarrow> 'c queue_sys" where
  "moved_tail t s =
    (case qheap s t of None \<Rightarrow> s | Some d \<Rightarrow>
      if next d = null then s
      else case qheap s (next d) of None \<Rightarrow> s | Some n \<Rightarrow>
        qwrite (next d) (n\<lparr>queue_tail := queue_tail d\<rparr>) s)"

lemma moved_tail_simps [simp]:
  "qstate (moved_tail t s) = qstate s" "qpc (moved_tail t s) = qpc s" "client (moved_tail t s) = client s"
  by (auto simp: moved_tail_def split: option.splits)

lemma moved_tail_heap:
  assumes "qheap s t = Some d" "next d \<noteq> t"
  shows "qheap (moved_tail t s) t = Some d"
    "qheap s x = Some e \<Longrightarrow> \<exists>e'. qheap (moved_tail t s) x = Some e' \<and> next e' = next e"
  using assms by (auto simp: moved_tail_def split: option.splits)

lemma abort_walk_head:
  assumes "qpc s t = A_walk w st t null" "qheap s t = Some d" "t \<noteq> null"
    "next d = null \<or> qheap s (next d) \<noteq> None"
  shows "queue_exec retry False t s = Next (qgoto t (A_cas w st (next d)) (moved_tail t s))"
  using assms by (auto simp: queue_exec_def abort_walk_def qderef_def moved_tail_def)

lemma chain_head_ok: "chain H p xs \<Longrightarrow> \<forall>x \<in> set xs. valid_ptr x \<Longrightarrow> ptr_ok p"
  by (cases xs) (auto simp: ptr_ok_def)

lemma chain_cons_next:
  assumes "chain H p (t # qs)" "t \<notin> set qs"
  obtains d where "H t = Some d" "p = t" "t \<noteq> null" "chain H (next d) qs" "next d \<noteq> t"
    "next d = null \<or> H (next d) \<noteq> None"
proof -
  obtain d where d: "H t = Some d" "p = t" "t \<noteq> null" "chain H (next d) qs" using assms(1) by auto
  then show ?thesis using that [of d] assms(2) by (cases qs) auto
qed

lemma chain_moved_tail:
  assumes "qheap s t = Some d" "next d \<noteq> t"
  shows "chain (qheap s) p xs \<Longrightarrow> chain (qheap (moved_tail t s)) p xs"
  using chain_next_cong [of xs "qheap s" "qheap (moved_tail t s)" p] moved_tail_heap(2) [OF assms]
  by blast

lemma solo_abort_head_again:
  assumes "qpc s t = A_walk w st t null" "chain (qheap s) (queue_head (qstate s)) (t # qs)"
    "t \<notin> set qs" "st \<noteq> qstate s"
  shows "queue_solo retry 2 t s =
      Next (qgoto t (A_walk w (qstate s) (queue_head (qstate s)) null) (moved_tail t s)) \<and>
    chain (qheap (moved_tail t s)) (queue_head (qstate s)) (t # qs)"
proof -
  obtain d where d: "qheap s t = Some d" "queue_head (qstate s) = t" "t \<noteq> null" "next d \<noteq> t"
    "next d = null \<or> qheap s (next d) \<noteq> None"
    using chain_cons_next [OF assms(2,3)] by metis
  let ?s1 = "qgoto t (A_cas w st (next d)) (moved_tail t s)"
  have s1: "queue_exec retry False t s = Next ?s1"
    by (rule abort_walk_head [OF assms(1) d(1,3,5)])
  have s2: "queue_exec retry False t ?s1 =
      Next (qgoto t (A_walk w (qstate s) (queue_head (qstate s)) null) (moved_tail t s))"
    using assms(4) by (simp add: queue_exec_def abort_cas_def qcas_ok_def qgoto_def)
  show ?thesis
    using s1 s2 chain_moved_tail [OF d(1,4) assms(2)] by (simp add: numeral_2_eq_2)
qed

lemma solo_abort_head:
  assumes "qpc s t = A_walk w (qstate s) t null" "chain (qheap s) (queue_head (qstate s)) (t # qs)"
    "t \<notin> set qs" "\<forall>x \<in> set qs. valid_ptr x"
  shows "\<exists>s'. queue_solo retry 3 t s = Next s' \<and> node_removed t w qs s s'"
proof -
  obtain d where d: "qheap s t = Some d" "t \<noteq> null" "chain (qheap s) (next d) qs" "next d \<noteq> t"
    "next d = null \<or> qheap s (next d) \<noteq> None"
    using chain_cons_next [OF assms(2,3)] by metis
  have ok: "ptr_ok (next d)" by (rule chain_head_ok [OF d(3) assms(4)])
  define v where "v = set_queue_head (qstate s) (next d) AND NOT QUEUE_LOCKED_BIT"
  have v: "queue_head v = next d" "\<not> qlocked v" "locked v = locked (qstate s)" "timeout v = timeout (qstate s)"
    using set_queue_head_flags [OF ok] queue_head_set [OF ok] by (simp_all add: v_def layout)
  let ?s1 = "qgoto t (A_cas w (qstate s) (next d)) (moved_tail t s)"
  let ?s2 = "qgoto t (A_unpark w) (qstore v ?s1)"
  have s1: "queue_exec retry False t s = Next ?s1"
    by (rule abort_walk_head [OF assms(1) d(1,2,5)])
  have s2: "queue_exec retry False t ?s1 = Next ?s2"
    by (simp add: queue_exec_def abort_cas_def qcas_ok_def v_def)
  have left: "chain (qheap ?s2) (queue_head (qstate ?s2)) qs"
    using chain_moved_tail [OF d(1,4,3)] v(1) by simp
  have "\<exists>s'. queue_solo retry 1 t ?s2 = Next s' \<and> node_removed t w qs ?s2 s'"
    by (rule solo_abort_unpark [OF _ _ _ left, where d = d])
       (use assms(3) moved_tail_heap(1) [OF d(1,4)] v(2) in simp_all)
  then obtain s' where s': "queue_solo retry 1 t ?s2 = Next s'" "node_removed t w qs ?s2 s'" by blast
  have "queue_solo retry (Suc (Suc 1)) t s = Next s'"
    unfolding queue_solo.simps(2) [of retry "Suc 1"] s1 outcome.case
    unfolding queue_solo.simps(2) [of retry 1] s2 outcome.case by (rule s'(1))
  moreover have "node_removed t w qs s s'"
    using s'(2) v by (auto simp: node_removed_def)
  ultimately show ?thesis by (auto simp: numeral_3_eq_3)
qed

text \<open>From the walk's end, with the local state from before the queue was locked.\<close>

lemma solo_abort_found:
  assumes "qpc s t = A_walk w st t (if ps = [] then null else last ps)" "st \<noteq> qstate s"
    "chain (qheap s) (queue_head (qstate s)) (ps @ t # qs)" "distinct (ps @ t # qs)"
    "\<forall>x \<in> set qs. valid_ptr x"
  shows "\<exists>m s'. m \<le> (if ps = [] then 5 else 3) \<and> queue_solo retry m t s = Next s' \<and>
    node_removed t w (ps @ qs) s s'"
proof (cases ps rule: rev_cases)
  case Nil
  let ?s = "qgoto t (A_walk w (qstate s) (queue_head (qstate s)) null) (moved_tail t s)"
  have again: "queue_solo retry 2 t s = Next ?s" "chain (qheap (moved_tail t s)) (queue_head (qstate s)) (t # qs)"
    using solo_abort_head_again [of s t w st qs] assms Nil by auto
  have "queue_head (qstate s) = t" using again(2) by simp
  then have "\<exists>s'. queue_solo retry 3 t ?s = Next s' \<and> node_removed t w qs ?s s'"
    by (intro solo_abort_head) (use again(2) assms(4,5) in auto)
  then obtain s' where s': "queue_solo retry 3 t ?s = Next s'" "node_removed t w qs ?s s'" by blast
  have "queue_solo retry (2 + 3) t s = Next s'" using trans [OF queue_solo_append [OF again(1)] s'(1)] .
  moreover have "node_removed t w qs s s'" using s'(2) by (auto simp: node_removed_def)
  ultimately show ?thesis using Nil by (intro exI [of _ "2 + 3"] exI [of _ s']) simp
next
  case (snoc ys l)
  then show ?thesis using solo_abort_inner [of s t w st l ys qs] assms by auto
qed

subsection \<open>The whole operation\<close>

lemma solo_abort_start:
  assumes "qpc s t = A_load w" "\<not> qlocked (qstate s)" "\<not> locked (qstate s)"
    "queue_head (qstate s) \<noteq> null"
  shows "queue_solo retry 2 t s = Next (qgoto t (A_walk w (qstate s) (queue_head (qstate s)) null)
    (qstore (qstate s OR QUEUE_LOCKED_BIT) s))"
proof -
  have "qstate s AND QUEUE_CLEAR_BIT = 0" "qstate s AND QUEUE_LOCKED_BIT = 0"
    using and_bit_eq_0(1,2) [of "qstate s"] assms(2,3) by (simp_all add: QUEUE_CLEAR_BIT_def LOCKED_BIT_def)
  then show ?thesis
    using assms by (simp add: numeral_2_eq_2 queue_exec_def try_lock_queue_def abort_lock_def
      is_queue_locked_def qcas_ok_def qgoto_def qstore_def)
qed

text \<open>
  C13: a waiter that gives up on an unlocked queue, and is not disturbed, takes at most the length of
  the queue plus six steps; its node, and no other, has then left the queue, the order of the rest
  is kept, the queue is unlocked and the thread is back at the test of its condition.
\<close>

theorem abort_self_removes:
  assumes "qpc s t = A_load w" "\<not> qlocked (qstate s)" "\<not> locked (qstate s)"
    "chain (qheap s) (queue_head (qstate s)) xs" "distinct xs" "\<forall>x \<in> set xs. valid_ptr x" "t \<in> set xs"
  shows "\<exists>n s'. n \<le> length xs + 6 \<and> queue_solo retry n t s = Next s' \<and>
    node_removed t w (remove1 t xs) s s'"
proof -
  obtain ps qs where xs: "xs = ps @ t # qs" "t \<notin> set ps" using assms(7) split_list_first by metis
  have t: "remove1 t xs = ps @ qs" using xs by (simp add: remove1_append)
  have head: "queue_head (qstate s) \<noteq> null" using assms(4) xs by (cases ps) auto
  define s2 where "s2 = qstore (qstate s OR QUEUE_LOCKED_BIT) s"
  have word: "queue_head (qstate s2) = queue_head (qstate s)" "qlocked (qstate s2)"
    "locked (qstate s2) = locked (qstate s)" "timeout (qstate s2) = timeout (qstate s)"
    by (simp_all add: s2_def layout)
  define s3 where "s3 = qgoto t (A_walk w (qstate s) t (if ps = [] then null else last ps)) s2"
  have walk: "queue_solo retry (2 + length ps) t s = Next s3"
    unfolding queue_solo_append [OF solo_abort_start [OF assms(1-3) head]]
    using solo_abort_walk [of "qgoto t (A_walk w (qstate s) (queue_head (qstate s)) null) s2" t w] assms(4) xs
    by (simp add: s2_def s3_def qgoto_def)
  have "qstate s \<noteq> qstate s3" "chain (qheap s3) (queue_head (qstate s3)) (ps @ t # qs)"
    using assms(2,4) xs(1) word by (auto simp: s3_def s2_def)
  then have "\<exists>m s'. m \<le> (if ps = [] then 5 else 3) \<and> queue_solo retry m t s3 = Next s' \<and>
      node_removed t w (ps @ qs) s3 s'"
    by (intro solo_abort_found [where st = "qstate s"]) (use assms(5,6) xs(1) in \<open>auto simp: s3_def\<close>)
  then obtain m s' where m: "m \<le> (if ps = [] then 5 else 3)" "queue_solo retry m t s3 = Next s'"
    "node_removed t w (ps @ qs) s3 s'" by blast
  have "node_removed t w (ps @ qs) s s'"
    using m(3) word by (auto simp: node_removed_def s2_def s3_def)
  moreover have "queue_solo retry (2 + length ps + m) t s = Next s'"
    using queue_solo_append [OF walk] m(2) by simp
  moreover have "2 + length ps + m \<le> length xs + 6" using m(1) xs(1) by (auto split: if_splits)
  ultimately show ?thesis unfolding t by blast
qed

text \<open>8 has pushed its node when 16 finishes the last piece of work, and gives up before it is woken.\<close>

definition giving_up_schedule :: "(wcall \<times> ptr) list" where
  "giving_up_schedule = pushed_schedule @ [(W_done, 16), (W_wait, 8)]"

theorem abort_self_removes_witness:
  "\<exists>g n g' w. wg_schedule giving_up_schedule (with_size 1) = Next g \<and> qpc g 8 = A_load w \<and>
    n \<le> 7 \<and> queue_solo wait_over n 8 g = Next g' \<and> qpc g' 8 = Q_retry w \<and> qheap g' 8 = None"
proof -
  have "case wg_schedule giving_up_schedule (with_size 1) of Blocked \<Rightarrow> False | Fault \<Rightarrow> False
    | Next g \<Rightarrow> qpc g 8 = A_load \<lparr>counter = 10\<rparr> \<and> qstate g = 8 \<and>
        qheap g 8 = Some (thread_data_new\<lparr>queue_tail := 8\<rparr>)"
    by code_simp
  then obtain g where g: "wg_schedule giving_up_schedule (with_size 1) = Next g"
    "qpc g 8 = A_load \<lparr>counter = 10\<rparr>" "qstate g = 8" "qheap g 8 = Some (thread_data_new\<lparr>queue_tail := 8\<rparr>)"
    unfolding outcome_iff by blast
  have word: "\<not> qlocked (8 :: u64)" "\<not> locked (8 :: u64)" "queue_head 8 = 8"
    by (simp_all add: queue_head_def QUEUE_MASK_def and_bit_eq_0 [symmetric] bit_consts)
  have "\<exists>n g'. n \<le> length [8 :: ptr] + 6 \<and> queue_solo wait_over n 8 g = Next g' \<and>
      node_removed 8 \<lparr>counter = 10\<rparr> (remove1 8 [8]) g g'"
    by (rule abort_self_removes)
       (use g(2-4) word in \<open>simp_all add: thread_data_new_def valid_ptr_def\<close>)
  then show ?thesis using g(1,2) by (fastforce simp: node_removed_def)
qed

end
