(* ===== verification/Spec2Isabelle.thy ===== *)
theory Spec2Isabelle
  imports Hasher Test_Vectors X86_Props Mutex Mutex_Futex Mutex_Semaphore Mutex_Tls Raw_Mutex_Progress Futex_Sys Pthread Wait_Group_Calm Wait_Group_Futex Wait_Group_Semaphore Wait_Group_Tls Abort_Self
begin

text \<open>
  A model of mekong-9, a Rust workspace of four crates: \<open>mekong9-hash\<close> (CityHash and a mixing
  hasher), \<open>mekong9-utils\<close> (backoff, cache padding), \<open>mekong9-parker\<close> (blocking one thread) and
  \<open>mekong9-sync\<close> (a mutex and a wait group on a word-sized queued lock).

  \<^bold>\<open>How the parts interact.\<close> \<open>MixingHasher\<close> feeds bytes to the low-level combiner, which uses
  CityHash on 32-bit targets and a folded multiply (or CRC and AES instructions) on 64-bit ones.
  \<open>Mutex\<close> guards its data with \<open>RawMutex\<close>; \<open>RawMutex\<close> queues the waiters' \<open>ThreadData\<close>, which
  live in the waiters' frames, spins with \<open>SpinWait\<close>, blocks through a \<open>ThreadParker\<close> and lets
  \<open>FairTimeout\<close> decide when an unlock must hand the lock over.

  \<^bold>\<open>Conventions.\<close> Machine integers are words of their width. A panic, a failed assertion or a read
  outside a slice is \<^const>\<open>None\<close>. \<open>debug_assert!\<close> and overflow checks are on. The target is
  little-endian; 32-bit and 64-bit variants are separate definitions.

  \<^bold>\<open>The hash crate.\<close>
  \<^item> \<open>Prelude\<close>: integer types, panicking slices, byte order, bijectivity of mixing steps.
  \<^item> \<open>Unaligned_Access\<close>, \<open>City\<close>, \<open>City_Props\<close>: \<open>internal/unaligned_access.rs\<close> and
    \<open>internal/city.rs\<close>. Every hash function is total and in bounds on every slice; seeding and
    the chunk loop lose no information.
  \<^item> \<open>Low_Level\<close>, \<open>Piecewise\<close>: the portable and the 32-bit combiner of \<open>internal/low_level.rs\<close>.
    The locale \<open>piecewise\<close> states that hashing whole chunks one after the other equals hashing
    them at once, and that a combiner fails exactly when one of its chunks does; \<open>total_piecewise\<close>
    adds that nothing fails. All three combiners interpret it.
  \<^item> \<open>X86_Hash\<close>, \<open>X86_Props\<close>: the x86-64 path. The intrinsics are written out (CRC-32C bit by bit,
    the AES round on 16 bytes); whether SSE 4.2 is present is an argument.
  \<^item> \<open>Test_Vectors\<close>: rows of the repository's own test tables, evaluated on the model.
  \<^item> \<open>Hasher\<close>: \<open>hash.rs\<close>, every writer of \<open>MixingHasher\<close>; when the folded multiplication is zero, and
    why \<open>write_usize\<close> can forget what was hashed before.

  \<^bold>\<open>The mutex.\<close>
  \<^item> \<open>Lock_State\<close>: the state word of \<open>parking/auxiliary.rs\<close>, three flags and an address, and what
    each atomic update does to them (the collection \<open>layout\<close>).
  \<^item> \<open>Raw_Mutex\<close>: the operations. A system is the word, the fair deadline, the heap of nodes and
    the location of every thread with its locals. \<open>exec e t s\<close> is one step of thread \<open>t\<close>: one
    access to shared memory with the local computation around it; \<open>e\<close> holds what the environment
    chooses (the client's call, spurious failures of weak exchanges, the clock). Access to a node
    that does not exist is \<open>Fault\<close>. There are as many threads as addresses, and no bound on the
    length of a run.
  \<^item> \<open>Raw_Mutex_Inv\<close>: the invariant, conjunct by conjunct: who holds the lock, who owns the queue,
    when the announcement flag is set, which nodes exist, the linked list with its processed part,
    who will be woken by whom, what each location knows, and that somebody is awake.
  \<^item> \<open>Raw_Mutex_Steps\<close>: the abstract lock \<open>spec_step\<close> and one lemma per group of steps that the
    code simulates it; \<open>exec_ok\<close> combines them.
  \<^item> \<open>Raw_Mutex_Props\<close>: mutual exclusion, memory safety, the flags, first-in first-out order, no
    lost wake-up, no deadlock, hand-over.
  \<^item> \<open>Raw_Mutex_Progress\<close>: \<open>unlock\<close> and a due \<open>unlock_fair\<close> finish and serve the oldest waiter; the
    number of steps is existential and comes from induction on the unlinked part of the list.
  \<^item> \<open>Raw_Mutex_Obtain\<close>: from every reachable system a thread inside \<open>lock\<close> can still get it, by steps of
    the threads inside an operation; the schedule is built in rounds, each of which brings one thread
    into a later phase of the protocol.
  \<^item> \<open>Mutex\<close>: \<open>mutex.rs\<close>. The locale \<open>exclusive_lock\<close> is what data under a lock needs; RawMutex
    interprets it, and the absence of lost increments follows. Histories of \<open>lock\<close>, \<open>try_lock\<close> and the
    guards' accesses and drops (\<open>mutex_history\<close>) are those of one atomic cell (\<open>cell_step\<close>).
  \<^item> \<open>Mutex_Parkers\<close>: \<open>RawMutex\<close> with a parker in each node instead of its contract (\<open>mexec\<close>), as a
    client of \<open>Parker_Client\<close>. \<open>token_sys\<close> maps such a system to one of \<open>Raw_Mutex\<close>, which it refines, and
    whose steps it can all make; no deadlock, return from \<open>park\<close>, that a waiting thread can be served and
    the guards' exclusion hold for it too (the locale \<open>mutex_on_parkers\<close>). \<open>Mutex_Futex\<close> and
    \<open>Mutex_Semaphore\<close> are the two implementations: on the futex a wake-up call may come when its node
    is gone, on the semaphore it never does.
  \<^item> \<open>Mutex_Tls\<close>: the platforms with thread-local nodes and the pthread parker; there \<open>unlock\<close> can run
    for ever.
  \<^item> \<open>Spin_Wait\<close>, \<open>Fair_Timeout\<close>, \<open>Utils\<close>: \<open>spin_wait.rs\<close>, \<open>parking/time.rs\<close>, \<open>backoff.rs\<close>,
    \<open>cache_padded.rs\<close>, \<open>hint.rs\<close>.

  \<^bold>\<open>The wait group.\<close>
  \<^item> \<open>Parking_Queue\<close>: the other queue of \<open>parking/auxiliary.rs\<close>, \<open>park\<close>, \<open>unpark_all\<close> and \<open>abort_self\<close>,
    as a machine like that of \<open>RawMutex\<close> (\<open>queue_exec\<close>), for any client state and any \<open>retry\<close>; in
    every run its pointers are null or addresses at which a node was pushed. The locale \<open>retry_queue\<close> is what a client of \<open>park\<close>
    relies on; the machine interprets it.
  \<^item> \<open>Parking_Queue_Inv\<close>, \<open>Parking_Queue_Progress\<close>: as long as nobody gives up after its push, the
    queue refines an abstract one (push, take all, wake), never touches a freed node, and
    \<open>unpark_all\<close> returns having woken everybody. The number of steps is existential.
  \<^item> \<open>Abort_Self\<close>: what \<open>abort_self\<close> does when nothing interferes, with its number of steps.
  \<^item> \<open>Wait_Group\<close>: \<open>wait_group.rs\<close>; the counter, what \<open>wait\<close> returning means, and three schedules
    in which the code fails: an access to a freed node and an endless search, both in
    \<open>abort_self\<close>, and a missed waiter when the group is reused during an \<open>unpark_all\<close>.
  \<^item> \<open>Wait_Group_Tls\<close>: the platforms with thread-local nodes and the pthread parker; there \<open>done\<close>
    can run for ever.
  \<^item> \<open>Wait_Group_Calm\<close>, \<open>Wait_Group_Release\<close>: runs in which none of that can happen; the waiters are released,
    wherever \<open>unpark_all\<close> is.
  \<^item> \<open>Wait_Group_Parkers\<close>, with \<open>Wait_Group_Futex\<close> and \<open>Wait_Group_Semaphore\<close>: those runs on parkers; the
    waiters get out of the system call they sleep in.

  \<^bold>\<open>The parkers.\<close>
  \<^item> \<open>Parker\<close>: the locale \<open>parker\<close>, the contract that \<open>RawMutex\<close> assumes of its nodes' parkers: an
    \<open>unpark\<close> leaves a token and \<open>park\<close> returns by taking it. The locale \<open>parker_impl\<close> is the same contract
    for a parker whose accesses are steps of a larger machine, with a bound on the steps to the return;
    \<open>waiting_parker\<close> adds that its system calls are waited for.
  \<^item> \<open>Futex\<close>, \<open>Semaphore\<close>: the two implementations that satisfy it (for the semaphore only
    \<open>park\<close>; two theorems show how its \<open>park_until\<close> fails). The kernel's futex and Apple's
    dispatch semaphore are their documented behaviour in the step relations.
  \<^item> \<open>Futex_Sys\<close>: the system-call wrappers of each platform in \<open>futex.rs\<close>, with the call as an
    argument: what they answer, and when their assertions fail.
  \<^item> \<open>Parker_Client\<close>: a queue machine whose nodes have such parkers (\<open>pexec\<close>): the steps inside \<open>park\<close>,
    the system calls under way and spurious wake-ups. The locale \<open>parker_client\<close> is what the queue
    has to provide; with \<open>parker_impl\<close> (\<open>queue_on_parkers\<close>) the machine refines the queue on tokens, and
    every step of that can be matched by a run of this one. Both queues provide the one, both
    parkers the other, and the four systems are interpretations.
  \<^item> \<open>Pthread\<close>: this implementation does not satisfy it; it never blocks.
  \<^item> \<open>Timespec\<close>: the time arithmetic of \<open>parker/auxiliary.rs\<close>, its choice of clock, and the Windows wait.

  \<^bold>\<open>Limits.\<close> Memory is sequentially consistent: the acquire and release orderings are not
  modelled. A thread's \<open>ThreadData\<close> has the same address in all its calls. A client unlocks only
  what it holds, as the guards ensure. Unwinding is not modelled: a thread that panics goes no
  further, and a lock that it holds stays held. Not modelled at all:
  what the kernel does in a system call, prefetching (a hint), the commented-out
  \<open>raw_rwlock.rs\<close>, and module glue.
\<close>

end
